(* ===== verification/Prelude.thy ===== *)
theory Prelude
  imports Complex_Main "HOL-Library.Monad_Syntax" "HOL-Library.Multiset" "HOL-Library.Word"
    "HOL-Library.Sublist"
begin

section \<open>Prelude: Go's primitive operations and shared lemmas\<close>

text \<open>
  What every component shares. A Go expression that can stop the goroutine with a runtime
  panic (an index out of range, a division by zero, a slice of negative length) is a value of
  \<open>'a go\<close>: \<open>None\<close> is the panic, so that the \<open>do\<close> notation of the option monad is Go's
  sequencing. Go's \<open>int\<close> is \<open>int\<close> where the source only stores lengths, indices and
  configured bounds in it; where 64-bit arithmetic can wrap, \<open>wrap64\<close> writes it out
  (signed) and counters are \<open>64 word\<close> (unsigned). The second half holds the facts
  on \<open>rotate\<close> that the ring buffer of the queue rests on.
\<close>

named_theorems go_defs "definitions of the primitive Go operations"

type_synonym 'a go = "'a option"
type_synonym u64 = "64 word"

subsection \<open>Integers\<close>

text \<open>Go's \<open>%\<close> takes the sign of the dividend and panics on a zero divisor.\<close>

definition go_rem :: "int \<Rightarrow> int \<Rightarrow> int go" where
  [go_defs]: "go_rem a b = (if b = 0 then None else Some (sgn a * (\<bar>a\<bar> mod \<bar>b\<bar>)))"

text \<open>Go's \<open>/\<close> on constants other than zero truncates towards zero.\<close>

definition go_quot :: "int \<Rightarrow> int \<Rightarrow> int" where
  [go_defs]: "go_quot a b = sgn a * sgn b * (\<bar>a\<bar> div \<bar>b\<bar>)"

text \<open>The value a signed 64-bit register holds after an arithmetic operation.\<close>

definition wrap64 :: "int \<Rightarrow> int" where
  [go_defs]: "wrap64 n = (n + 2 ^ 63) mod 2 ^ 64 - 2 ^ 63"

definition max_int64 :: int where
  [go_defs]: "max_int64 = 2 ^ 63 - 1"

definition in_int64 :: "int \<Rightarrow> bool" where
  [go_defs]: "in_int64 n \<longleftrightarrow> - (2 ^ 63) \<le> n \<and> n < 2 ^ 63"

text \<open>The conversion \<open>uint64(n)\<close> of a Go \<open>int\<close>.\<close>

definition to_u64 :: "int \<Rightarrow> u64" where
  "to_u64 n = word_of_int n"

lemma go_rem_nonneg [simp]:
  "0 \<le> a \<Longrightarrow> 0 < b \<Longrightarrow> go_rem a b = Some (a mod b)"
  by (cases "a = 0") (auto simp: go_rem_def)

lemma go_rem_int: "0 < n \<Longrightarrow> go_rem (int a) (int n) = Some (int (a mod n))"
  by (simp add: zmod_int)

lemma go_quot_nonneg: "0 \<le> a \<Longrightarrow> 0 < b \<Longrightarrow> go_quot a b = a div b"
  by (cases "a = 0") (auto simp: go_quot_def)

lemma wrap64_id [simp]: "in_int64 n \<Longrightarrow> wrap64 n = n"
  by (simp add: wrap64_def in_int64_def)

lemma wrap64_in_int64: "in_int64 (wrap64 n)"
  by (simp add: wrap64_def in_int64_def)

subsection \<open>Slices\<close>

definition slice_get :: "'a list \<Rightarrow> int \<Rightarrow> 'a go" where
  [go_defs]: "slice_get xs i = (if 0 \<le> i \<and> i < int (length xs) then Some (xs ! nat i) else None)"

definition slice_set :: "'a list \<Rightarrow> int \<Rightarrow> 'a \<Rightarrow> 'a list go" where
  [go_defs]: "slice_set xs i v = (if 0 \<le> i \<and> i < int (length xs) then Some (xs[nat i := v]) else None)"

definition make_slice :: "int \<Rightarrow> 'a \<Rightarrow> 'a list go" where
  [go_defs]: "make_slice n z = (if n < 0 then None else Some (replicate (nat n) z))"

text \<open>The slice expression \<open>xs[:n]\<close>.\<close>

definition slice_to :: "'a list \<Rightarrow> int \<Rightarrow> 'a list go" where
  [go_defs]: "slice_to xs n = (if 0 \<le> n \<and> n \<le> int (length xs) then Some (take (nat n) xs) else None)"

lemma slice_get_ok [simp]: "i < length xs \<Longrightarrow> slice_get xs (int i) = Some (xs ! i)"
  by (simp add: slice_get_def)

lemma slice_set_ok [simp]: "i < length xs \<Longrightarrow> slice_set xs (int i) v = Some (xs[i := v])"
  by (simp add: slice_set_def)

lemma make_slice_ok [simp]: "make_slice (int n) z = Some (replicate n z)"
  by (simp add: make_slice_def)

lemma slice_to_ok [simp]: "n \<le> length xs \<Longrightarrow> slice_to xs (int n) = Some (take n xs)"
  by (simp add: slice_to_def)

subsection \<open>Rotations, the abstract view of a ring buffer\<close>

lemma ring_index_inj:
  fixes h i j n :: nat
  assumes "i < n" "j < n" "(h + i) mod n = (h + j) mod n"
  shows "i = j"
proof -
  define r where "r = h mod n"
  have r: "r < n" using assms(1) by (simp add: r_def)
  have wrap: "(h + k) mod n = (if r + k < n then r + k else r + k - n)" if "k < n" for k
  proof -
    have "(h + k) mod n = (r + k) mod n" by (simp add: r_def mod_add_left_eq)
    then show ?thesis using r that by (simp add: mod_if)
  qed
  show ?thesis
    using assms r by (auto simp: wrap split: if_splits)
qed

lemma rotate_list_update:
  assumes "k < length xs"
  shows "rotate h (xs[(h + k) mod length xs := v]) = (rotate h xs)[k := v]"
proof (rule nth_equalityI)
  fix i assume "i < length (rotate h (xs[(h + k) mod length xs := v]))"
  then have i: "i < length xs" by simp
  have pos: "(h + i) mod length xs < length xs" using i by (intro mod_less_divisor) auto
  show "rotate h (xs[(h + k) mod length xs := v]) ! i = (rotate h xs)[k := v] ! i"
  proof (cases "i = k")
    case True
    with i pos show ?thesis by (simp add: nth_rotate)
  next
    case False
    then have "(h + k) mod length xs \<noteq> (h + i) mod length xs"
      using ring_index_inj [OF i assms] by metis
    with i pos False show ?thesis by (simp add: nth_rotate)
  qed
qed simp

lemma mset_rotate [simp]: "mset (rotate n xs) = mset xs"
proof (induction n)
  case (Suc n)
  have "mset (rotate1 ys) = mset ys" for ys :: "'a list" by (cases ys) auto
  with Suc show ?case by (simp add: rotate_Suc)
qed simp

lemma rotate_length_add [simp]: "rotate (k + length xs) xs = rotate k xs"
  by (metis mod_add_self2 rotate_conv_mod)

lemma rotate_Suc_cycle:
  assumes "rotate (Suc h) ys = xs" "ys \<noteq> []"
  shows "rotate h ys = last xs # butlast xs"
proof -
  have "xs = tl (rotate h ys) @ [hd (rotate h ys)]"
    using assms by (metis rotate_Suc rotate1_hd_tl rotate_is_Nil_conv)
  then show ?thesis using assms(2)
    by (metis butlast_snoc hd_Cons_tl last_snoc rotate_is_Nil_conv)
qed

subsection \<open>Subsequences\<close>

lemma subseq_imp_mset: "subseq xs ys \<Longrightarrow> mset xs \<subseteq># mset ys"
proof (induction rule: list_emb.induct)
  case (list_emb_Cons xs ys y)
  then show ?case
    by (metis add_mset_add_single mset.simps(2) mset_subset_eq_add_left subset_mset.trans)
qed auto

lemma subseq_list_all: "subseq xs ys \<Longrightarrow> list_all P ys \<Longrightarrow> list_all P xs"
  by (induction rule: list_emb.induct) auto

end
