(* ===== verification/Go_Host.thy ===== *)
theory Go_Host
  imports Prelude
begin

section \<open>What the process is given by its surroundings\<close>

text \<open>
  The inputs of the program that are data or code outside the repository, gathered in one
  record that the definitions which use them take as an argument: the Unicode tables behind
  \<open>unicode.ToLower\<close> and \<open>unicode.ToUpper\<close> (used on runes above ASCII only), the
  IANA time zone database, \<open>net/url\<close>'s parser for the host of an authority (whose rules for IP literals, ports and
  schemes change between releases), the result of converting an out-of-range \<open>float64\<close> to \<open>int64\<close> (which
  the Go specification leaves to the machine) and the user-agent parser of
  \<open>github.com/ua-parser/uap-go\<close>.
\<close>

record ua_agent =
  agent_Family :: string
  agent_Major :: string
  agent_Version :: string

record ua_os =
  os_Family :: string
  os_Version :: string

record ua_device =
  device_Family :: string
  device_Brand :: string
  device_Model :: string

record ua_client =
  client_UserAgent :: "ua_agent option"
  client_Os :: "ua_os option"
  client_Device :: "ua_device option"

record host =
  h_lowerRune :: "nat \<Rightarrow> nat"
  h_upperRune :: "nat \<Rightarrow> nat"
  h_loadLocation :: "string \<Rightarrow> bool"
  h_parseHost :: "string \<Rightarrow> string \<Rightarrow> string option"
  h_floatToInt64 :: "real \<Rightarrow> int"
  h_newParser :: bool
  h_parseUA :: "string \<Rightarrow> ua_client option"

end
