(* ===== verification/Go_Strings.thy ===== *)
theory Go_Strings
  imports Go_Host
begin

section \<open>Go's strings\<close>

text \<open>
  The functions of packages \<open>strings\<close>, \<open>unicode/utf8\<close> and \<open>net\<close> that the collector calls, on
  byte strings. \<open>TrimSpace\<close> removes the UTF-8 encodings of the white space characters of
  \<open>unicode.IsSpace\<close>; \<open>ToLower\<close> and \<open>ToUpper\<close> map ASCII strings byte by byte and all others rune
  by rune, as \<open>strings.Map\<close> does, with a byte that starts no valid encoding read as U+FFFD. The
  case of runes above ASCII is the host's Unicode table.
\<close>

definition byte :: "char \<Rightarrow> nat" where
  "byte c = of_char c"

definition chr :: "nat \<Rightarrow> char" where
  "chr n = char_of n"

definition is_ascii :: "char \<Rightarrow> bool" where
  "is_ascii c \<longleftrightarrow> byte c < 128"

subsection \<open>UTF-8\<close>

definition cont :: "char \<Rightarrow> bool" where
  "cont c \<longleftrightarrow> 128 \<le> byte c \<and> byte c \<le> 191"

text \<open>
  \<open>utf8.DecodeRune\<close>: the rune and the rest. The second byte's range excludes overlong
  encodings, surrogates and values above U+10FFFF.
\<close>

definition second_ok :: "nat \<Rightarrow> nat \<Rightarrow> bool" where
  "second_ok b0 b1 \<longleftrightarrow>
     (if b0 = 224 then 160 \<le> b1 \<and> b1 \<le> 191 else if b0 = 237 then 128 \<le> b1 \<and> b1 \<le> 159
      else if b0 = 240 then 144 \<le> b1 \<and> b1 \<le> 191 else if b0 = 244 then 128 \<le> b1 \<and> b1 \<le> 143
      else 128 \<le> b1 \<and> b1 \<le> 191)"

definition decode_rune :: "char \<Rightarrow> string \<Rightarrow> nat \<times> string" where
  "decode_rune c s =
     (let b0 = byte c in
      if b0 < 128 then (b0, s)
      else if 194 \<le> b0 \<and> b0 \<le> 223 then
        (case s of c1 # s1 \<Rightarrow>
             if cont c1 then ((b0 - 192) * 64 + (byte c1 - 128), s1) else (65533, s)
         | _ \<Rightarrow> (65533, s))
      else if 224 \<le> b0 \<and> b0 \<le> 239 then
        (case s of c1 # c2 # s2 \<Rightarrow>
             if second_ok b0 (byte c1) \<and> cont c2
             then ((b0 - 224) * 4096 + (byte c1 - 128) * 64 + (byte c2 - 128), s2) else (65533, s)
         | _ \<Rightarrow> (65533, s))
      else if 240 \<le> b0 \<and> b0 \<le> 244 then
        (case s of c1 # c2 # c3 # s3 \<Rightarrow>
             if second_ok b0 (byte c1) \<and> cont c2 \<and> cont c3
             then ((b0 - 240) * 262144 + (byte c1 - 128) * 4096 + (byte c2 - 128) * 64
                   + (byte c3 - 128), s3) else (65533, s)
         | _ \<Rightarrow> (65533, s))
      else (65533, s))"

lemma decode_rune_length: "length (snd (decode_rune c s)) \<le> length s"
  by (auto simp: decode_rune_def Let_def split: list.splits)

text \<open>The runes that \<open>range\<close> over a string yields.\<close>

function runes :: "string \<Rightarrow> nat list" where
  "runes [] = []"
| "runes (c # s) = (let (r, rest) = decode_rune c s in r # runes rest)"
  by pat_completeness auto
termination
  by (relation "measure length") (use decode_rune_length in \<open>auto simp: less_Suc_eq_le\<close>, metis snd_conv)

text \<open>\<open>utf8.AppendRune\<close>: surrogates and values above U+10FFFF are written as U+FFFD.\<close>

definition encode_rune :: "nat \<Rightarrow> string" where
  "encode_rune r0 =
     (let r = (if r0 > 1114111 \<or> 55296 \<le> r0 \<and> r0 \<le> 57343 then 65533 else r0) in
      if r < 128 then [chr r]
      else if r < 2048 then [chr (192 + r div 64), chr (128 + r mod 64)]
      else if r < 65536 then [chr (224 + r div 4096), chr (128 + r div 64 mod 64), chr (128 + r mod 64)]
      else [chr (240 + r div 262144), chr (128 + r div 4096 mod 64), chr (128 + r div 64 mod 64),
            chr (128 + r mod 64)])"

definition lower_ascii :: "char \<Rightarrow> char" where
  "lower_ascii c = (if 65 \<le> byte c \<and> byte c \<le> 90 then chr (byte c + 32) else c)"

definition upper_ascii :: "char \<Rightarrow> char" where
  "upper_ascii c = (if 97 \<le> byte c \<and> byte c \<le> 122 then chr (byte c - 32) else c)"

definition map_runes :: "(nat \<Rightarrow> nat) \<Rightarrow> string \<Rightarrow> string" where
  "map_runes f s = concat (map (\<lambda>r. encode_rune (f r)) (runes s))"

definition ToLower :: "host \<Rightarrow> string \<Rightarrow> string" where
  "ToLower H s =
     (if list_all is_ascii s then map lower_ascii s
      else map_runes (\<lambda>r. if r < 128 then byte (lower_ascii (chr r)) else h_lowerRune H r) s)"

definition ToUpper :: "host \<Rightarrow> string \<Rightarrow> string" where
  "ToUpper H s =
     (if list_all is_ascii s then map upper_ascii s
      else map_runes (\<lambda>r. if r < 128 then byte (upper_ascii (chr r)) else h_upperRune H r) s)"

subsection \<open>White space\<close>

definition ascii_space :: "char \<Rightarrow> bool" where
  "ascii_space c \<longleftrightarrow> 9 \<le> byte c \<and> byte c \<le> 13 \<or> byte c = 32"

definition wide_space2 :: "char \<Rightarrow> char \<Rightarrow> bool" where
  "wide_space2 a b \<longleftrightarrow> byte a = 194 \<and> (byte b = 133 \<or> byte b = 160)"

definition wide_space3 :: "char \<Rightarrow> char \<Rightarrow> char \<Rightarrow> bool" where
  "wide_space3 a b c \<longleftrightarrow>
     byte a = 225 \<and> byte b = 154 \<and> byte c = 128 \<or>
     byte a = 226 \<and> byte b = 128 \<and>
       (128 \<le> byte c \<and> byte c \<le> 138 \<or> byte c = 168 \<or> byte c = 169 \<or> byte c = 175) \<or>
     byte a = 226 \<and> byte b = 129 \<and> byte c = 159 \<or>
     byte a = 227 \<and> byte b = 128 \<and> byte c = 128"

text \<open>How many bytes the white space character at the front of a string takes, 0 for none.\<close>

fun space_width :: "string \<Rightarrow> nat" where
  "space_width [] = 0"
| "space_width (a # s) =
     (if ascii_space a then 1
      else case s of
          [] \<Rightarrow> 0
        | b # s1 \<Rightarrow> if wide_space2 a b then 2
            else (case s1 of [] \<Rightarrow> 0 | c # s2 \<Rightarrow> if wide_space3 a b c then 3 else 0))"

text \<open>The same at the end, looking at the reversed string.\<close>

fun space_width_rev :: "string \<Rightarrow> nat" where
  "space_width_rev [] = 0"
| "space_width_rev (a # s) =
     (if ascii_space a then 1
      else case s of
          [] \<Rightarrow> 0
        | b # s1 \<Rightarrow> if wide_space2 b a then 2
            else (case s1 of [] \<Rightarrow> 0 | c # s2 \<Rightarrow> if wide_space3 c b a then 3 else 0))"

lemma space_width_Nil: "s = [] \<Longrightarrow> space_width s = 0" "s = [] \<Longrightarrow> space_width_rev s = 0"
  by simp_all

function trim_left :: "string \<Rightarrow> string" where
  "trim_left s = (if space_width s = 0 then s else trim_left (drop (space_width s) s))"
  by pat_completeness auto
termination
  by (relation "measure length") (use space_width_Nil(1) in \<open>auto intro!: diff_less\<close>)

function trim_rev :: "string \<Rightarrow> string" where
  "trim_rev s = (if space_width_rev s = 0 then s else trim_rev (drop (space_width_rev s) s))"
  by pat_completeness auto
termination
  by (relation "measure length") (use space_width_Nil(2) in \<open>auto intro!: diff_less\<close>)

declare trim_left.simps [simp del] trim_rev.simps [simp del]

definition TrimSpace :: "string \<Rightarrow> string" where
  "TrimSpace s = rev (trim_rev (rev (trim_left s)))"

subsection \<open>Searching and splitting\<close>

text \<open>\<open>strings.Index\<close> for a separator of one byte.\<close>

fun index_of :: "char \<Rightarrow> string \<Rightarrow> nat option" where
  "index_of c [] = None"
| "index_of c (d # s) = (if c = d then Some 0 else map_option Suc (index_of c s))"

definition before :: "char \<Rightarrow> string \<Rightarrow> string" where
  "before c s = (case index_of c s of Some i \<Rightarrow> take i s | None \<Rightarrow> s)"

text \<open>\<open>strings.Split\<close> for a separator of one byte: never empty.\<close>

fun split_on :: "char \<Rightarrow> string \<Rightarrow> string list" where
  "split_on c [] = [[]]"
| "split_on c (d # s) =
     (if c = d then [] # split_on c s
      else (case split_on c s of [] \<Rightarrow> [[d]] | p # ps \<Rightarrow> (d # p) # ps))"

definition join_with :: "char \<Rightarrow> string list \<Rightarrow> string" where
  "join_with c ps = (case ps of [] \<Rightarrow> [] | q # qs \<Rightarrow> q @ concat (map (\<lambda>p. c # p) qs))"

fun contains :: "string \<Rightarrow> string \<Rightarrow> bool" where
  "contains sub [] = (sub = [])"
| "contains sub (c # s) = (prefix sub (c # s) \<or> contains sub s)"

definition TrimPrefix :: "string \<Rightarrow> string \<Rightarrow> string" where
  "TrimPrefix s p = (if prefix p s then drop (length p) s else s)"

definition last_index_of :: "char \<Rightarrow> string \<Rightarrow> nat option" where
  "last_index_of c s = map_option (\<lambda>i. length s - Suc i) (index_of c (rev s))"

text \<open>\<open>net.SplitHostPort\<close>: the host and the port, or an error.\<close>

definition SplitHostPort :: "string \<Rightarrow> (string \<times> string) option" where
  "SplitHostPort hp =
     (case last_index_of CHR '':'' hp of
        None \<Rightarrow> None
      | Some i \<Rightarrow>
          if prefix ''['' hp then
            (case index_of CHR '']'' hp of
               None \<Rightarrow> None
             | Some e \<Rightarrow>
                 if e + 1 \<noteq> i then None
                 else if CHR ''['' \<in> set (drop 1 hp) \<or> CHR '']'' \<in> set (drop (e + 1) hp) then None
                 else Some (drop 1 (take e hp), drop (i + 1) hp))
          else if CHR '':'' \<in> set (take i hp) then None
          else if CHR ''['' \<in> set hp \<or> CHR '']'' \<in> set hp then None
          else Some (take i hp, drop (i + 1) hp))"

subsection \<open>Facts on trimming\<close>

lemma trim_left_suffix: "suffix (trim_left s) s"
proof (induction s rule: trim_left.induct)
  case (1 s)
  show ?case
  proof (cases "space_width s = 0")
    case True
    then show ?thesis by (simp add: trim_left.simps [of s])
  next
    case False
    with 1 show ?thesis
      by (simp add: trim_left.simps [of s]) (meson suffix_drop suffix_order.trans)
  qed
qed

lemma trim_rev_suffix: "suffix (trim_rev s) s"
proof (induction s rule: trim_rev.induct)
  case (1 s)
  show ?case
  proof (cases "space_width_rev s = 0")
    case True
    then show ?thesis by (simp add: trim_rev.simps [of s])
  next
    case False
    with 1 show ?thesis
      by (simp add: trim_rev.simps [of s]) (meson suffix_drop suffix_order.trans)
  qed
qed

lemma trim_left_width: "space_width (trim_left s) = 0"
proof (induction s rule: trim_left.induct)
  case (1 s)
  then show ?case by (cases "space_width s = 0") (simp_all add: trim_left.simps [of s])
qed

lemma trim_rev_width: "space_width_rev (trim_rev s) = 0"
proof (induction s rule: trim_rev.induct)
  case (1 s)
  then show ?case by (cases "space_width_rev s = 0") (simp_all add: trim_rev.simps [of s])
qed

lemma space_width_takes:
  assumes "is_ascii c" "\<not> ascii_space c"
  shows "c \<notin> set (take (space_width s) s)" "c \<notin> set (take (space_width_rev s) s)"
proof -
  have "byte c < 128" using assms(1) by (simp add: is_ascii_def)
  then have w2: "c \<noteq> a \<and> c \<noteq> b" if "wide_space2 a b" for a b
    using that by (auto simp: wide_space2_def)
  have w3: "c \<noteq> a \<and> c \<noteq> b \<and> c \<noteq> d" if "wide_space3 a b d" for a b d
    using that \<open>byte c < 128\<close> by (auto simp: wide_space3_def)
  have w1: "c \<noteq> a" if "ascii_space a" for a using that assms(2) by auto
  show "c \<notin> set (take (space_width s) s)"
    by (cases s; simp; cases "tl s"; simp; cases "tl (tl s)"; simp add: numeral_3_eq_3; blast dest: w1 w2 w3)
  show "c \<notin> set (take (space_width_rev s) s)"
    by (cases s; simp; cases "tl s"; simp; cases "tl (tl s)"; simp add: numeral_3_eq_3; blast dest: w1 w2 w3)
qed

lemma trim_left_keeps:
  assumes "is_ascii c" "\<not> ascii_space c" "c \<in> set s"
  shows "c \<in> set (trim_left s)"
  using assms(3)
proof (induction s rule: trim_left.induct)
  case (1 s)
  have "c \<in> set (drop (space_width s) s)"
    using 1(2) space_width_takes(1) [OF assms(1,2), of s]
    by (metis Un_iff append_take_drop_id set_append)
  with 1 show ?case by (cases "space_width s = 0") (simp_all add: trim_left.simps [of s])
qed

lemma trim_rev_keeps:
  assumes "is_ascii c" "\<not> ascii_space c" "c \<in> set s"
  shows "c \<in> set (trim_rev s)"
  using assms(3)
proof (induction s rule: trim_rev.induct)
  case (1 s)
  have "c \<in> set (drop (space_width_rev s) s)"
    using 1(2) space_width_takes(2) [OF assms(1,2), of s]
    by (metis Un_iff append_take_drop_id set_append)
  with 1 show ?case by (cases "space_width_rev s = 0") (simp_all add: trim_rev.simps [of s])
qed

text \<open>Trimming drops no printable ASCII character.\<close>

lemma TrimSpace_keeps: "is_ascii c \<Longrightarrow> \<not> ascii_space c \<Longrightarrow> c \<in> set s \<Longrightarrow> c \<in> set (TrimSpace s)"
  by (simp add: TrimSpace_def trim_left_keeps trim_rev_keeps)

lemma TrimSpace_prefix: "prefix (TrimSpace s) (trim_left s)"
  using trim_rev_suffix [of "rev (trim_left s)"] by (simp add: TrimSpace_def suffix_to_prefix)

lemma TrimSpace_sublist: "sublist (TrimSpace s) s"
  using TrimSpace_prefix [of s] trim_left_suffix [of s]
  by (meson prefix_imp_sublist suffix_imp_sublist sublist_order.order.trans)

lemma set_TrimSpace: "set (TrimSpace s) \<subseteq> set s"
  using TrimSpace_sublist by (rule set_mono_sublist)

lemma length_TrimSpace: "length (TrimSpace s) \<le> length s"
  using TrimSpace_sublist by (rule sublist_length_le)

lemma space_width_prefix: "prefix p s \<Longrightarrow> space_width s = 0 \<Longrightarrow> space_width p = 0"
  by (cases p rule: space_width.cases)
    (auto simp: prefix_def split: if_splits list.splits)

lemma space_width_TrimSpace: "space_width (TrimSpace s) = 0"
  using TrimSpace_prefix trim_left_width by (rule space_width_prefix)

lemma TrimSpace_idem [simp]: "TrimSpace (TrimSpace s) = TrimSpace s"
proof -
  have "space_width_rev (rev (TrimSpace s)) = 0" by (simp add: TrimSpace_def trim_rev_width)
  moreover have "trim_left (TrimSpace s) = TrimSpace s"
    by (simp add: trim_left.simps [of "TrimSpace s"] space_width_TrimSpace)
  ultimately show ?thesis
    by (simp add: TrimSpace_def [of "TrimSpace s"] trim_rev.simps [of "rev (TrimSpace s)"])
qed

lemma TrimSpace_id: "space_width s = 0 \<Longrightarrow> space_width_rev (rev s) = 0 \<Longrightarrow> TrimSpace s = s"
  by (simp add: TrimSpace_def trim_left.simps [of s] trim_rev.simps [of "rev s"])

lemma TrimSpace_Nil [simp]: "TrimSpace [] = []"
  by (simp add: TrimSpace_id)

text \<open>A trimmed string neither starts nor ends with ASCII white space.\<close>

lemma TrimSpace_ends:
  assumes "TrimSpace s \<noteq> []"
  shows "\<not> ascii_space (hd (TrimSpace s))" "\<not> ascii_space (last (TrimSpace s))"
proof -
  show "\<not> ascii_space (hd (TrimSpace s))"
    using assms space_width_TrimSpace [of s] by (cases "TrimSpace s") (auto split: if_splits)
  have "space_width_rev (rev (TrimSpace s)) = 0" by (simp add: TrimSpace_def trim_rev_width)
  with assms show "\<not> ascii_space (last (TrimSpace s))"
    by (cases "TrimSpace s" rule: rev_cases) (auto split: if_splits)
qed

subsection \<open>Facts on searching and splitting\<close>

lemma index_of_None [simp]: "index_of c s = None \<longleftrightarrow> c \<notin> set s"
  by (induction s) auto

lemma index_of_Some: "index_of c s = Some i \<Longrightarrow> i < length s \<and> s ! i = c \<and> c \<notin> set (take i s)"
  by (induction s arbitrary: i) (auto split: if_splits)

lemma before_notin: "c \<notin> set (before c s)"
  using index_of_Some [of c s] by (auto simp: before_def split: option.splits)

lemma before_id: "c \<notin> set s \<Longrightarrow> before c s = s"
  by (simp add: before_def flip: index_of_None)

lemma before_prefix: "prefix (before c s) s"
  by (auto simp: before_def take_is_prefix split: option.splits)

lemma set_before: "set (before c s) \<subseteq> set s"
  using before_prefix by (rule set_mono_prefix)

lemma split_on_neq_Nil [simp]: "split_on c s \<noteq> []"
  by (cases s) (auto split: list.splits)

lemma join_with_Cons [simp]:
  "join_with c [p] = p" "join_with c (p # q # ps) = p @ c # join_with c (q # ps)"
  by (simp_all add: join_with_def)

lemma join_split: "join_with c (split_on c s) = s"
proof (induction s)
  case Nil
  then show ?case by simp
next
  case (Cons d s)
  obtain p ps where ps: "split_on c s = p # ps" by (cases "split_on c s") auto
  with Cons show ?case by (cases ps) auto
qed

lemma split_on_parts: "p \<in> set (split_on c s) \<Longrightarrow> c \<notin> set p"
proof (induction s arbitrary: p)
  case (Cons d s)
  obtain q ps where "split_on c s = q # ps" by (cases "split_on c s") auto
  with Cons show ?case by (auto split: if_splits)
qed simp

lemma split_join:
  assumes "ps \<noteq> []" "\<forall>p\<in>set ps. c \<notin> set p"
  shows "split_on c (join_with c ps) = ps"
  using assms
proof (induction ps)
  case (Cons p ps)
  have one: "c \<notin> set q \<Longrightarrow> split_on c q = [q]" for q by (induction q) auto
  have two: "c \<notin> set q \<Longrightarrow> split_on c (q @ c # r) = q # split_on c r" for q r
    by (induction q) auto
  show ?case
  proof (cases ps)
    case Nil
    with Cons one show ?thesis by simp
  next
    case (Cons q qs)
    with Cons.prems Cons.IH two show ?thesis by simp
  qed
qed simp

end
