(* ===== verification/Url.thy ===== *)
theory Url
  imports Go_Strings
begin

section \<open>URLs\<close>

text \<open>
  What the program uses of package \<open>net/url\<close>: \<open>Parse\<close>, \<open>EscapedPath\<close> and \<open>String\<close>, with the user
  information, the query and the fragment. The host inside the authority is parsed by
  \<open>h_parseHost\<close>, which is given the scheme and the text behind the user information; \<open>None\<close> is its error.
\<close>

record userinfo =
  ui_username :: string
  ui_password :: "string option"

record url =
  u_Scheme :: string
  u_Opaque :: string
  u_User :: "userinfo option"
  u_Host :: string
  u_Path :: string
  u_RawPath :: string
  u_OmitHost :: bool
  u_ForceQuery :: bool
  u_RawQuery :: string
  u_Fragment :: string
  u_RawFragment :: string

definition empty_url :: url where
  "empty_url = \<lparr>u_Scheme = [], u_Opaque = [], u_User = None, u_Host = [], u_Path = [],
     u_RawPath = [], u_OmitHost = False, u_ForceQuery = False, u_RawQuery = [], u_Fragment = [],
     u_RawFragment = []\<rparr>"

definition after_char :: "char \<Rightarrow> string \<Rightarrow> string" where
  "after_char c s = (case index_of c s of Some i \<Rightarrow> drop (Suc i) s | None \<Rightarrow> [])"

subsection \<open>Percent encoding\<close>

definition is_alpha :: "char \<Rightarrow> bool" where
  "is_alpha c \<longleftrightarrow> 97 \<le> byte c \<and> byte c \<le> 122 \<or> 65 \<le> byte c \<and> byte c \<le> 90"

definition is_num :: "char \<Rightarrow> bool" where
  "is_num c \<longleftrightarrow> 48 \<le> byte c \<and> byte c \<le> 57"

definition hex_value :: "char \<Rightarrow> nat option" where
  "hex_value c =
     (if is_num c then Some (byte c - 48)
      else if 97 \<le> byte c \<and> byte c \<le> 102 then Some (byte c - 87)
      else if 65 \<le> byte c \<and> byte c \<le> 70 then Some (byte c - 55)
      else None)"

definition upper_hex :: "nat \<Rightarrow> char" where
  "upper_hex n = (if n < 10 then chr (48 + n) else chr (55 + n))"

text \<open>\<open>unescape\<close> in the modes of a path, a fragment and user information, where a plus sign is itself.\<close>

fun unescape :: "string \<Rightarrow> string option" where
  "unescape [] = Some []"
| "unescape (c # s) =
     (if c = CHR ''%'' then
        (case s of
           a # b # rest \<Rightarrow>
             (case (hex_value a, hex_value b) of
                (Some m, Some n) \<Rightarrow> map_option (Cons (chr (16 * m + n))) (unescape rest)
              | _ \<Rightarrow> None)
         | _ \<Rightarrow> None)
      else map_option (Cons c) (unescape s))"

definition unreserved :: "char \<Rightarrow> bool" where
  "unreserved c \<longleftrightarrow> is_alpha c \<or> is_num c \<or> c \<in> set ''-_.~''"

text \<open>\<open>!shouldEscape(c, mode)\<close> for the modes of a path, a host, a fragment and user information\<close>

definition path_plain :: "char \<Rightarrow> bool" where
  "path_plain c \<longleftrightarrow> unreserved c \<or> c \<in> set ''$&+,/:;=@''"

definition host_plain :: "char \<Rightarrow> bool" where
  "host_plain c \<longleftrightarrow> unreserved c \<or> c \<in> set ''!$&()*+,;=:[]<>'' \<or> c = CHR 0x27 \<or> c = CHR 0x22"

definition fragment_plain :: "char \<Rightarrow> bool" where
  "fragment_plain c \<longleftrightarrow> unreserved c \<or> c \<in> set ''$&+,/:;=?@!()*''"

definition user_plain :: "char \<Rightarrow> bool" where
  "user_plain c \<longleftrightarrow> unreserved c \<or> c \<in> set ''$&+,;=''"

definition escape :: "(char \<Rightarrow> bool) \<Rightarrow> string \<Rightarrow> string" where
  "escape plain s = concat (map (\<lambda>c. if plain c then [c]
     else [CHR ''%'', upper_hex (byte c div 16), upper_hex (byte c mod 16)]) s)"

definition validEncoded :: "(char \<Rightarrow> bool) \<Rightarrow> string \<Rightarrow> bool" where
  "validEncoded plain s = list_all (\<lambda>c. plain c \<or> c \<in> set ''!$&()*+,;=:@[]%'' \<or> c = CHR 0x27) s"

definition EscapedPath :: "url \<Rightarrow> string" where
  "EscapedPath u =
     (if u_RawPath u \<noteq> [] \<and> validEncoded path_plain (u_RawPath u) \<and> unescape (u_RawPath u) = Some (u_Path u)
      then u_RawPath u
      else if u_Path u = ''*'' then ''*''
      else escape path_plain (u_Path u))"

definition setPath :: "string \<Rightarrow> url \<Rightarrow> url option" where
  "setPath p u = map_option (\<lambda>path. u\<lparr>u_Path := path,
     u_RawPath := (if p = escape path_plain path then [] else p)\<rparr>) (unescape p)"

definition EscapedFragment :: "url \<Rightarrow> string" where
  "EscapedFragment u =
     (if u_RawFragment u \<noteq> [] \<and> validEncoded fragment_plain (u_RawFragment u) \<and>
        unescape (u_RawFragment u) = Some (u_Fragment u)
      then u_RawFragment u
      else escape fragment_plain (u_Fragment u))"

definition setFragment :: "string \<Rightarrow> url \<Rightarrow> url option" where
  "setFragment f u = map_option (\<lambda>frag. u\<lparr>u_Fragment := frag,
     u_RawFragment := (if f = escape fragment_plain frag then [] else f)\<rparr>) (unescape f)"

definition userinfo_String :: "userinfo \<Rightarrow> string" where
  "userinfo_String ui =
     (case ui_password ui of
        None \<Rightarrow> escape user_plain (ui_username ui)
      | Some password \<Rightarrow> escape user_plain (ui_username ui) @ '':'' @ escape user_plain password)"

subsection \<open>Parse\<close>

definition validUserinfo :: "string \<Rightarrow> bool" where
  "validUserinfo s = list_all (\<lambda>c. unreserved c \<or> c \<in> set '':!$&()*+,;=%@'' \<or> c = CHR 0x27) s"

definition parse_userinfo :: "string \<Rightarrow> userinfo option" where
  "parse_userinfo s =
     (if \<not> validUserinfo s then None
      else if CHR '':'' \<notin> set s then map_option (\<lambda>name. \<lparr>ui_username = name, ui_password = None\<rparr>) (unescape s)
      else (case (unescape (before CHR '':'' s), unescape (after_char CHR '':'' s)) of
              (Some name, Some password) \<Rightarrow> Some \<lparr>ui_username = name, ui_password = Some password\<rparr>
            | _ \<Rightarrow> None))"

text \<open>The authority: what is before its last at sign is user information.\<close>

definition parseAuthority :: "host \<Rightarrow> string \<Rightarrow> string \<Rightarrow> (userinfo option \<times> string) option" where
  "parseAuthority H scheme authority =
     (case last_index_of CHR ''@'' authority of
        None \<Rightarrow> map_option (Pair None) (h_parseHost H scheme authority)
      | Some i \<Rightarrow>
          (case (h_parseHost H scheme (drop (Suc i) authority), parse_userinfo (take i authority)) of
             (Some hst, Some ui) \<Rightarrow> Some (Some ui, hst)
           | _ \<Rightarrow> None))"

text \<open>The loop of \<open>getScheme\<close> at index \<open>i\<close>; \<open>None\<close> is its error, a scheme that is missing.\<close>

fun scheme_loop :: "string \<Rightarrow> nat \<Rightarrow> string \<Rightarrow> (string \<times> string) option" where
  "scheme_loop raw i [] = Some ([], raw)"
| "scheme_loop raw i (c # s) =
     (if is_alpha c then scheme_loop raw (Suc i) s
      else if is_num c \<or> c \<in> set ''+-.'' then
        (if i = 0 then Some ([], raw) else scheme_loop raw (Suc i) s)
      else if c = CHR '':'' then
        (if i = 0 then None else Some (take i raw, drop (Suc i) raw))
      else Some ([], raw))"

definition getScheme :: "string \<Rightarrow> (string \<times> string) option" where
  "getScheme raw = scheme_loop raw 0 raw"

definition is_ctl :: "char \<Rightarrow> bool" where
  "is_ctl c \<longleftrightarrow> byte c < 32 \<or> byte c = 127"

text \<open>The query: whether the URL only ends in a question mark, its text, and what is before it.\<close>

definition cut_query :: "string \<Rightarrow> bool \<times> string \<times> string" where
  "cut_query rest =
     (if rest \<noteq> [] \<and> last rest = CHR ''?'' \<and> CHR ''?'' \<notin> set (butlast rest)
      then (True, [], butlast rest)
      else (False, after_char CHR ''?'' rest, before CHR ''?'' rest))"

text \<open>\<open>parse\<close> behind the fragment, with \<open>viaRequest\<close> false.\<close>

definition parse_rest :: "host \<Rightarrow> string \<Rightarrow> url option" where
  "parse_rest H raw =
     (if list_ex is_ctl raw then None
      else if raw = ''*'' then Some (empty_url\<lparr>u_Path := ''*''\<rparr>)
      else (case getScheme raw of
        None \<Rightarrow> None
      | Some (scheme, rest0) \<Rightarrow>
          let (force, query, rest) = cut_query rest0;
              u = empty_url\<lparr>u_Scheme := ToLower H scheme, u_ForceQuery := force, u_RawQuery := query\<rparr> in
          if \<not> prefix ''/'' rest \<and> scheme \<noteq> [] then Some (u\<lparr>u_Opaque := rest\<rparr>)
          else if \<not> prefix ''/'' rest \<and> CHR '':'' \<in> set (before CHR ''/'' rest) then None
          else if (scheme \<noteq> [] \<or> \<not> prefix ''///'' rest) \<and> prefix ''//'' rest then
            (let authority0 = drop 2 rest; authority = before CHR ''/'' authority0 in
             case parseAuthority H (u_Scheme u) authority of
               None \<Rightarrow> None
             | Some (user, hst) \<Rightarrow>
                 setPath (drop (length authority) authority0) (u\<lparr>u_User := user, u_Host := hst\<rparr>))
          else setPath rest (u\<lparr>u_OmitHost := scheme \<noteq> [] \<and> prefix ''/'' rest\<rparr>)))"

definition url_Parse :: "host \<Rightarrow> string \<Rightarrow> url option" where
  "url_Parse H raw =
     (case parse_rest H (before CHR ''#'' raw) of
        None \<Rightarrow> None
      | Some u \<Rightarrow>
          let frag = after_char CHR ''#'' raw in
          if frag = [] then Some u else setFragment frag u)"

subsection \<open>String\<close>

definition authority_string :: "url \<Rightarrow> string" where
  "authority_string u =
     (if (u_Scheme u \<noteq> [] \<or> u_Host u \<noteq> [] \<or> u_User u \<noteq> None) \<and>
        \<not> (u_OmitHost u \<and> u_Host u = [] \<and> u_User u = None)
      then (if u_Host u \<noteq> [] \<or> u_Path u \<noteq> [] \<or> u_User u \<noteq> None then ''//'' else []) @
        (case u_User u of None \<Rightarrow> [] | Some ui \<Rightarrow> userinfo_String ui @ ''@'') @ escape host_plain (u_Host u)
      else [])"

text \<open>What is printed before the path, the path, and what is printed behind it.\<close>

definition scheme_string :: "url \<Rightarrow> string" where
  "scheme_string u = (if u_Scheme u \<noteq> [] then u_Scheme u @ '':'' else [])"

definition path_string :: "url \<Rightarrow> string" where
  "path_string u =
     (let path = EscapedPath u;
          slash = (if path \<noteq> [] \<and> hd path \<noteq> CHR ''/'' \<and> u_Host u \<noteq> [] then ''/'' else []);
          dot = (if scheme_string u @ authority_string u @ slash = [] \<and> CHR '':'' \<in> set (before CHR ''/'' path)
                 then ''./'' else [])
      in slash @ dot @ path)"

definition query_string :: "url \<Rightarrow> string" where
  "query_string u = (if u_ForceQuery u \<or> u_RawQuery u \<noteq> [] then ''?'' @ u_RawQuery u else [])"

definition fragment_string :: "url \<Rightarrow> string" where
  "fragment_string u = (if u_Fragment u \<noteq> [] then ''#'' @ EscapedFragment u else [])"

definition url_String :: "url \<Rightarrow> string" where
  "url_String u = scheme_string u @
     (if u_Opaque u \<noteq> [] then u_Opaque u else authority_string u @ path_string u) @
     query_string u @ fragment_string u"

subsection \<open>What a URL prints\<close>

text \<open>Characters that the encoding of a path and of a host never leaves as they are.\<close>

lemma upper_hex_alnum: "n < 16 \<Longrightarrow> is_alpha (upper_hex n) \<or> is_num (upper_hex n)"
  by (auto simp: upper_hex_def is_alpha_def is_num_def byte_def chr_def take_bit_eq_mod)

lemma byte_less: "byte c < 256"
  by (simp add: byte_def)

lemma set_escape:
  assumes "c \<in> set (escape plain s)"
  shows "plain c \<or> c = CHR ''%'' \<or> is_alpha c \<or> is_num c"
proof -
  have "upper_hex (byte d div 16) = c \<or> upper_hex (byte d mod 16) = c \<Longrightarrow> is_alpha c \<or> is_num c" for d
    using upper_hex_alnum [of "byte d div 16"] upper_hex_alnum [of "byte d mod 16"] byte_less [of d] by auto
  with assms show ?thesis by (force simp: escape_def split: if_splits)
qed

definition delimiter :: "char \<Rightarrow> bool" where
  "delimiter c \<longleftrightarrow> c = CHR ''?'' \<or> c = CHR ''#''"

lemma delimiter_not_plain:
  assumes "delimiter c"
  shows "\<not> path_plain c" "\<not> host_plain c" "\<not> is_alpha c" "\<not> is_num c" "c \<noteq> CHR ''%''"
    "c \<notin> set ''!$&()*+,;=:@[]%''" "c \<noteq> CHR 0x27"
  using assms
  by (auto simp: delimiter_def path_plain_def host_plain_def unreserved_def is_alpha_def is_num_def byte_def)

lemma escape_clean:
  assumes "delimiter c" "\<not> plain c"
  shows "c \<notin> set (escape plain s)"
  using set_escape [of c plain s] assms delimiter_not_plain(3-5) [of c] by blast

lemma validEncoded_clean: "delimiter c \<Longrightarrow> validEncoded path_plain s \<Longrightarrow> c \<notin> set s"
  unfolding validEncoded_def list_all_iff using delimiter_not_plain(1,6,7) by blast

lemma EscapedPath_clean:
  assumes "delimiter c"
  shows "c \<notin> set (EscapedPath u)"
proof -
  have "c \<notin> set ''*''" using assms by (auto simp: delimiter_def)
  then show ?thesis
    using escape_clean [OF assms, of path_plain] validEncoded_clean [OF assms] delimiter_not_plain(1) [OF assms]
    by (simp add: EscapedPath_def)
qed

text \<open>Without user information the authority is the escaped host, which has no at sign.\<close>

lemma authority_plain_host:
  assumes "u_User u = None" "c \<notin> set ''//''" "\<not> host_plain c" "c \<noteq> CHR ''%''" "\<not> is_alpha c" "\<not> is_num c"
  shows "c \<notin> set (authority_string u)"
  using assms set_escape [of c host_plain "u_Host u"] by (simp add: authority_string_def) blast

lemma authority_clean:
  assumes "delimiter c" "u_User u = None"
  shows "c \<notin> set (authority_string u)"
proof -
  have "c \<notin> set ''//''" using assms by (auto simp: delimiter_def)
  with assms show ?thesis using delimiter_not_plain [OF assms(1)] by (intro authority_plain_host)
qed

lemma authority_no_at: "u_User u = None \<Longrightarrow> CHR ''@'' \<notin> set (authority_string u)"
  by (rule authority_plain_host)
    (simp_all add: host_plain_def unreserved_def is_alpha_def is_num_def byte_def)

text \<open>A URL whose user information, query and fragment have been removed.\<close>

definition public :: "url \<Rightarrow> bool" where
  "public u \<longleftrightarrow> u_User u = None \<and> \<not> u_ForceQuery u \<and> u_RawQuery u = [] \<and> u_Fragment u = []"

lemma url_String_public:
  "public u \<Longrightarrow> url_String u =
     scheme_string u @ (if u_Opaque u \<noteq> [] then u_Opaque u else authority_string u @ path_string u)"
  by (simp add: public_def url_String_def query_string_def fragment_string_def)

lemma url_String_clean:
  assumes "public u" "delimiter c" "c \<notin> set (u_Scheme u)" "c \<notin> set (u_Opaque u)"
  shows "c \<notin> set (url_String u)"
proof -
  have "c \<notin> set '':''" "c \<notin> set ''/''" "c \<notin> set ''./''" using assms(2) by (auto simp: delimiter_def)
  moreover have "c \<notin> set (authority_string u)"
    using assms(1) by (intro authority_clean [OF assms(2)]) (simp add: public_def)
  ultimately show ?thesis
    using assms EscapedPath_clean [of c u] by (simp add: url_String_public scheme_string_def path_string_def Let_def)
qed

lemma scheme_loop_chars:
  assumes "scheme_loop raw i s = Some (scheme, rest)" "s = drop i raw" 
    "list_all (\<lambda>c. is_alpha c \<or> is_num c \<or> c \<in> set ''+-.'') (take i raw)"
  shows "list_all (\<lambda>c. is_alpha c \<or> is_num c \<or> c \<in> set ''+-.'') scheme \<and> set rest \<subseteq> set raw"
  using assms
proof (induction raw i s rule: scheme_loop.induct)
  case (1 raw i)
  then show ?case by auto
next
  case (2 raw i c s)
  have i: "i < length raw" "raw ! i = c" "s = drop (Suc i) raw"
    using 2(4) by (metis drop_eq_Nil linorder_not_less list.distinct(1), metis drop_eq_Nil hd_drop_conv_nth linorder_not_less list.distinct(1) list.sel(1), metis list.sel(3) tl_drop drop_Suc)
  have tk: "take (Suc i) raw = take i raw @ [c]" using i by (simp add: take_Suc_conv_app_nth)
  show ?case
    using 2(3,5) 2(1,2) i tk set_drop_subset [of "Suc i" raw]
    by (auto simp del: set_drop_subset split: if_splits)
qed

definition scheme_char :: "char \<Rightarrow> bool" where
  "scheme_char c \<longleftrightarrow> is_alpha c \<or> is_num c \<or> c \<in> set ''+-.''"

lemma getScheme_chars:
  assumes "getScheme raw = Some (scheme, rest)"
  shows "list_all scheme_char scheme" "set rest \<subseteq> set raw"
  using scheme_loop_chars [of raw 0 raw scheme rest] assms by (simp_all add: getScheme_def scheme_char_def [abs_def])

lemma scheme_char_ascii: "scheme_char c \<Longrightarrow> is_ascii c"
  by (auto simp: scheme_char_def is_alpha_def is_num_def is_ascii_def byte_def)

lemma lower_ascii_scheme: "scheme_char c \<Longrightarrow> scheme_char (lower_ascii c)"
  by (auto simp: scheme_char_def lower_ascii_def is_alpha_def byte_def chr_def)

lemma scheme_char_not_delimiter: "scheme_char c \<Longrightarrow> \<not> delimiter c"
  using delimiter_not_plain(3,4) [of c] by (auto simp: scheme_char_def delimiter_def)

lemma ToLower_scheme:
  assumes "list_all scheme_char s"
  shows "list_all scheme_char (ToLower H s)"
proof -
  have "list_all is_ascii s" using assms scheme_char_ascii by (auto simp: list_all_iff)
  with assms show ?thesis by (auto simp: ToLower_def list_all_iff intro: lower_ascii_scheme)
qed

lemma cut_query_clean:
  assumes "cut_query s = (force, query, rest)"
  shows "CHR ''?'' \<notin> set rest" "set rest \<subseteq> set s"
  using assms before_notin [of "CHR ''?''" s] set_before [of "CHR ''?''" s]
  by (auto simp: cut_query_def dest: in_set_butlastD split: if_splits)

lemma setPath_fields:
  assumes "setPath p u = Some u'"
  shows "u_Scheme u' = u_Scheme u \<and> u_Opaque u' = u_Opaque u \<and> u_Host u' = u_Host u \<and>
    u_OmitHost u' = u_OmitHost u"
  using assms by (auto simp: setPath_def)

lemma parse_rest_clean:
  assumes "parse_rest H raw = Some u" "CHR ''#'' \<notin> set raw" "delimiter c"
  shows "c \<notin> set (u_Scheme u) \<and> c \<notin> set (u_Opaque u)"
proof (cases "raw = ''*''")
  case True
  with assms(1) show ?thesis by (auto simp: parse_rest_def empty_url_def split: if_splits)
next
  case False
  with assms(1) obtain scheme rest0 where gs: "getScheme raw = Some (scheme, rest0)"
    by (auto simp: parse_rest_def split: if_splits option.splits)
  obtain force query rest where cq: "cut_query rest0 = (force, query, rest)" by (metis prod_cases3)
  have "c \<notin> set (ToLower H scheme)"
    using ToLower_scheme [OF getScheme_chars(1) [OF gs], of H] scheme_char_not_delimiter assms(3)
    by (auto simp: list_all_iff)
  moreover have "c \<notin> set rest"
    using cut_query_clean [OF cq] getScheme_chars(2) [OF gs] assms(2,3) by (auto simp: delimiter_def)
  moreover have "u_Scheme u = ToLower H scheme \<and> (u_Opaque u = [] \<or> u_Opaque u = rest)"
    using assms(1) False gs cq
    by (auto simp: parse_rest_def Let_def empty_url_def split: if_splits option.splits dest!: setPath_fields)
  ultimately show ?thesis by auto
qed

lemma url_Parse_clean:
  assumes "url_Parse H raw = Some u" "delimiter c"
  shows "c \<notin> set (u_Scheme u) \<and> c \<notin> set (u_Opaque u)"
proof -
  from assms(1) obtain u0 where "parse_rest H (before CHR ''#'' raw) = Some u0"
    "u_Scheme u = u_Scheme u0" "u_Opaque u = u_Opaque u0"
    by (auto simp: url_Parse_def setFragment_def Let_def split: option.splits if_splits)
  with parse_rest_clean [OF _ before_notin assms(2)] show ?thesis by auto
qed

subsection \<open>Parsing what was printed\<close>

text \<open>A scheme: nothing, or a letter and then scheme characters.\<close>

definition scheme_ok :: "string \<Rightarrow> bool" where
  "scheme_ok s \<longleftrightarrow> list_all scheme_char s \<and> (s \<noteq> [] \<longrightarrow> is_alpha (hd s))"

lemma scheme_loop_take:
  "scheme_loop raw i s = Some (scheme, rest) \<Longrightarrow> scheme = [] \<or> (\<exists>j>0. scheme = take j raw)"
  by (induction raw i s rule: scheme_loop.induct) (auto split: if_splits)

lemma getScheme_ok:
  assumes "getScheme raw = Some (scheme, rest)"
  shows "scheme_ok scheme"
proof (cases raw)
  case Nil
  with assms show ?thesis by (simp add: getScheme_def scheme_ok_def)
next
  case (Cons c s)
  show ?thesis
  proof (cases "is_alpha c")
    case True
    with assms Cons have "scheme = [] \<or> (\<exists>j>0. scheme = take j raw)"
      using scheme_loop_take [of raw 0 raw scheme rest] by (auto simp: getScheme_def)
    with Cons True getScheme_chars(1) [OF assms] show ?thesis by (auto simp: scheme_ok_def)
  next
    case False
    with assms Cons have "scheme = []" by (auto simp: getScheme_def split: if_splits)
    then show ?thesis by (simp add: scheme_ok_def)
  qed
qed

lemma lower_ascii_alpha: "is_alpha c \<Longrightarrow> is_alpha (lower_ascii c)"
  by (auto simp: lower_ascii_def is_alpha_def byte_def chr_def)

lemma ToLower_scheme_ok:
  assumes "scheme_ok s"
  shows "scheme_ok (ToLower H s)"
proof -
  have "list_all is_ascii s" using assms scheme_char_ascii by (auto simp: scheme_ok_def list_all_iff)
  then have "ToLower H s = map lower_ascii s" by (simp add: ToLower_def)
  with assms ToLower_scheme [of s H] show ?thesis
    by (cases s) (auto simp: scheme_ok_def intro: lower_ascii_alpha)
qed

lemma scheme_loop_finds:
  assumes "list_all scheme_char s" "0 < length pre"
  shows "scheme_loop (pre @ s @ CHR '':'' # rest) (length pre) (s @ CHR '':'' # rest) = Some (pre @ s, rest)"
  using assms
proof (induction s arbitrary: pre)
  case Nil
  moreover have "\<not> is_alpha CHR '':''" "\<not> is_num CHR '':''" by (simp_all add: is_alpha_def is_num_def byte_def)
  ultimately show ?case by simp
next
  case (Cons c s)
  have "scheme_loop ((pre @ [c]) @ s @ CHR '':'' # rest) (length (pre @ [c])) (s @ CHR '':'' # rest)
      = Some ((pre @ [c]) @ s, rest)" using Cons by (intro Cons.IH) simp_all
  with Cons.prems show ?case by (auto simp: scheme_char_def)
qed

lemma getScheme_prints:
  assumes "scheme_ok (u_Scheme u)"
  shows "getScheme (scheme_string u @ CHR ''/'' # rest) = Some (u_Scheme u, CHR ''/'' # rest)"
proof (cases "u_Scheme u")
  case Nil
  have "\<not> is_alpha CHR ''/''" "\<not> is_num CHR ''/''" by (simp_all add: is_alpha_def is_num_def byte_def)
  with Nil show ?thesis by (simp add: getScheme_def scheme_string_def)
next
  case (Cons c s)
  with assms scheme_loop_finds [of s "[c]" "CHR ''/'' # rest"] show ?thesis
    by (simp add: getScheme_def scheme_string_def scheme_ok_def)
qed

lemma parse_rest_shape:
  assumes "parse_rest H raw = Some u"
  shows "scheme_ok (u_Scheme u) \<and> (u_Host u \<noteq> [] \<longrightarrow> u_Opaque u = [])"
proof (cases "raw = ''*''")
  case True
  with assms show ?thesis by (auto simp: parse_rest_def empty_url_def scheme_ok_def split: if_splits)
next
  case False
  with assms obtain scheme rest0 where gs: "getScheme raw = Some (scheme, rest0)"
    by (auto simp: parse_rest_def split: if_splits option.splits)
  have "u_Scheme u = ToLower H scheme \<and> (u_Host u \<noteq> [] \<longrightarrow> u_Opaque u = [])"
    using assms False gs
    by (auto simp: parse_rest_def Let_def empty_url_def split: if_splits option.splits prod.splits
        dest!: setPath_fields)
  then show ?thesis using ToLower_scheme_ok [OF getScheme_ok [OF gs]] by simp
qed

lemma url_Parse_shape:
  assumes "url_Parse H raw = Some u"
  shows "scheme_ok (u_Scheme u) \<and> (u_Host u \<noteq> [] \<longrightarrow> u_Opaque u = [])"
proof -
  from assms obtain u0 where "parse_rest H (before CHR ''#'' raw) = Some u0"
    "u_Scheme u = u_Scheme u0" "u_Opaque u = u_Opaque u0" "u_Host u = u_Host u0"
    by (auto simp: url_Parse_def setFragment_def Let_def split: option.splits if_splits)
  with parse_rest_shape show ?thesis by fastforce
qed

lemma before_takeWhile: "before c s = takeWhile (\<lambda>d. d \<noteq> c) s"
  by (induction s) (fastforce simp: before_def dest: index_of_Some nth_mem split: option.splits)+

lemma before_append: "c \<notin> set s \<Longrightarrow> p = [] \<or> hd p = c \<Longrightarrow> before c (s @ p) = s"
  by (cases p) (auto simp: before_takeWhile takeWhile_append)

text \<open>A public URL with a host, printed and parsed again, is public.\<close>

lemma url_reparse:
  assumes pub: "public u" and sch: "scheme_ok (u_Scheme u)" and hst: "u_Host u \<noteq> []" "u_Opaque u = []"
    and clean: "CHR ''?'' \<notin> set (url_String u)" "CHR ''#'' \<notin> set (url_String u)"
    and parse: "url_Parse H (url_String u) = Some v"
  shows "public v"
proof -
  define hs where "hs = escape host_plain (u_Host u)"
  define p where "p = path_string u"
  have authority: "authority_string u = ''//'' @ hs"
    using pub hst by (simp add: authority_string_def public_def hs_def)
  have printed: "url_String u = scheme_string u @ ''//'' @ hs @ p"
    using pub hst by (simp add: url_String_public authority p_def)
  have path: "p = [] \<or> hd p = CHR ''/''"
    using hst by (auto simp: p_def path_string_def Let_def authority)
  have hs: "CHR ''/'' \<notin> set hs" "CHR ''@'' \<notin> set hs" "hs \<noteq> []"
  proof -
    have plain: "\<not> host_plain CHR ''/''" "\<not> host_plain CHR ''@''"
      by (simp_all add: host_plain_def unreserved_def is_alpha_def is_num_def byte_def)
    have "\<not> is_alpha CHR ''/''" "\<not> is_num CHR ''/''" "\<not> is_alpha CHR ''@''" "\<not> is_num CHR ''@''"
      by (simp_all add: is_alpha_def is_num_def byte_def)
    with plain set_escape [of _ host_plain "u_Host u"] show "CHR ''/'' \<notin> set hs" "CHR ''@'' \<notin> set hs"
      by (auto simp: hs_def)
    show "hs \<noteq> []" using hst by (cases "u_Host u") (auto simp: hs_def escape_def)
  qed
  have "after_char CHR ''#'' (url_String u) = []"
    using clean(2) by (simp add: after_char_def flip: index_of_None)
  with parse have rest: "parse_rest H (url_String u) = Some v"
    by (auto simp: url_Parse_def before_id [OF clean(2)] split: option.splits)
  have star: "url_String u \<noteq> ''*''"
  proof
    assume "url_String u = ''*''"
    then have "length (scheme_string u @ ''//'' @ hs @ p) = 1" unfolding printed by simp
    then show False by simp
  qed
  have gs: "getScheme (url_String u) = Some (u_Scheme u, ''//'' @ hs @ p)"
    using getScheme_prints [OF sch, of "CHR ''/'' # hs @ p"] by (simp add: printed)
  have "CHR ''?'' \<notin> set (''//'' @ hs @ p)" using clean(1) by (simp add: printed)
  then have cq: "cut_query (''//'' @ hs @ p) = (False, [], ''//'' @ hs @ p)"
    unfolding cut_query_def after_char_def
    by (metis before_id index_of_None last_in_set option.simps(4))
  obtain c t where ch: "hs = c # t" "c \<noteq> CHR ''/''" using hs by (cases hs) auto
  have none: "index_of CHR ''@'' (rev hs) = None" using hs(2) by simp
  have "parseAuthority H s hs = map_option (Pair None) (h_parseHost H s hs)" for s
    using none by (simp add: parseAuthority_def last_index_of_def del: index_of_None)
  with rest star gs cq ch before_append [OF hs(1) path] show ?thesis
    by (auto simp: parse_rest_def Let_def empty_url_def setPath_def public_def split: if_splits option.splits)
qed

end
