(* ===== verification/Event_Types.thy ===== *)
theory Event_Types
  imports Prelude
begin

section \<open>The event record and the values it carries\<close>

text \<open>
  The data of \<open>internal/events/events.go\<close>, \<open>type Event\<close>, and of \<open>geo.Point\<close>.
  A Go string is a list of bytes, the type \<open>string\<close>. A pointer field is an option, \<open>nil\<close>
  being \<open>None\<close>; a \<open>time.Time\<close> is the number of nanoseconds since Go's zero time
  (1 January of year 1, UTC), so that the zero value of the struct is 0. A \<open>float64\<close> is a real
  or one of the three special values; the sign of zero is not kept. A value of Go's interface
  type \<open>any\<close> carries the dynamic type its type switch looks at; a Go map is the list of its
  entries in the order one iteration visits them.
\<close>

datatype f64 = NaN | PosInf | NegInf | Fin real

datatype any =
    ANil
  | ABool bool
  | AFloat64 f64
  | AString string
  | AInt int
  | AInt32 int
  | AInt64 int
  | AMap "(string \<times> any) list"
  | ASlice "any list"

type_synonym go_map = "(string \<times> any) list"

record point =
  Latitude :: f64
  Longitude :: f64

record event =
  ev_DocumentID :: string
  ev_Type :: string
  ev_SiteID :: string
  ev_Timestamp :: string
  ev_SessionID :: string
  ev_AnonymousID :: string
  ev_UserID :: "string option"
  ev_Path :: string
  ev_URL :: string
  ev_Referrer :: string
  ev_Title :: string
  ev_Payload :: "go_map option"
  ev_ReceivedAt :: int
  ev_RequestHost :: string
  ev_RequestDomain :: string
  ev_ClientIP :: string
  ev_GeoCountryISO :: string
  ev_GeoCountryName :: string
  ev_GeoCityName :: string
  ev_GeoLocation :: "point option"
  ev_ForwardedFor :: string
  ev_UserAgent :: string
  ev_BrowserFamily :: string
  ev_BrowserVersion :: string
  ev_BrowserMajor :: string
  ev_OSFamily :: string
  ev_OSVersion :: string
  ev_DeviceFamily :: string
  ev_DeviceBrand :: string
  ev_DeviceModel :: string
  ev_DeviceType :: string
  ev_BrowserEngine :: string
  ev_AcceptLanguage :: string
  ev_AcceptLanguagePrimaryTag :: string
  ev_AcceptLanguagePrimaryBase :: string
  ev_AcceptLanguagePrimaryRegion :: string
  ev_AcceptLanguageTags :: "string list"
  ev_Timezone :: string
  ev_TimezoneArea :: string
  ev_TimezoneLocation :: string
  ev_TimezoneOffsetMinutes :: "int option"
  ev_Origin :: string
  ev_RefererHeader :: string
  ev_Scheme :: string
  ev_RemoteAddr :: string
  ev_CollectorVersion :: string
  ev_TrafficQuality :: string
  ev_IsSuspect :: bool
  ev_SuspicionReasons :: "string list"
  ev_ExtraHeaders :: "(string \<times> string) list option"

text \<open>The composite literal \<open>events.Event{}\<close>, every field at its zero value.\<close>

definition zero_event :: event where
  "zero_event = \<lparr>
     ev_DocumentID = [], ev_Type = [], ev_SiteID = [], ev_Timestamp = [], ev_SessionID = [],
     ev_AnonymousID = [], ev_UserID = None, ev_Path = [], ev_URL = [], ev_Referrer = [],
     ev_Title = [], ev_Payload = None, ev_ReceivedAt = 0, ev_RequestHost = [],
     ev_RequestDomain = [], ev_ClientIP = [], ev_GeoCountryISO = [], ev_GeoCountryName = [],
     ev_GeoCityName = [], ev_GeoLocation = None, ev_ForwardedFor = [], ev_UserAgent = [],
     ev_BrowserFamily = [], ev_BrowserVersion = [], ev_BrowserMajor = [], ev_OSFamily = [],
     ev_OSVersion = [], ev_DeviceFamily = [], ev_DeviceBrand = [], ev_DeviceModel = [],
     ev_DeviceType = [], ev_BrowserEngine = [], ev_AcceptLanguage = [],
     ev_AcceptLanguagePrimaryTag = [], ev_AcceptLanguagePrimaryBase = [],
     ev_AcceptLanguagePrimaryRegion = [], ev_AcceptLanguageTags = [], ev_Timezone = [],
     ev_TimezoneArea = [], ev_TimezoneLocation = [], ev_TimezoneOffsetMinutes = None,
     ev_Origin = [], ev_RefererHeader = [], ev_Scheme = [], ev_RemoteAddr = [],
     ev_CollectorVersion = [], ev_TrafficQuality = [], ev_IsSuspect = False,
     ev_SuspicionReasons = [], ev_ExtraHeaders = None \<rparr>"

end
