(* ===== verification/Payload.thy ===== *)
theory Payload
  imports Event_Types
begin

section \<open>The payload of an event\<close>

text \<open>
  \<open>internal/events/events.go\<close>, \<open>validatePayload\<close>, \<open>validatePayloadValue\<close>, \<open>truncatePayload\<close>,
  \<open>truncatePayloadValue\<close>, \<open>truncateString\<close> and \<open>tooLong\<close>. A payload is a tree of dynamic
  values. The code ranges over its maps in an order the language leaves open; here the order is
  the one of the entry list, and the properties hold for every order.
\<close>

datatype payload_error =
    ExceedsDepth
  | StringTooLong
  | InvalidKey
  | UnsupportedType
  | TooManyEntries

definition tooLong :: "string \<Rightarrow> int \<Rightarrow> bool" where
  "tooLong s mx \<longleftrightarrow> int (length s) > mx"

definition truncateString :: "string \<Rightarrow> int \<Rightarrow> string" where
  "truncateString s mx = (if mx \<le> 0 \<or> int (length s) \<le> mx then s else take (nat mx) s)"

text \<open>The loops over a map and over a slice carry the count so far.\<close>

function (sequential) validatePayloadValue :: "any \<Rightarrow> int \<Rightarrow> int \<Rightarrow> int \<Rightarrow> payload_error + int"
  and validate_entries :: "(string \<times> any) list \<Rightarrow> int \<Rightarrow> int \<Rightarrow> int \<Rightarrow> int \<Rightarrow> payload_error + int"
  and validate_items :: "any list \<Rightarrow> int \<Rightarrow> int \<Rightarrow> int \<Rightarrow> int \<Rightarrow> payload_error + int" where
  "validatePayloadValue v depth maxDepth mx =
     (if depth > maxDepth then Inl ExceedsDepth
      else (case v of
          ANil \<Rightarrow> Inr 1
        | ABool b \<Rightarrow> Inr 1
        | AFloat64 x \<Rightarrow> Inr 1
        | AString s \<Rightarrow> if int (length s) > mx then Inl StringTooLong else Inr 1
        | AMap es \<Rightarrow> validate_entries es 0 depth maxDepth mx
        | ASlice vs \<Rightarrow> validate_items vs 0 depth maxDepth mx
        | _ \<Rightarrow> Inl UnsupportedType))"
| "validate_entries [] cnt depth maxDepth mx = Inr cnt"
| "validate_entries ((key, nested) # es) cnt depth maxDepth mx =
     (if key = [] \<or> int (length key) > mx then Inl InvalidKey
      else (case validatePayloadValue nested (depth + 1) maxDepth mx of
              Inl err \<Rightarrow> Inl err
            | Inr n \<Rightarrow> validate_entries es (cnt + (1 + n)) depth maxDepth mx))"
| "validate_items [] cnt depth maxDepth mx = Inr cnt"
| "validate_items (nested # vs) cnt depth maxDepth mx =
     (case validatePayloadValue nested (depth + 1) maxDepth mx of
        Inl err \<Rightarrow> Inl err
      | Inr n \<Rightarrow> validate_items vs (cnt + n) depth maxDepth mx)"
  by pat_completeness auto
termination
  by (relation "measure (case_sum (\<lambda>(v, _). size v)
       (case_sum (\<lambda>(es, _). size_list (size_prod (\<lambda>_. 0) size) es) (\<lambda>(vs, _). size_list size vs)))") auto

declare validatePayloadValue.simps [simp del]

definition validatePayload :: "go_map option \<Rightarrow> int \<Rightarrow> int \<Rightarrow> int \<Rightarrow> payload_error option" where
  "validatePayload payload maxEntries maxDepth mx =
     (case payload of
        None \<Rightarrow> None
      | Some es \<Rightarrow>
          (case validatePayloadValue (AMap es) 1 maxDepth mx of
             Inl err \<Rightarrow> Some err
           | Inr cnt \<Rightarrow> if cnt > maxEntries then Some TooManyEntries else None))"

fun truncatePayloadValue :: "any \<Rightarrow> int \<Rightarrow> any" where
  "truncatePayloadValue (AString s) mx = AString (truncateString s mx)"
| "truncatePayloadValue (AMap es) mx = AMap (map (\<lambda>(k, v). (k, truncatePayloadValue v mx)) es)"
| "truncatePayloadValue (ASlice vs) mx = ASlice (map (\<lambda>v. truncatePayloadValue v mx) vs)"
| "truncatePayloadValue v mx = v"

definition truncatePayload :: "go_map option \<Rightarrow> int \<Rightarrow> go_map option" where
  "truncatePayload payload mx = map_option (map (\<lambda>(k, v). (k, truncatePayloadValue v mx))) payload"

subsection \<open>What is measured, without the order of a map\<close>

fun depth_of :: "any \<Rightarrow> nat" where
  "depth_of (AMap es) = Suc (Max (insert 0 (set (map (\<lambda>(k, v). depth_of v) es))))"
| "depth_of (ASlice vs) = Suc (Max (insert 0 (set (map depth_of vs))))"
| "depth_of v = 1"

fun entries_of :: "any \<Rightarrow> nat" where
  "entries_of (AMap es) = sum_list (map (\<lambda>(k, v). Suc (entries_of v)) es)"
| "entries_of (ASlice vs) = sum_list (map entries_of vs)"
| "entries_of v = 1"

fun strings_fit :: "int \<Rightarrow> any \<Rightarrow> bool" where
  "strings_fit mx (AString s) \<longleftrightarrow> int (length s) \<le> mx"
| "strings_fit mx (AMap es) \<longleftrightarrow> (\<forall>(k, v)\<in>set es. strings_fit mx v)"
| "strings_fit mx (ASlice vs) \<longleftrightarrow> (\<forall>v\<in>set vs. strings_fit mx v)"
| "strings_fit mx v \<longleftrightarrow> True"

fun keys_fit :: "int \<Rightarrow> any \<Rightarrow> bool" where
  "keys_fit mx (AMap es) \<longleftrightarrow> (\<forall>(k, v)\<in>set es. k \<noteq> [] \<and> int (length k) \<le> mx \<and> keys_fit mx v)"
| "keys_fit mx (ASlice vs) \<longleftrightarrow> (\<forall>v\<in>set vs. keys_fit mx v)"
| "keys_fit mx v \<longleftrightarrow> True"

fun json_types :: "any \<Rightarrow> bool" where
  "json_types (AMap es) \<longleftrightarrow> (\<forall>(k, v)\<in>set es. json_types v)"
| "json_types (ASlice vs) \<longleftrightarrow> (\<forall>v\<in>set vs. json_types v)"
| "json_types (AInt n) \<longleftrightarrow> False"
| "json_types (AInt32 n) \<longleftrightarrow> False"
| "json_types (AInt64 n) \<longleftrightarrow> False"
| "json_types v \<longleftrightarrow> True"

definition well_shaped :: "int \<Rightarrow> any \<Rightarrow> bool" where
  "well_shaped mx v \<longleftrightarrow> strings_fit mx v \<and> keys_fit mx v \<and> json_types v"

lemma depth_of_pos: "1 \<le> depth_of v"
  by (cases v) auto

lemma depth_of_le:
  "int (depth_of (AMap es)) \<le> n \<longleftrightarrow> 1 \<le> n \<and> (\<forall>(k, v)\<in>set es. int (depth_of v) + 1 \<le> n)"
  "int (depth_of (ASlice vs)) \<le> n \<longleftrightarrow> 1 \<le> n \<and> (\<forall>v\<in>set vs. int (depth_of v) + 1 \<le> n)"
proof -
  have "int (Suc (Max (insert 0 (set xs)))) \<le> n \<longleftrightarrow> 1 \<le> n \<and> (\<forall>x\<in>set xs. int x + 1 \<le> n)" for xs
  proof -
    define m where "m = Max (insert 0 (set xs))"
    have "m \<le> k \<longleftrightarrow> (\<forall>x\<in>set xs. x \<le> k)" for k unfolding m_def by (subst Max_le_iff) auto
    from this [of "nat (n - 1)"] have "m \<le> nat (n - 1) \<longleftrightarrow> (\<forall>x\<in>set xs. x \<le> nat (n - 1))" .
    then show ?thesis unfolding m_def [symmetric] by (cases "1 \<le> n") (auto simp: nat_le_iff le_nat_iff)
  qed
  from this [of "map (\<lambda>(k, v). depth_of v) es"] this [of "map depth_of vs"]
  show "int (depth_of (AMap es)) \<le> n \<longleftrightarrow> 1 \<le> n \<and> (\<forall>(k, v)\<in>set es. int (depth_of v) + 1 \<le> n)"
    "int (depth_of (ASlice vs)) \<le> n \<longleftrightarrow> 1 \<le> n \<and> (\<forall>v\<in>set vs. int (depth_of v) + 1 \<le> n)" by force+
qed

lemmas well_shaped_simps = well_shaped_def strings_fit.simps keys_fit.simps json_types.simps

lemma validate_spec:
  "validatePayloadValue v d D mx = Inr n \<longleftrightarrow>
     int (depth_of v) \<le> D - d + 1 \<and> well_shaped mx v \<and> n = int (entries_of v)"
  "validate_entries es c d D mx = Inr n \<longleftrightarrow>
     (\<forall>(k, v)\<in>set es. k \<noteq> [] \<and> int (length k) \<le> mx \<and> int (depth_of v) \<le> D - d \<and> well_shaped mx v) \<and>
     n = c + int (sum_list (map (\<lambda>(k, v). Suc (entries_of v)) es))"
  "validate_items vs c d D mx = Inr n \<longleftrightarrow>
     (\<forall>v\<in>set vs. int (depth_of v) \<le> D - d \<and> well_shaped mx v) \<and>
     n = c + int (sum_list (map entries_of vs))"
proof (induction v d D mx and es c d D mx and vs c d D mx arbitrary: n and n and n
    rule: validatePayloadValue_validate_entries_validate_items.induct)
  case (1 v depth maxDepth mx)
  show ?case
  proof (cases "depth > maxDepth")
    case True
    then have "\<not> int (depth_of v) \<le> maxDepth - depth + 1" using depth_of_pos [of v] by linarith
    with True show ?thesis by (simp add: validatePayloadValue.simps [of v])
  next
    case False
    then show ?thesis
    proof (cases v)
      case (AMap es)
      with False 1(1) [of es] show ?thesis
        by (auto simp: validatePayloadValue.simps [of "AMap es"] depth_of_le well_shaped_simps simp del: depth_of.simps)
    next
      case (ASlice vs)
      with False 1(2) [of vs] show ?thesis
        by (auto simp: validatePayloadValue.simps [of "ASlice vs"] depth_of_le well_shaped_simps simp del: depth_of.simps)
    qed (auto simp: validatePayloadValue.simps well_shaped_simps)
  qed
next
  case (3 key nested es cnt depth maxDepth mx)
  show ?case
  proof (cases "key = [] \<or> mx < int (length key)")
    case False
    then show ?thesis
    proof (cases "validatePayloadValue nested (depth + 1) maxDepth mx")
      case (Inl err)
      with False 3(1) [of "int (entries_of nested)"] show ?thesis by auto
    next
      case (Inr m)
      with False 3(1) [of m] 3(2) [of m n] show ?thesis by auto
    qed
  qed auto
next
  case (5 nested vs cnt depth maxDepth mx)
  show ?case
  proof (cases "validatePayloadValue nested (depth + 1) maxDepth mx")
    case (Inl err)
    with 5(1) [of "int (entries_of nested)"] show ?thesis by auto
  next
    case (Inr m)
    with 5(1) [of m] 5(2) [of m n] show ?thesis by auto
  qed
qed auto

lemma fit_strings_not_too_long:
  "strings_fit mx v \<Longrightarrow> validatePayloadValue v d D mx \<noteq> Inl StringTooLong"
  "\<forall>(k, v)\<in>set es. strings_fit mx v \<Longrightarrow> validate_entries es c d D mx \<noteq> Inl StringTooLong"
  "\<forall>v\<in>set vs. strings_fit mx v \<Longrightarrow> validate_items vs c d D mx \<noteq> Inl StringTooLong"
proof (induction v d D mx and es c d D mx and vs c d D mx
    rule: validatePayloadValue_validate_entries_validate_items.induct)
  case (1 v depth maxDepth mx)
  then show ?case by (cases v) (auto simp: validatePayloadValue.simps)
qed (auto split: sum.splits)

subsection \<open>What truncation changes\<close>

lemma truncateString_length: "0 < mx \<Longrightarrow> int (length (truncateString s mx)) \<le> mx"
  by (auto simp: truncateString_def)

lemma truncateString_prefix: "prefix (truncateString s mx) s"
  by (simp add: truncateString_def take_is_prefix)

lemma truncateString_idem: "truncateString (truncateString s mx) mx = truncateString s mx"
  by (auto simp: truncateString_def)

lemma map_cong_snd:
  "(\<And>k v. (k, v) \<in> set es \<Longrightarrow> f v = g v) \<Longrightarrow> map (\<lambda>(k, v). f v) es = map (\<lambda>(k, v). g v) es"
  by auto

lemma truncate_measures:
  "depth_of (truncatePayloadValue v mx) = depth_of v"
  "entries_of (truncatePayloadValue v mx) = entries_of v"
  "keys_fit n (truncatePayloadValue v mx) = keys_fit n v"
  "json_types (truncatePayloadValue v mx) = json_types v"
proof (induction v)
  case (AMap es)
  have ih: "depth_of (truncatePayloadValue v mx) = depth_of v"
    "entries_of (truncatePayloadValue v mx) = entries_of v"
    "keys_fit n (truncatePayloadValue v mx) = keys_fit n v"
    "json_types (truncatePayloadValue v mx) = json_types v" if "(k, v) \<in> set es" for k v
    using AMap [of "(k, v)" v] that by auto
  {
    case 1
    have "map ((\<lambda>(k, v). depth_of v) \<circ> (\<lambda>(k, v). (k, truncatePayloadValue v mx))) es =
        map (\<lambda>(k, v). depth_of v) es" using ih(1) by auto
    then show ?case by (simp only: depth_of.simps truncatePayloadValue.simps map_map)
  next
    case 2
    have "map ((\<lambda>(k, v). Suc (entries_of v)) \<circ> (\<lambda>(k, v). (k, truncatePayloadValue v mx))) es =
        map (\<lambda>(k, v). Suc (entries_of v)) es" using ih(2) by auto
    then show ?case by (simp only: entries_of.simps truncatePayloadValue.simps map_map)
  next
    case 3
    then show ?case using ih(3) by fastforce
  next
    case 4
    then show ?case using ih(4) by fastforce
  }
next
  case (ASlice vs)
  {
    case 1
    have "map (depth_of \<circ> (\<lambda>v. truncatePayloadValue v mx)) vs = map depth_of vs" using ASlice(1) by auto
    then show ?case by (simp only: depth_of.simps truncatePayloadValue.simps map_map)
  next
    case 2
    have "map (entries_of \<circ> (\<lambda>v. truncatePayloadValue v mx)) vs = map entries_of vs" using ASlice(2) by auto
    then show ?case by (simp only: entries_of.simps truncatePayloadValue.simps map_map)
  next
    case 3
    then show ?case using ASlice(3) by simp
  next
    case 4
    then show ?case using ASlice(4) by simp
  }
qed simp_all

lemma truncate_strings_fit: "0 < mx \<Longrightarrow> strings_fit mx (truncatePayloadValue v mx)"
  by (induction v) (auto simp: truncateString_length)

lemma truncatePayload_AMap:
  "truncatePayload (Some es) mx = Some es' \<longleftrightarrow> AMap es' = truncatePayloadValue (AMap es) mx"
  by (auto simp: truncatePayload_def)

subsection \<open>Two maps with the same entries\<close>

inductive same_value :: "any \<Rightarrow> any \<Rightarrow> bool" where
  leaf: "same_value v v"
| map: "list_all2 (rel_prod (=) same_value) es es' \<Longrightarrow> mset es'' = mset es' \<Longrightarrow>
    same_value (AMap es) (AMap es'')"
| slice: "list_all2 same_value vs vs' \<Longrightarrow> same_value (ASlice vs) (ASlice vs')"

lemma list_all2_map_eq: "list_all2 (\<lambda>x y. f x = g y) xs ys \<Longrightarrow> map f xs = map g ys"
  by (induction rule: list_all2_induct) auto

lemma list_all2_ball: "list_all2 (\<lambda>x y. P x = P y) xs ys \<Longrightarrow> (\<forall>x\<in>set xs. P x) = (\<forall>y\<in>set ys. P y)"
  by (induction rule: list_all2_induct) auto

lemma sum_list_mset_cong: "mset xs = mset ys \<Longrightarrow> sum_list (map f xs) = (sum_list (map f ys) :: nat)"
  by (metis mset_map sum_mset_sum_list)

lemma same_value_measures:
  assumes "same_value v w"
  shows "depth_of v = depth_of w \<and> entries_of v = entries_of w \<and> well_shaped mx v = well_shaped mx w"
  using assms
proof induction
  case (leaf v)
  show ?case by simp
next
  case (map es es' es'')
  let ?key = "\<lambda>k :: string. k \<noteq> [] \<and> int (length k) \<le> mx"
  have set: "set es'' = set es'" using map(2) by (rule mset_eq_setD)
  have all: "list_all2 (\<lambda>x y. f x = f y) es es'"
    if "\<And>k v w. depth_of v = depth_of w \<and> entries_of v = entries_of w \<and> well_shaped mx v = well_shaped mx w
      \<Longrightarrow> f (k, v) = f (k, w)" for f :: "string \<times> any \<Rightarrow> 'b"
    using map(1) by (rule list_all2_mono) (elim rel_prod.cases, hypsubst, rule that, blast)
  have 1: "map (\<lambda>(k, v). depth_of v) es = map (\<lambda>(k, v). depth_of v) es'"
    by (rule list_all2_map_eq [OF all]) simp
  have 2: "map (\<lambda>(k, v). Suc (entries_of v)) es = map (\<lambda>(k, v). Suc (entries_of v)) es'"
    by (rule list_all2_map_eq [OF all]) simp
  have 3: "(\<forall>x\<in>set es. ?key (fst x) \<and> well_shaped mx (snd x)) = (\<forall>x\<in>set es'. ?key (fst x) \<and> well_shaped mx (snd x))"
    by (rule list_all2_ball [OF all]) simp
  have shape: "well_shaped mx (AMap xs) \<longleftrightarrow> (\<forall>x\<in>set xs. ?key (fst x) \<and> well_shaped mx (snd x))" for xs
    by (auto simp: well_shaped_simps split: prod.splits)
  have "set (map (\<lambda>(k, v). depth_of v) es'') = set (map (\<lambda>(k, v). depth_of v) es')" using set by simp
  then have "depth_of (AMap es) = depth_of (AMap es'')" by (simp only: depth_of.simps 1)
  moreover have "entries_of (AMap es) = entries_of (AMap es'')"
    by (simp only: entries_of.simps 2 sum_list_mset_cong [OF map(2)])
  ultimately show ?case by (simp only: shape 3 set simp_thms)
next
  case (slice vs vs')
  have all: "list_all2 (\<lambda>x y. f x = f y) vs vs'"
    if "\<And>v w. depth_of v = depth_of w \<and> entries_of v = entries_of w \<and> well_shaped mx v = well_shaped mx w
      \<Longrightarrow> f v = f w" for f :: "any \<Rightarrow> 'b"
    using slice by (rule list_all2_mono) (auto intro: that)
  have 1: "map depth_of vs = map depth_of vs'" by (rule list_all2_map_eq [OF all]) simp
  have 2: "map entries_of vs = map entries_of vs'" by (rule list_all2_map_eq [OF all]) simp
  have 3: "(\<forall>v\<in>set vs. well_shaped mx v) = (\<forall>v\<in>set vs'. well_shaped mx v)"
    by (rule list_all2_ball [OF all]) simp
  have shape: "well_shaped mx (ASlice xs) \<longleftrightarrow> (\<forall>v\<in>set xs. well_shaped mx v)" for xs
    by (auto simp: well_shaped_simps)
  show ?case by (simp only: depth_of.simps entries_of.simps shape 1 2 3 simp_thms)
qed

lemma validatePayload_Some:
  "validatePayload (Some es) maxEntries maxDepth mx = None \<longleftrightarrow>
     int (depth_of (AMap es)) \<le> maxDepth \<and> int (entries_of (AMap es)) \<le> maxEntries \<and> well_shaped mx (AMap es)"
proof -
  have spec: "validatePayloadValue (AMap es) 1 maxDepth mx = Inr n \<longleftrightarrow>
      int (depth_of (AMap es)) \<le> maxDepth \<and> well_shaped mx (AMap es) \<and> n = int (entries_of (AMap es))" for n
    using validate_spec(1) [of "AMap es" 1 maxDepth mx n] by simp
  show ?thesis
  proof (cases "validatePayloadValue (AMap es) 1 maxDepth mx")
    case (Inl err)
    with spec show ?thesis by (auto simp: validatePayload_def)
  next
    case (Inr n)
    with spec [of n] show ?thesis
      by (auto simp: validatePayload_def simp del: depth_of.simps entries_of.simps)
  qed
qed

subsection \<open>Properties\<close>

text \<open>
  C12: The verdict on a payload, without the recursion: a payload is accepted exactly when its
  nesting does not exceed the depth limit, its number of entries (a member of an object counts one
  for itself and what its value counts, a scalar one) does not exceed the entry limit, every
  string and key fits the field length, no key is empty and every value has a type that JSON
  decoding produces.
\<close>

theorem payload_accepted_iff:
  "validatePayload payload maxEntries maxDepth mx = None \<longleftrightarrow>
     (case payload of
        None \<Rightarrow> True
      | Some es \<Rightarrow> int (depth_of (AMap es)) \<le> maxDepth \<and> int (entries_of (AMap es)) \<le> maxEntries \<and>
          strings_fit mx (AMap es) \<and> keys_fit mx (AMap es) \<and> json_types (AMap es))"
  by (cases payload) (auto simp: validatePayload_Some well_shaped_def validatePayload_def [of None]
      simp del: depth_of.simps entries_of.simps strings_fit.simps keys_fit.simps json_types.simps)

text \<open>
  Whether a payload is accepted does not depend on the order in which the code ranges over
  its maps, at any level.
\<close>

theorem payload_verdict_order_independent:
  assumes "same_value (AMap es) (AMap es')"
  shows "validatePayload (Some es) maxEntries maxDepth mx = None \<longleftrightarrow>
    validatePayload (Some es') maxEntries maxDepth mx = None"
  by (simp only: validatePayload_Some same_value_measures [OF assms])

theorem payload_verdict_order_independent_witness:
  "validatePayload (Some [(''a'', ANil), (''b'', AString ''xyz'')]) 4 2 2 = None \<longleftrightarrow>
   validatePayload (Some [(''b'', AString ''xyz''), (''a'', ANil)]) 4 2 2 = None"
proof -
  let ?es = "[(''a'', ANil), (''b'', AString ''xyz'')]"
  have "list_all2 (rel_prod (=) same_value) ?es ?es" by (simp add: same_value.leaf)
  then have "same_value (AMap ?es) (AMap [(''b'', AString ''xyz''), (''a'', ANil)])"
    by (rule same_value.map) simp
  then show ?thesis by (rule payload_verdict_order_independent)
qed

text \<open>
  Truncating a payload to a positive length makes every string in it fit and changes neither
  its shape nor its keys: the depth, the number of entries and the types stay, and validation with
  the same length never reports a string as too long afterwards.
\<close>

theorem truncated_payload_fits:
  assumes "0 < mx" "truncatePayload (Some es) mx = Some es'"
  shows "map fst es' = map fst es \<and> strings_fit mx (AMap es') \<and>
    depth_of (AMap es') = depth_of (AMap es) \<and> entries_of (AMap es') = entries_of (AMap es) \<and>
    keys_fit n (AMap es') = keys_fit n (AMap es) \<and> json_types (AMap es') = json_types (AMap es) \<and>
    validatePayload (Some es') maxEntries maxDepth mx \<noteq> Some StringTooLong"
proof -
  have es': "AMap es' = truncatePayloadValue (AMap es) mx" using assms(2) truncatePayload_AMap by blast
  have fit: "strings_fit mx (AMap es')" unfolding es' by (rule truncate_strings_fit [OF assms(1)])
  have "validatePayload (Some es') maxEntries maxDepth mx \<noteq> Some StringTooLong"
    using fit_strings_not_too_long(1) [OF fit, of 1 maxDepth]
    by (auto simp: validatePayload_def split: sum.splits)
  moreover have "map fst es' = map fst es" using assms(2) by (auto simp: truncatePayload_def)
  ultimately show ?thesis using fit by (simp only: es' truncate_measures simp_thms)
qed

theorem truncated_payload_fits_witness:
  "truncatePayload (Some [(''a'', ASlice [AString ''xyz'']), (''b'', ANil)]) 2 =
     Some [(''a'', ASlice [AString ''xy'']), (''b'', ANil)] \<and>
   strings_fit 2 (AMap [(''a'', ASlice [AString ''xy'']), (''b'', ANil)])"
proof -
  have "truncatePayload (Some [(''a'', ASlice [AString ''xyz'']), (''b'', ANil)]) 2 =
     Some [(''a'', ASlice [AString ''xy'']), (''b'', ANil)]"
    by (simp add: truncatePayload_def truncateString_def numeral_2_eq_2)
  with truncated_payload_fits [OF _ this] show ?thesis by (simp only: zero_less_numeral simp_thms)
qed

text \<open>
  Each member of an object counts twice when its value is a scalar: a flat payload of \<open>n\<close>
  scalar members has \<open>2 n\<close> entries, so that with the default limit of 128 one of 65 members is
  rejected.
\<close>

theorem flat_payload_counts_twice:
  "entries_of (AMap (map (\<lambda>k. (k, ABool b)) ks)) = 2 * length ks \<and>
   validatePayload (Some (map (\<lambda>i. (replicate (Suc i) CHR ''k'', ABool b)) [0..<65])) 128 4 10240 = Some TooManyEntries"
proof -
  have n: "entries_of (AMap (map (\<lambda>k. (k, ABool b)) ks)) = 2 * length ks" for ks
    by (induction ks) auto
  let ?ks = "map (\<lambda>i. replicate (Suc i) CHR ''k'') [0..<65]"
  let ?es = "map (\<lambda>k. (k, ABool b)) ?ks"
  have "Max (insert 0 (set (map (\<lambda>(k, v). depth_of v) ?es))) \<le> 1" by (subst Max_le_iff) auto
  then have "int (depth_of (AMap ?es)) \<le> 4" by (simp del: map_map)
  moreover have "well_shaped 10240 (AMap ?es)" by (auto simp: well_shaped_simps)
  ultimately have "validatePayloadValue (AMap ?es) 1 4 10240 = Inr 130"
    unfolding validate_spec(1) using n [of ?ks] by simp
  then have "validatePayload (Some ?es) 128 4 10240 = Some TooManyEntries" by (simp add: validatePayload_def)
  moreover have "?es = map (\<lambda>i. (replicate (Suc i) CHR ''k'', ABool b)) [0..<65]" by simp
  ultimately show ?thesis using n by (simp only: simp_thms)
qed

end
