(* ===== verification/Url_Fields.thy ===== *)
theory Url_Fields
  imports Url Payload
begin

section \<open>URL fields of an event\<close>

text \<open>
  \<open>internal/events/events.go\<close>, \<open>sanitizeURL\<close>, \<open>sanitizePath\<close>, \<open>validateURLField\<close> and
  \<open>truncateURLField\<close>, over the model of \<open>net/url\<close>.
\<close>

text \<open>The four assignments that drop the query, the fragment and the user information.\<close>

definition drop_private :: "url \<Rightarrow> url" where
  "drop_private u = u\<lparr>u_RawQuery := [], u_ForceQuery := False, u_Fragment := [], u_User := None\<rparr>"

definition sanitizeURL :: "host \<Rightarrow> string \<Rightarrow> string" where
  "sanitizeURL H raw =
     (if TrimSpace raw = [] then raw
      else (case url_Parse H raw of
              None \<Rightarrow> raw
            | Some parsed \<Rightarrow> url_String (drop_private parsed)))"

text \<open>\<open>raw[:strings.IndexAny(raw, "?#")]\<close>\<close>

definition sanitizePath :: "string \<Rightarrow> string" where
  "sanitizePath raw = takeWhile (\<lambda>c. \<not> (c = CHR ''?'' \<or> c = CHR ''#'')) raw"

datatype url_error = UrlTooLong | InvalidUrl | InvalidScheme

definition validateURLField :: "host \<Rightarrow> string \<Rightarrow> int \<Rightarrow> url_error option" where
  "validateURLField H raw mx =
     (if raw = [] then None
      else if int (length raw) > mx then Some UrlTooLong
      else (case url_Parse H raw of
              None \<Rightarrow> Some InvalidUrl
            | Some parsed \<Rightarrow>
                if u_Scheme parsed \<noteq> [] \<and> u_Scheme parsed \<noteq> ''http'' \<and> u_Scheme parsed \<noteq> ''https''
                then Some InvalidScheme else None))"

definition truncateURLField :: "host \<Rightarrow> string \<Rightarrow> int \<Rightarrow> string" where
  "truncateURLField H raw mx =
     (if mx \<le> 0 \<or> int (length raw) \<le> mx then raw
      else (case url_Parse H raw of
              None \<Rightarrow> []
            | Some parsed0 \<Rightarrow>
                let parsed = drop_private parsed0; candidate = url_String parsed in
                if int (length candidate) \<le> mx then candidate
                else
                  let front = (if u_Scheme parsed \<noteq> [] then u_Scheme parsed @ ''://'' else []) @ u_Host parsed in
                  if int (length front) \<ge> mx then []
                  else
                    let path0 = EscapedPath parsed; path = (if path0 = [] then u_Path parsed else path0) in
                    front @ truncateString path (mx - int (length front))))"

subsection \<open>Lemmas\<close>

lemma drop_private_fields [simp]:
  "u_Scheme (drop_private u) = u_Scheme u" "u_Opaque (drop_private u) = u_Opaque u"
  "u_Host (drop_private u) = u_Host u" "u_Path (drop_private u) = u_Path u"
  by (simp_all add: drop_private_def)

text \<open>Nothing private is printed: clearing the four fields is what makes the URL public.\<close>

lemma drop_private_public [simp]: "public (drop_private u)"
  by (simp add: drop_private_def public_def)

lemma drop_private_String:
  "url_String (drop_private u) = scheme_string u @ (if u_Opaque u \<noteq> [] then u_Opaque u
     else authority_string (u\<lparr>u_User := None\<rparr>) @ path_string (u\<lparr>u_User := None\<rparr>))"
proof -
  have "authority_string (drop_private u) = authority_string (u\<lparr>u_User := None\<rparr>)"
    "EscapedPath (drop_private u) = EscapedPath (u\<lparr>u_User := None\<rparr>)"
    "scheme_string (drop_private u) = scheme_string (u\<lparr>u_User := None\<rparr>)" "scheme_string (drop_private u) = scheme_string u"
    by (simp_all add: drop_private_def authority_string_def EscapedPath_def scheme_string_def)
  then show ?thesis by (simp add: url_String_public path_string_def)
qed

lemma delimiter_printable: "delimiter c \<Longrightarrow> is_ascii c \<and> \<not> ascii_space c"
  by (auto simp: delimiter_def is_ascii_def ascii_space_def byte_def)

lemma sanitizePath_clean: "delimiter c \<Longrightarrow> c \<notin> set (sanitizePath raw)"
  by (auto simp: sanitizePath_def delimiter_def dest: set_takeWhileD)

lemma sanitizePath_prefix: "prefix (sanitizePath raw) raw"
  by (simp add: sanitizePath_def takeWhile_is_prefix)

lemma sanitizeURL_clean:
  assumes "url_Parse H raw \<noteq> None" "delimiter c"
  shows "c \<notin> set (sanitizeURL H raw)"
proof (cases "TrimSpace raw = []")
  case True
  then have "c \<notin> set raw" using TrimSpace_keeps [of c raw] delimiter_printable [OF assms(2)] by auto
  with True show ?thesis by (simp add: sanitizeURL_def)
next
  case False
  from assms(1) obtain u where u: "url_Parse H raw = Some u" by auto
  have "c \<notin> set (url_String (drop_private u))"
    using url_String_clean [OF drop_private_public assms(2)] url_Parse_clean [OF u assms(2)] by simp
  with False u show ?thesis by (simp add: sanitizeURL_def)
qed

text \<open>A sanitised URL with a host, parsed again, carries nothing private.\<close>

lemma sanitizeURL_reparse:
  assumes "url_Parse H raw = Some u" "TrimSpace raw \<noteq> []" "u_Host u \<noteq> []"
    "url_Parse H (sanitizeURL H raw) = Some v"
  shows "public v"
proof -
  have s: "sanitizeURL H raw = url_String (drop_private u)" using assms(1,2) by (simp add: sanitizeURL_def)
  have "\<forall>c. delimiter c \<longrightarrow> c \<notin> set (url_String (drop_private u))"
    using sanitizeURL_clean [of H raw] assms(1) by (simp add: s)
  with url_Parse_shape [OF assms(1)] assms(3,4) show ?thesis
    unfolding s by (intro url_reparse [of "drop_private u" H v]) (auto simp: delimiter_def)
qed

lemma sanitizeURL_invalid: "url_Parse H raw = None \<Longrightarrow> sanitizeURL H raw = raw"
  by (simp add: sanitizeURL_def)

lemma truncateURLField_length:
  assumes "0 < mx"
  shows "int (length (truncateURLField H raw mx)) \<le> mx"
proof (cases "int (length raw) \<le> mx \<or> url_Parse H raw = None")
  case True
  with assms show ?thesis by (auto simp: truncateURLField_def)
next
  case False
  then obtain u where "url_Parse H raw = Some u" by auto
  define front where "front = (if u_Scheme u \<noteq> [] then u_Scheme u @ ''://'' else []) @ u_Host u"
  define path where "path = (if EscapedPath (drop_private u) = [] then u_Path u else EscapedPath (drop_private u))"
  have "truncateURLField H raw mx =
      (if int (length (url_String (drop_private u))) \<le> mx then url_String (drop_private u)
       else if int (length front) \<ge> mx then [] else front @ truncateString path (mx - int (length front)))"
    using False \<open>url_Parse H raw = Some u\<close> assms
    unfolding truncateURLField_def front_def path_def by (simp add: Let_def)
  moreover have "int (length (front @ truncateString path (mx - int (length front)))) \<le> mx"
    if "int (length front) < mx"
    using truncateString_length [of "mx - int (length front)" path] that by simp
  ultimately show ?thesis using assms by auto
qed

lemma validateURLField_fits:
  "int (length raw) \<le> mx \<Longrightarrow> validateURLField H raw mx \<noteq> Some UrlTooLong"
  by (simp add: validateURLField_def split: option.splits)

subsection \<open>Properties\<close>

text \<open>
  C23: Sanitising removes the user information, the query and the fragment: whatever a URL is that
  the parser accepts (with user information, an opaque part, percent escapes, white space only),
  the sanitised one has no question mark and no number sign. It is the scheme followed by the
  opaque part, or by the authority and the path of the URL without its user information, and that
  authority has no at sign; when the URL names a host, parsing the sanitised one again finds no
  user information, no query and no fragment. A sanitised path has no question mark and no number
  sign either and is a prefix of the path it was.
\<close>

theorem sanitized_url_is_public:
  assumes "url_Parse H raw = Some u"
  shows "CHR ''?'' \<notin> set (sanitizeURL H raw) \<and> CHR ''#'' \<notin> set (sanitizeURL H raw) \<and>
    (TrimSpace raw \<noteq> [] \<longrightarrow>
      sanitizeURL H raw = scheme_string u @ (if u_Opaque u \<noteq> [] then u_Opaque u
        else authority_string (u\<lparr>u_User := None\<rparr>) @ path_string (u\<lparr>u_User := None\<rparr>)) \<and>
      CHR ''@'' \<notin> set (authority_string (u\<lparr>u_User := None\<rparr>)) \<and>
      (u_Host u \<noteq> [] \<longrightarrow> (\<forall>v. url_Parse H (sanitizeURL H raw) = Some v \<longrightarrow>
        u_User v = None \<and> \<not> u_ForceQuery v \<and> u_RawQuery v = [] \<and> u_Fragment v = []))) \<and>
    CHR ''?'' \<notin> set (sanitizePath path) \<and> CHR ''#'' \<notin> set (sanitizePath path) \<and>
    prefix (sanitizePath path) path"
  using sanitizeURL_clean [of H raw] sanitizePath_clean sanitizePath_prefix sanitizeURL_reparse [OF assms]
    authority_no_at [of "u\<lparr>u_User := None\<rparr>"] drop_private_String [of u] assms
  by (auto simp: delimiter_def public_def sanitizeURL_def)

definition plain_host :: host where
  "plain_host = \<lparr>h_lowerRune = id, h_upperRune = id, h_loadLocation = (\<lambda>_. True),
     h_parseHost = (\<lambda>_ a. Some a), h_floatToInt64 = (\<lambda>_. 0),
     h_newParser = False, h_parseUA = (\<lambda>_. None)\<rparr>"

theorem sanitized_url_is_public_witness:
  "sanitizeURL plain_host ''HTTPS://ann:pw@shop.example/a%3Fb?token=1#top'' = ''https://shop.example/a%3Fb'' \<and>
   (\<exists>v. url_Parse plain_host ''https://shop.example/a%3Fb'' = Some v \<and> u_User v = None \<and> u_RawQuery v = [])"
proof -
  let ?raw = "''HTTPS://ann:pw@shop.example/a%3Fb?token=1#top''"
  have "map_option u_Host (url_Parse plain_host ?raw) = Some ''shop.example''" by code_simp
  then obtain u where u: "url_Parse plain_host ?raw = Some u" "u_Host u = ''shop.example''" by auto
  have "TrimSpace ?raw \<noteq> []" by code_simp
  moreover have "u_Host u \<noteq> []" using u(2) by simp
  moreover have s: "sanitizeURL plain_host ?raw = ''https://shop.example/a%3Fb''" by code_simp
  moreover have "url_Parse plain_host ''https://shop.example/a%3Fb'' \<noteq> None" by code_simp
  then obtain v where "url_Parse plain_host ''https://shop.example/a%3Fb'' = Some v" by auto
  ultimately show ?thesis using sanitized_url_is_public [OF u(1), of "[]"] unfolding s by blast
qed

text \<open>
  A URL that the parser rejects is kept as it is, query included: for instance one whose path
  has a malformed percent escape, whatever the rest of the surroundings.
\<close>

theorem malformed_url_keeps_query:
  "sanitizeURL H ''https://shop.example/%zz?token=1'' = ''https://shop.example/%zz?token=1''"
proof -
  let ?raw = "''https://shop.example/%zz?token=1''"
  have "\<not> list_ex is_ctl ?raw" "getScheme ?raw = Some (''https'', ''//shop.example/%zz?token=1'')"
    "cut_query ''//shop.example/%zz?token=1'' = (False, ''token=1'', ''//shop.example/%zz'')"
    "before CHR ''#'' ?raw = ?raw" "before CHR ''/'' ''shop.example/%zz'' = ''shop.example''" "unescape ''/%zz'' = None"
    by code_simp+
  then have "url_Parse H ?raw = None"
    by (simp add: url_Parse_def parse_rest_def Let_def setPath_def split: option.splits)
  then show ?thesis by (rule sanitizeURL_invalid)
qed

text \<open>
  Truncating a URL to a positive length makes it fit, so that validation with the same length
  never reports it as too long.
\<close>

theorem truncated_url_fits:
  assumes "0 < mx"
  shows "int (length (truncateURLField H raw mx)) \<le> mx \<and>
    validateURLField H (truncateURLField H raw mx) mx \<noteq> Some UrlTooLong"
  using truncateURLField_length [OF assms] validateURLField_fits by blast

theorem truncated_url_fits_witness:
  "truncateURLField plain_host ''http://h.example/path?q=1'' 20 = ''http://h.example/pat'' \<and>
   validateURLField plain_host ''http://h.example/pat'' 20 \<noteq> Some UrlTooLong"
proof -
  have "truncateURLField plain_host ''http://h.example/path?q=1'' 20 = ''http://h.example/pat''"
    by code_simp
  with truncated_url_fits [of 20 plain_host "''http://h.example/path?q=1''"] show ?thesis by simp
qed

text \<open>
  Truncation can turn an acceptable URL into one that is rejected: the cut may fall inside a
  percent escape, and then validation reports an invalid URL although it would have accepted the
  field at its full length.
\<close>

theorem truncation_breaks_escape:
  "validateURLField H ''/aaaa%20bbbb'' 12 = None \<and> truncateURLField H ''/aaaa%20bbbb'' 7 = ''/aaaa%2'' \<and>
   validateURLField H (truncateURLField H ''/aaaa%20bbbb'' 7) 7 = Some InvalidUrl"
proof -
  let ?u = "empty_url\<lparr>u_Scheme := [], u_Path := ''/aaaa bbbb''\<rparr>"
  have p: "parse_rest H ''/aaaa%20bbbb'' = Some ?u" "parse_rest H ''/aaaa%2'' = None"
  proof -
    have "\<not> list_ex is_ctl ''/aaaa%20bbbb''" "getScheme ''/aaaa%20bbbb'' = Some ([], ''/aaaa%20bbbb'')"
      "cut_query ''/aaaa%20bbbb'' = (False, [], ''/aaaa%20bbbb'')" "unescape ''/aaaa%20bbbb'' = Some ''/aaaa bbbb''"
      "escape path_plain ''/aaaa bbbb'' = ''/aaaa%20bbbb''"
      "\<not> list_ex is_ctl ''/aaaa%2''" "getScheme ''/aaaa%2'' = Some ([], ''/aaaa%2'')"
      "cut_query ''/aaaa%2'' = (False, [], ''/aaaa%2'')" "unescape ''/aaaa%2'' = None"
      by code_simp+
    then show "parse_rest H ''/aaaa%20bbbb'' = Some ?u" "parse_rest H ''/aaaa%2'' = None"
      by (simp_all add: parse_rest_def Let_def setPath_def ToLower_def empty_url_def)
  qed
  have b: "before CHR ''#'' ''/aaaa%20bbbb'' = ''/aaaa%20bbbb''" "after_char CHR ''#'' ''/aaaa%20bbbb'' = []"
    "before CHR ''#'' ''/aaaa%2'' = ''/aaaa%2''" "url_String (drop_private ?u) = ''/aaaa%20bbbb''"
    "EscapedPath (drop_private ?u) = ''/aaaa%20bbbb''" "truncateString ''/aaaa%20bbbb'' 7 = ''/aaaa%2''"
    by code_simp+
  have parse: "url_Parse H ''/aaaa%20bbbb'' = Some ?u" "url_Parse H ''/aaaa%2'' = None"
    by (simp_all add: url_Parse_def p b Let_def)
  have "truncateURLField H ''/aaaa%20bbbb'' 7 = ''/aaaa%2''"
    using b(4-6) by (simp add: truncateURLField_def parse Let_def empty_url_def)
  then show ?thesis by (simp add: validateURLField_def parse empty_url_def)
qed

end
