(* ===== verification/Config.thy ===== *)
theory Config
  imports Go_Strings "HOL-Library.AList"
begin

section \<open>Configuration\<close>

text \<open>
  \<open>internal/config/config.go\<close>. The environment is the function \<open>os.Getenv\<close>, which yields the
  empty string for a variable that is not set. A Go set \<open>map[string]struct{}\<close> is a set, the
  map from sites to origins an association list with one entry per site. Durations are
  nanoseconds. Every error return of \<open>Load\<close> is a constructor of \<open>config_error\<close>.
\<close>

definition DropPolicyReject :: string where "DropPolicyReject = ''reject''"

definition DropPolicyDropNewest :: string where "DropPolicyDropNewest = ''drop_newest''"

record config =
  cfg_ListenAddr :: string
  cfg_MetricsListenAddr :: string
  cfg_AllowedDomains :: "string list"
  cfg_AllowedDomainSet :: "string set"
  cfg_SiteOriginSet :: "(string \<times> string set) list"
  cfg_ElasticsearchURL :: string
  cfg_ElasticsearchAPIKey :: string
  cfg_ElasticsearchUsername :: string
  cfg_ElasticsearchPassword :: string
  cfg_DataStream :: string
  cfg_GeoIPDBPath :: string
  cfg_FlushInterval :: int
  cfg_MaxBatchSize :: int
  cfg_MaxQueueSize :: int
  cfg_MaxPayloadBytes :: int
  cfg_MaxEventsPerRequest :: int
  cfg_MaxFieldLength :: int
  cfg_MaxPayloadEntries :: int
  cfg_MaxPayloadDepth :: int
  cfg_MaxRetries :: int
  cfg_RetryMinBackoff :: int
  cfg_RetryMaxBackoff :: int
  cfg_TrustProxyHeaders :: bool
  cfg_CaptureClientIP :: bool
  cfg_StoreIPMetadata :: bool
  cfg_SanitizeURLs :: bool
  cfg_RequireOrigin :: bool
  cfg_RequireURLHostMatch :: bool
  cfg_BlockedUserAgents :: "string list"
  cfg_SuspectUserAgents :: "string list"
  cfg_RateLimitPerMinute :: int
  cfg_RateLimitMaxClients :: int
  cfg_DropPolicy :: string
  cfg_LogLevel :: string
  cfg_RetentionDays :: int
  cfg_RequireElasticReady :: bool
  cfg_MetricsEnabled :: bool
  cfg_ReadTimeout :: int
  cfg_WriteTimeout :: int
  cfg_IdleTimeout :: int
  cfg_CollectorVersion :: string

definition zero_config :: config where
  "zero_config = \<lparr>cfg_ListenAddr = [], cfg_MetricsListenAddr = [], cfg_AllowedDomains = [],
     cfg_AllowedDomainSet = {}, cfg_SiteOriginSet = [], cfg_ElasticsearchURL = [],
     cfg_ElasticsearchAPIKey = [], cfg_ElasticsearchUsername = [], cfg_ElasticsearchPassword = [],
     cfg_DataStream = [], cfg_GeoIPDBPath = [], cfg_FlushInterval = 0, cfg_MaxBatchSize = 0,
     cfg_MaxQueueSize = 0, cfg_MaxPayloadBytes = 0, cfg_MaxEventsPerRequest = 0,
     cfg_MaxFieldLength = 0, cfg_MaxPayloadEntries = 0, cfg_MaxPayloadDepth = 0,
     cfg_MaxRetries = 0, cfg_RetryMinBackoff = 0, cfg_RetryMaxBackoff = 0,
     cfg_TrustProxyHeaders = False, cfg_CaptureClientIP = False, cfg_StoreIPMetadata = False,
     cfg_SanitizeURLs = False, cfg_RequireOrigin = False, cfg_RequireURLHostMatch = False,
     cfg_BlockedUserAgents = [], cfg_SuspectUserAgents = [], cfg_RateLimitPerMinute = 0,
     cfg_RateLimitMaxClients = 0, cfg_DropPolicy = [], cfg_LogLevel = [],
     cfg_RetentionDays = 0, cfg_RequireElasticReady = False, cfg_MetricsEnabled = False,
     cfg_ReadTimeout = 0, cfg_WriteTimeout = 0, cfg_IdleTimeout = 0, cfg_CollectorVersion = []\<rparr>"

datatype config_error =
    InvalidDomain string
  | InvalidSiteMapping string
  | InvalidSiteOrigins string config_error
  | SiteWithoutOrigins string
  | Required string
  | CredentialsRequired
  | ParseError string
  | InvalidDropPolicy string
  | NumericNotPositive
  | DurationNotPositive
  | BackoffReversed

subsection \<open>Domains, origins and lists\<close>

definition normalizeDomain :: "host \<Rightarrow> string \<Rightarrow> string" where
  "normalizeDomain H v0 =
     (let v1 = TrimSpace (ToLower H v0);
          v2 = TrimPrefix v1 ''http://'';
          v3 = TrimPrefix v2 ''https://'';
          v4 = before CHR ''/'' v3;
          v5 = before CHR '':'' v4
      in TrimSpace v5)"

definition NormalizeDomain :: "host \<Rightarrow> string \<Rightarrow> string" where
  "NormalizeDomain H v = normalizeDomain H v"

fun add_domains :: "host \<Rightarrow> string list \<Rightarrow> string set \<Rightarrow> string list \<Rightarrow>
    config_error + string list \<times> string set" where
  "add_domains H [] seen domains = Inr (domains, seen)"
| "add_domains H (part # parts) seen domains =
     (let domain = normalizeDomain H part in
      if domain = [] then add_domains H parts seen domains
      else if contains ''/'' domain then Inl (InvalidDomain part)
      else if domain \<in> seen then add_domains H parts seen domains
      else add_domains H parts (insert domain seen) (domains @ [domain]))"

definition parseDomains :: "host \<Rightarrow> string \<Rightarrow> config_error + string list \<times> string set" where
  "parseDomains H raw = add_domains H (split_on CHR '','' raw) {} []"

text \<open>\<open>strings.SplitN(mapping, ":", 2)\<close> and \<open>strings.ReplaceAll(s, "|", ",")\<close>.\<close>

definition split_once :: "char \<Rightarrow> string \<Rightarrow> (string \<times> string) option" where
  "split_once c s = map_option (\<lambda>i. (take i s, drop (Suc i) s)) (index_of c s)"

definition bars_to_commas :: "string \<Rightarrow> string" where
  "bars_to_commas s = map (\<lambda>c. if c = CHR ''|'' then CHR '','' else c) s"

fun add_sites :: "host \<Rightarrow> string list \<Rightarrow> (string \<times> string set) list \<Rightarrow>
    config_error + (string \<times> string set) list" where
  "add_sites H [] res = Inr res"
| "add_sites H (m # ms) res =
     (let mapping = TrimSpace m in
      if mapping = [] then add_sites H ms res
      else (case split_once CHR '':'' mapping of
              None \<Rightarrow> Inl (InvalidSiteMapping mapping)
            | Some (left, right) \<Rightarrow>
                let siteID = TrimSpace left in
                if siteID = [] then Inl (InvalidSiteMapping mapping)
                else (case parseDomains H (bars_to_commas right) of
                        Inl err \<Rightarrow> Inl (InvalidSiteOrigins siteID err)
                      | Inr (origins, _) \<Rightarrow>
                          if origins = [] then Inl (SiteWithoutOrigins siteID)
                          else add_sites H ms (AList.update siteID (set origins) res))))"

definition parseSiteOrigins :: "host \<Rightarrow> string \<Rightarrow> config_error + (string \<times> string set) list" where
  "parseSiteOrigins H raw =
     (if TrimSpace raw = [] then Inr [] else add_sites H (split_on CHR '';'' raw) [])"

definition parseList :: "host \<Rightarrow> string \<Rightarrow> string list" where
  "parseList H raw =
     filter (\<lambda>p. p \<noteq> []) (map (\<lambda>p. TrimSpace (ToLower H p)) (split_on CHR '','' raw))"

subsection \<open>Scalars from the environment\<close>

definition is_digit :: "char \<Rightarrow> bool" where
  "is_digit c \<longleftrightarrow> 48 \<le> byte c \<and> byte c \<le> 57"

definition digits_value :: "string \<Rightarrow> int" where
  "digits_value s = foldl (\<lambda>n c. 10 * n + (int (byte c) - 48)) 0 s"

text \<open>\<open>strconv.Atoi\<close> and \<open>strconv.ParseInt(s, 10, 64)\<close> on a 64-bit machine.\<close>

definition parse_int64 :: "string \<Rightarrow> int option" where
  "parse_int64 s =
     (let neg = prefix ''-'' s;
          ds = (if neg \<or> prefix ''+'' s then drop 1 s else s);
          n = (if neg then - digits_value ds else digits_value ds)
      in if ds = [] \<or> \<not> list_all is_digit ds \<or> \<not> in_int64 n then None else Some n)"

definition parse_bool :: "string \<Rightarrow> bool option" where
  "parse_bool s =
     (if s \<in> {''1'', ''t'', ''T'', ''TRUE'', ''true'', ''True''} then Some True
      else if s \<in> {''0'', ''f'', ''F'', ''FALSE'', ''false'', ''False''} then Some False
      else None)"

text \<open>
  \<open>time.ParseDuration\<close>. The product of a fraction and its unit, which the library computes in
  \<open>float64\<close>, is the exact one here, rounded down.
\<close>

definition unit_map :: "string \<Rightarrow> int option" where
  "unit_map u =
     (if u = ''ns'' then Some 1
      else if u = ''us'' \<or> u = [chr 194, chr 181, CHR ''s''] \<or> u = [chr 206, chr 188, CHR ''s'']
      then Some 1000
      else if u = ''ms'' then Some 1000000
      else if u = ''s'' then Some 1000000000
      else if u = ''m'' then Some 60000000000
      else if u = ''h'' then Some 3600000000000
      else None)"

fun frac_loop :: "string \<Rightarrow> int \<Rightarrow> int \<Rightarrow> int \<times> int" where
  "frac_loop [] f scale = (f, scale)"
| "frac_loop (c # s) f scale =
     (let y = f * 10 + (int (byte c) - 48) in
      if f > (2 ^ 63 - 1) div 10 \<or> y > 2 ^ 63 then (f, scale) else frac_loop s y (scale * 10))"

text \<open>The optional fraction: whether there is a point, the digits and the rest.\<close>

definition cut_fraction :: "string \<Rightarrow> string \<times> string" where
  "cut_fraction s =
     (if prefix ''.'' s then (takeWhile is_digit (drop 1 s), dropWhile is_digit (drop 1 s)) else ([], s))"

definition unit_char :: "char \<Rightarrow> bool" where
  "unit_char c \<longleftrightarrow> c \<noteq> CHR ''.'' \<and> \<not> is_digit c"

text \<open>One number with its unit: its nanoseconds and the rest of the string.\<close>

definition duration_term :: "string \<Rightarrow> (int \<times> string) option" where
  "duration_term s =
     (let whole = takeWhile is_digit s; v = digits_value whole;
          (frac, s2) = cut_fraction (dropWhile is_digit s);
          u = takeWhile unit_char s2
      in if v > 2 ^ 63 \<or> whole = [] \<and> frac = [] \<or> u = [] then None
         else (case unit_map u of
                 None \<Rightarrow> None
               | Some un \<Rightarrow>
                   if v > 2 ^ 63 div un then None
                   else let (f, scale) = frac_loop frac 0 1;
                            v1 = v * un + f * un div scale
                        in if v1 > 2 ^ 63 then None else Some (v1, dropWhile unit_char s2)))"

lemma cut_fraction_length: "length (snd (cut_fraction s)) \<le> length s"
  by (auto simp: cut_fraction_def length_dropWhile_le intro: le_trans [OF length_dropWhile_le])

lemma dropWhile_shorter: "takeWhile P s \<noteq> [] \<Longrightarrow> length (dropWhile P s) < length s"
  by (cases s) (auto simp: less_Suc_eq_le length_dropWhile_le split: if_splits)

lemma duration_term_shorter:
  assumes "duration_term s = Some (v, s')"
  shows "length s' < length s"
proof -
  define s2 where "s2 = snd (cut_fraction (dropWhile is_digit s))"
  have "length s2 \<le> length s"
    unfolding s2_def by (rule le_trans [OF cut_fraction_length length_dropWhile_le])
  moreover have "takeWhile unit_char s2 \<noteq> []" "s' = dropWhile unit_char s2"
    using assms by (auto simp: duration_term_def Let_def s2_def split: prod.splits if_splits option.splits)
  ultimately show ?thesis using dropWhile_shorter [of unit_char s2] by simp
qed

function duration_sum :: "string \<Rightarrow> int \<Rightarrow> int option" where
  "duration_sum s d =
     (if s = [] then Some d
      else (case duration_term s of
              None \<Rightarrow> None
            | Some (v, s') \<Rightarrow>
                let d' = (d + v) mod 2 ^ 64 in
                if d' > 2 ^ 63 then None else duration_sum s' d'))"
  by pat_completeness auto
termination
  by (relation "measure (\<lambda>(s, d). length s)") (auto dest: duration_term_shorter)

declare duration_sum.simps [simp del]

definition ParseDuration :: "string \<Rightarrow> int option" where
  "ParseDuration s0 =
     (let neg = prefix ''-'' s0;
          s = (if neg \<or> prefix ''+'' s0 then drop 1 s0 else s0)
      in if s = ''0'' then Some 0
         else if s = [] then None
         else (case duration_sum s 0 of
                 None \<Rightarrow> None
               | Some d \<Rightarrow> if neg then Some (wrap64 (- d)) else if d > 2 ^ 63 - 1 then None else Some d))"

type_synonym env = "string \<Rightarrow> string"

definition envOrDefault :: "env \<Rightarrow> string \<Rightarrow> string \<Rightarrow> string" where
  "envOrDefault env key def = (let val = TrimSpace (env key) in if val \<noteq> [] then val else def)"

text \<open>\<open>duration\<close>, \<open>intValue\<close>, \<open>int64Value\<close> and \<open>boolValue\<close> differ in the parser only.\<close>

definition env_value :: "(string \<Rightarrow> 'a option) \<Rightarrow> env \<Rightarrow> string \<Rightarrow> 'a \<Rightarrow> config_error + 'a" where
  "env_value parse env key def =
     (let raw = TrimSpace (env key) in
      if raw = [] then Inr def
      else (case parse raw of None \<Rightarrow> Inl (ParseError key) | Some v \<Rightarrow> Inr v))"

definition duration :: "env \<Rightarrow> string \<Rightarrow> int \<Rightarrow> config_error + int" where
  "duration = env_value ParseDuration"

definition intValue :: "env \<Rightarrow> string \<Rightarrow> int \<Rightarrow> config_error + int" where
  "intValue = env_value parse_int64"

definition int64Value :: "env \<Rightarrow> string \<Rightarrow> int \<Rightarrow> config_error + int" where
  "int64Value = env_value parse_int64"

definition boolValue :: "env \<Rightarrow> string \<Rightarrow> bool \<Rightarrow> config_error + bool" where
  "boolValue = env_value parse_bool"

subsection \<open>Load\<close>

definition bindE :: "'e + 'a \<Rightarrow> ('a \<Rightarrow> 'e + 'b) \<Rightarrow> 'e + 'b" where
  "bindE m f = (case m of Inl err \<Rightarrow> Inl err | Inr x \<Rightarrow> f x)"

text \<open>
  One statement \<open>if cfg.F, err = get(...); err != nil { return Config{}, err }\<close>: the value that
  was read, stored in the configuration. The statements of \<open>Load\<close> run in their order and the
  first error ends the load.
\<close>

definition store :: "('a \<Rightarrow> config \<Rightarrow> config) \<Rightarrow> config_error + 'a \<Rightarrow> config \<Rightarrow> config_error + config" where
  "store put val cfg = bindE val (\<lambda>v. Inr (put v cfg))"

fun run_stores :: "(config \<Rightarrow> config_error + config) list \<Rightarrow> config \<Rightarrow> config_error + config" where
  "run_stores [] cfg = Inr cfg"
| "run_stores (st # sts) cfg = bindE (st cfg) (run_stores sts)"

definition second :: int where "second = 1000000000"

definition load_scalars :: "env \<Rightarrow> (config \<Rightarrow> config_error + config) list" where
  "load_scalars env = [
     store (\<lambda>v c. c\<lparr>cfg_FlushInterval := v\<rparr>) (duration env ''FLUSH_INTERVAL'' (5 * second)),
     store (\<lambda>v c. c\<lparr>cfg_MaxBatchSize := v\<rparr>) (intValue env ''MAX_BATCH_SIZE'' 500),
     store (\<lambda>v c. c\<lparr>cfg_MaxQueueSize := v\<rparr>) (intValue env ''MAX_QUEUE_SIZE'' 10000),
     store (\<lambda>v c. c\<lparr>cfg_MaxPayloadBytes := v\<rparr>) (int64Value env ''MAX_PAYLOAD_BYTES'' 1048576),
     store (\<lambda>v c. c\<lparr>cfg_MaxEventsPerRequest := v\<rparr>) (intValue env ''MAX_EVENTS_PER_REQUEST'' 100),
     store (\<lambda>v c. c\<lparr>cfg_MaxFieldLength := v\<rparr>) (intValue env ''MAX_FIELD_LENGTH'' 10240),
     store (\<lambda>v c. c\<lparr>cfg_MaxPayloadEntries := v\<rparr>) (intValue env ''MAX_PAYLOAD_ENTRIES'' 128),
     store (\<lambda>v c. c\<lparr>cfg_MaxPayloadDepth := v\<rparr>) (intValue env ''MAX_PAYLOAD_DEPTH'' 4),
     store (\<lambda>v c. c\<lparr>cfg_MaxRetries := v\<rparr>) (intValue env ''MAX_RETRIES'' 10),
     store (\<lambda>v c. c\<lparr>cfg_RetryMinBackoff := v\<rparr>) (duration env ''RETRY_MIN_BACKOFF'' second),
     store (\<lambda>v c. c\<lparr>cfg_RetryMaxBackoff := v\<rparr>) (duration env ''RETRY_MAX_BACKOFF'' (60 * second)),
     store (\<lambda>v c. c\<lparr>cfg_RetentionDays := v\<rparr>) (intValue env ''RETENTION_DAYS'' 90),
     store (\<lambda>v c. c\<lparr>cfg_TrustProxyHeaders := v\<rparr>) (boolValue env ''TRUST_PROXY_HEADERS'' True),
     store (\<lambda>v c. c\<lparr>cfg_CaptureClientIP := v\<rparr>) (boolValue env ''CAPTURE_CLIENT_IP'' False),
     store (\<lambda>v c. c\<lparr>cfg_StoreIPMetadata := v\<rparr>) (boolValue env ''STORE_IP_METADATA'' False),
     store (\<lambda>v c. c\<lparr>cfg_SanitizeURLs := v\<rparr>) (boolValue env ''SANITIZE_URLS'' True),
     store (\<lambda>v c. c\<lparr>cfg_RequireOrigin := v\<rparr>) (boolValue env ''REQUIRE_ORIGIN'' True),
     store (\<lambda>v c. c\<lparr>cfg_RequireURLHostMatch := v\<rparr>) (boolValue env ''REQUIRE_URL_HOST_MATCH'' True),
     store (\<lambda>v c. c\<lparr>cfg_RequireElasticReady := v\<rparr>) (boolValue env ''REQUIRE_ELASTIC_READY'' False),
     store (\<lambda>v c. c\<lparr>cfg_MetricsEnabled := v\<rparr>) (boolValue env ''METRICS_ENABLED'' False),
     store (\<lambda>v c. c\<lparr>cfg_ReadTimeout := v\<rparr>) (duration env ''READ_TIMEOUT'' (10 * second)),
     store (\<lambda>v c. c\<lparr>cfg_WriteTimeout := v\<rparr>) (duration env ''WRITE_TIMEOUT'' (15 * second)),
     store (\<lambda>v c. c\<lparr>cfg_IdleTimeout := v\<rparr>) (duration env ''IDLE_TIMEOUT'' (60 * second)),
     store (\<lambda>v c. c\<lparr>cfg_RateLimitPerMinute := v\<rparr>) (intValue env ''RATE_LIMIT_PER_MINUTE'' 300),
     store (\<lambda>v c. c\<lparr>cfg_RateLimitMaxClients := v\<rparr>) (intValue env ''RATE_LIMIT_MAX_CLIENTS'' 100000)]"

definition load_strings :: "string \<Rightarrow> env \<Rightarrow> config" where
  "load_strings version env = zero_config\<lparr>
     cfg_ListenAddr := envOrDefault env ''LISTEN_ADDR'' '':8080'',
     cfg_MetricsListenAddr := envOrDefault env ''METRICS_LISTEN_ADDR'' '':9090'',
     cfg_ElasticsearchURL := TrimSpace (env ''ELASTICSEARCH_URL''),
     cfg_ElasticsearchAPIKey := TrimSpace (env ''ELASTICSEARCH_API_KEY''),
     cfg_ElasticsearchUsername := TrimSpace (env ''ELASTICSEARCH_USERNAME''),
     cfg_ElasticsearchPassword := TrimSpace (env ''ELASTICSEARCH_PASSWORD''),
     cfg_DataStream := envOrDefault env ''ELASTICSEARCH_DATA_STREAM'' ''web-analytics'',
     cfg_GeoIPDBPath := TrimSpace (env ''GEOIP_DB_PATH''),
     cfg_LogLevel := envOrDefault env ''LOG_LEVEL'' ''info'',
     cfg_CollectorVersion := version\<rparr>"

definition check_required :: "config \<Rightarrow> config_error + config" where
  "check_required cfg =
     (if cfg_AllowedDomains cfg = [] then Inl (Required ''ALLOWED_DOMAINS'')
      else if cfg_ElasticsearchURL cfg = [] then Inl (Required ''ELASTICSEARCH_URL'')
      else if cfg_GeoIPDBPath cfg = [] then Inl (Required ''GEOIP_DB_PATH'')
      else if cfg_ElasticsearchAPIKey cfg = [] \<and>
        (cfg_ElasticsearchUsername cfg = [] \<or> cfg_ElasticsearchPassword cfg = [])
      then Inl CredentialsRequired
      else Inr cfg)"

definition load_lists :: "host \<Rightarrow> env \<Rightarrow> config \<Rightarrow> config" where
  "load_lists H env cfg = cfg\<lparr>
     cfg_BlockedUserAgents := parseList H (envOrDefault env ''BLOCKED_USER_AGENTS''
       ''bot,crawler,spider,curl,wget,python-requests,python-urllib,go-http-client''),
     cfg_SuspectUserAgents := parseList H (envOrDefault env ''SUSPECT_USER_AGENTS''
       ''headless,playwright,puppeteer,selenium,phantomjs''),
     cfg_DropPolicy := envOrDefault env ''DROP_POLICY'' DropPolicyReject\<rparr>"

definition check_values :: "config \<Rightarrow> config_error + config" where
  "check_values cfg =
     (if cfg_DropPolicy cfg \<noteq> DropPolicyReject \<and> cfg_DropPolicy cfg \<noteq> DropPolicyDropNewest
      then Inl (InvalidDropPolicy (cfg_DropPolicy cfg))
      else if cfg_MaxBatchSize cfg \<le> 0 \<or> cfg_MaxQueueSize cfg \<le> 0 \<or> cfg_MaxPayloadBytes cfg \<le> 0 \<or>
        cfg_MaxEventsPerRequest cfg \<le> 0 \<or> cfg_MaxFieldLength cfg \<le> 0 \<or>
        cfg_MaxPayloadEntries cfg \<le> 0 \<or> cfg_MaxPayloadDepth cfg \<le> 0 \<or> cfg_MaxRetries cfg < 0 \<or>
        cfg_RateLimitPerMinute cfg < 0 \<or> cfg_RateLimitMaxClients cfg \<le> 0
      then Inl NumericNotPositive
      else if cfg_FlushInterval cfg \<le> 0 \<or> cfg_RetryMinBackoff cfg \<le> 0 \<or> cfg_RetryMaxBackoff cfg \<le> 0 \<or>
        cfg_ReadTimeout cfg \<le> 0 \<or> cfg_WriteTimeout cfg \<le> 0 \<or> cfg_IdleTimeout cfg \<le> 0
      then Inl DurationNotPositive
      else if cfg_RetryMinBackoff cfg > cfg_RetryMaxBackoff cfg then Inl BackoffReversed
      else Inr cfg)"

definition Load :: "host \<Rightarrow> string \<Rightarrow> env \<Rightarrow> config_error + config" where
  "Load H version env =
     bindE (parseDomains H (env ''ALLOWED_DOMAINS'')) (\<lambda>(domains, domainSet).
     bindE (parseSiteOrigins H (env ''SITE_ORIGIN_MAP'')) (\<lambda>sites.
     bindE (check_required ((load_strings version env)\<lparr>cfg_AllowedDomains := domains,
       cfg_AllowedDomainSet := domainSet, cfg_SiteOriginSet := sites\<rparr>)) (\<lambda>cfg1.
     bindE (run_stores (load_scalars env) cfg1) (\<lambda>cfg2.
     check_values (load_lists H env cfg2)))))"

subsection \<open>What the parsers guarantee\<close>

lemma TrimPrefix_set: "set (TrimPrefix s p) \<subseteq> set s"
  by (auto simp: TrimPrefix_def dest: in_set_dropD)

lemma normalizeDomain_chars:
  "CHR ''/'' \<notin> set (normalizeDomain H v)" "CHR '':'' \<notin> set (normalizeDomain H v)"
proof -
  let ?v4 = "before CHR ''/'' (TrimPrefix (TrimPrefix (TrimSpace (ToLower H v)) ''http://'') ''https://'')"
  have "set (normalizeDomain H v) \<subseteq> set (before CHR '':'' ?v4)"
    by (simp add: normalizeDomain_def set_TrimSpace Let_def)
  then show "CHR ''/'' \<notin> set (normalizeDomain H v)" "CHR '':'' \<notin> set (normalizeDomain H v)"
    using before_notin [of "CHR '':''" ?v4] before_notin [of "CHR ''/''"] set_before [of "CHR '':''" ?v4]
    by blast+
qed

lemma normalizeDomain_trimmed: "TrimSpace (normalizeDomain H v) = normalizeDomain H v"
  by (simp add: normalizeDomain_def Let_def)

lemma contains_char: "contains [c] s \<longleftrightarrow> c \<in> set s"
  by (induction s) (auto simp: prefix_Cons)

text \<open>The parsed list holds each normalised, non-empty domain once, and the set is its set.\<close>

lemma add_domains_spec:
  assumes "set domains = seen" "distinct domains"
  shows "\<exists>ds. add_domains H parts seen domains = Inr (ds, set ds) \<and> distinct ds \<and>
    set ds = seen \<union> (normalizeDomain H ` set parts - {[]})"
  using assms
proof (induction parts arbitrary: seen domains)
  case Nil
  then show ?case by auto
next
  case (Cons part parts)
  let ?d = "normalizeDomain H part"
  have "\<not> contains ''/'' ?d" by (simp add: contains_char normalizeDomain_chars)
  moreover have "\<exists>ds. add_domains H parts (insert ?d seen) (domains @ [?d]) = Inr (ds, set ds) \<and>
      distinct ds \<and> set ds = insert ?d seen \<union> (normalizeDomain H ` set parts - {[]})"
    if "?d \<notin> seen" using Cons.IH [of "domains @ [?d]" "insert ?d seen"] Cons.prems that by auto
  ultimately show ?case
    using Cons.IH [OF Cons.prems] by (auto simp: Let_def)
qed

lemma parseDomains_spec:
  "\<exists>ds. parseDomains H raw = Inr (ds, set ds) \<and> distinct ds \<and>
    set ds = normalizeDomain H ` set (split_on CHR '','' raw) - {[]}"
  using add_domains_spec [of "[]" "{}" H "split_on CHR '','' raw"] by (simp add: parseDomains_def)

lemma add_sites_nonempty:
  assumes "add_sites H ms res = Inr sites" "\<forall>(site, origins)\<in>set res. site \<noteq> [] \<and> origins \<noteq> {}"
    "distinct (map fst res)"
  shows "(\<forall>(site, origins)\<in>set sites. site \<noteq> [] \<and> origins \<noteq> {}) \<and> distinct (map fst sites)"
  using assms
proof (induction ms arbitrary: res)
  case Nil
  then show ?case by auto
next
  case (Cons m ms)
  let ?m = "TrimSpace m"
  show ?case
  proof (cases "?m = []")
    case True
    then show ?thesis using Cons by simp
  next
    case False
    then obtain left right where lr: "split_once CHR '':'' ?m = Some (left, right)"
      using Cons.prems(1) by (auto simp: Let_def split: option.splits)
    then have site: "TrimSpace left \<noteq> []"
      using Cons.prems(1) False by (auto simp: Let_def split: if_splits)
    obtain ds where ds: "parseDomains H (bars_to_commas right) = Inr (ds, set ds)"
      using parseDomains_spec by blast
    have "ds \<noteq> []" using Cons.prems(1) False lr site ds by (auto simp: Let_def)
    then have "add_sites H ms (AList.update (TrimSpace left) (set ds) res) = Inr sites"
      using Cons.prems(1) False lr site ds by (simp add: Let_def)
    moreover have "\<forall>(s, origins)\<in>set (AList.update (TrimSpace left) (set ds) res). s \<noteq> [] \<and> origins \<noteq> {}"
      using site \<open>ds \<noteq> []\<close> Cons.prems(2) by (induction res) (auto split: if_splits)
    ultimately show ?thesis
      by (rule Cons.IH) (simp add: distinct_update Cons.prems(3))
  qed
qed

lemma parseSiteOrigins_nonempty:
  assumes "parseSiteOrigins H raw = Inr sites"
  shows "(\<forall>(site, origins)\<in>set sites. site \<noteq> [] \<and> origins \<noteq> {}) \<and> distinct (map fst sites)"
  using assms add_sites_nonempty [of H _ "[]" sites]
  by (auto simp: parseSiteOrigins_def split: if_splits)

subsection \<open>What the durations guarantee\<close>

lemma duration_sum_range:
  assumes "duration_sum s d = Some d'" "0 \<le> d" "d \<le> 2 ^ 63"
  shows "0 \<le> d' \<and> d' \<le> 2 ^ 63"
  using assms
proof (induction s d rule: duration_sum.induct)
  case (1 s d)
  show ?case
  proof (cases "s = []")
    case True
    with 1 show ?thesis by (simp add: duration_sum.simps [of "[]" d])
  next
    case False
    with 1 show ?thesis
      by (auto simp: duration_sum.simps [of s d] Let_def split: option.splits if_splits)
  qed
qed

lemma ParseDuration_int64: "ParseDuration s = Some d \<Longrightarrow> in_int64 d"
  using duration_sum_range [of _ 0] wrap64_in_int64
  by (fastforce simp: ParseDuration_def Let_def in_int64_def split: if_splits option.splits)

lemma duration_int64: "duration env key def = Inr d \<Longrightarrow> in_int64 def \<Longrightarrow> in_int64 d"
  by (auto simp: duration_def env_value_def Let_def dest: ParseDuration_int64 split: if_splits option.splits)

subsection \<open>What Load guarantees\<close>

lemma bindE_Inr: "bindE m f = Inr x \<longleftrightarrow> (\<exists>y. m = Inr y \<and> f y = Inr x)"
  by (cases m) (auto simp: bindE_def)

definition keeps :: "(config \<Rightarrow> bool) \<Rightarrow> (config \<Rightarrow> config_error + config) \<Rightarrow> bool" where
  "keeps P st \<longleftrightarrow> (\<forall>c c'. st c = Inr c' \<longrightarrow> P c \<longrightarrow> P c')"

lemma run_stores_keep:
  assumes "run_stores sts c = Inr c'" "list_all (keeps P) sts" "P c"
  shows "P c'"
  using assms by (induction sts arbitrary: c) (auto simp: bindE_Inr keeps_def)

lemma store_keeps: "(\<And>v c. val = Inr v \<Longrightarrow> P c \<Longrightarrow> P (put v c)) \<Longrightarrow> keeps P (store put val)"
  by (auto simp: keeps_def store_def bindE_Inr)

text \<open>
  What the scalar statements of \<open>Load\<close> keep of a configuration: the fields set before, and
  durations that fit an \<open>int64\<close>.
\<close>

definition load_frame :: "config \<Rightarrow> config \<Rightarrow> bool" where
  "load_frame c0 c \<longleftrightarrow> cfg_AllowedDomains c = cfg_AllowedDomains c0 \<and>
     cfg_AllowedDomainSet c = cfg_AllowedDomainSet c0 \<and> cfg_SiteOriginSet c = cfg_SiteOriginSet c0 \<and>
     cfg_ElasticsearchURL c = cfg_ElasticsearchURL c0 \<and> cfg_GeoIPDBPath c = cfg_GeoIPDBPath c0 \<and>
     cfg_ElasticsearchAPIKey c = cfg_ElasticsearchAPIKey c0 \<and>
     cfg_ElasticsearchUsername c = cfg_ElasticsearchUsername c0 \<and>
     cfg_ElasticsearchPassword c = cfg_ElasticsearchPassword c0 \<and>
     in_int64 (cfg_RetryMinBackoff c) \<and> in_int64 (cfg_RetryMaxBackoff c)"

lemma load_scalars_keep: "list_all (keeps (load_frame c0)) (load_scalars env)"
  unfolding load_scalars_def list.pred_inject
  by (intro conjI TrueI store_keeps)
    (simp_all add: load_frame_def duration_int64 second_def in_int64_def [of 1000000000]
      in_int64_def [of 60000000000])

lemma load_scalars_frame:
  assumes "run_stores (load_scalars env) c = Inr c'" "load_frame c c"
  shows "load_frame c c'"
  by (rule run_stores_keep [OF assms(1) load_scalars_keep assms(2)])

text \<open>What the other parts of the collector assume of their configuration.\<close>

definition config_ok :: "config \<Rightarrow> bool" where
  "config_ok cfg \<longleftrightarrow>
     0 < cfg_MaxBatchSize cfg \<and> 0 < cfg_MaxQueueSize cfg \<and> 0 < cfg_MaxPayloadBytes cfg \<and>
     0 < cfg_MaxEventsPerRequest cfg \<and> 0 < cfg_MaxFieldLength cfg \<and> 0 < cfg_MaxPayloadEntries cfg \<and>
     0 < cfg_MaxPayloadDepth cfg \<and> 0 \<le> cfg_MaxRetries cfg \<and> 0 \<le> cfg_RateLimitPerMinute cfg \<and>
     0 < cfg_RateLimitMaxClients cfg \<and> 0 < cfg_FlushInterval cfg \<and> 0 < cfg_RetryMinBackoff cfg \<and>
     cfg_RetryMinBackoff cfg \<le> cfg_RetryMaxBackoff cfg \<and> cfg_RetryMaxBackoff cfg \<le> max_int64 \<and>
     0 < cfg_ReadTimeout cfg \<and> 0 < cfg_WriteTimeout cfg \<and> 0 < cfg_IdleTimeout cfg \<and>
     (cfg_DropPolicy cfg = DropPolicyReject \<or> cfg_DropPolicy cfg = DropPolicyDropNewest)"

lemma check_values_ok:
  assumes "check_values cfg = Inr cfg'" "in_int64 (cfg_RetryMaxBackoff cfg)"
  shows "cfg' = cfg \<and> config_ok cfg"
  using assms by (auto simp: check_values_def config_ok_def in_int64_def max_int64_def split: if_splits)

lemma check_required_ok:
  assumes "check_required cfg = Inr cfg'"
  shows "cfg' = cfg \<and> cfg_AllowedDomains cfg \<noteq> [] \<and> cfg_ElasticsearchURL cfg \<noteq> [] \<and>
    cfg_GeoIPDBPath cfg \<noteq> [] \<and> (cfg_ElasticsearchAPIKey cfg \<noteq> [] \<or>
      cfg_ElasticsearchUsername cfg \<noteq> [] \<and> cfg_ElasticsearchPassword cfg \<noteq> [])"
  using assms by (auto simp: check_required_def split: if_splits)

lemma load_lists_frame: "load_frame c0 (load_lists H env c) = load_frame c0 c"
  by (simp add: load_lists_def load_frame_def)

lemma Load_cases:
  assumes "Load H version env = Inr cfg"
  obtains domains sites c1 c2 where
    "parseDomains H (env ''ALLOWED_DOMAINS'') = Inr (domains, set domains)"
    "parseSiteOrigins H (env ''SITE_ORIGIN_MAP'') = Inr sites"
    "c1 = (load_strings version env)\<lparr>cfg_AllowedDomains := domains,
       cfg_AllowedDomainSet := set domains, cfg_SiteOriginSet := sites\<rparr>"
    "check_required c1 = Inr c1" "run_stores (load_scalars env) c1 = Inr c2"
    "check_values (load_lists H env c2) = Inr cfg"
proof -
  obtain ds where ds: "parseDomains H (env ''ALLOWED_DOMAINS'') = Inr (ds, set ds)"
    using parseDomains_spec by blast
  with assms obtain sites c1 c2 where "parseSiteOrigins H (env ''SITE_ORIGIN_MAP'') = Inr sites"
    "check_required ((load_strings version env)\<lparr>cfg_AllowedDomains := ds,
       cfg_AllowedDomainSet := set ds, cfg_SiteOriginSet := sites\<rparr>) = Inr c1"
    "run_stores (load_scalars env) c1 = Inr c2" "check_values (load_lists H env c2) = Inr cfg"
    by (auto simp: Load_def bindE_Inr)
  with ds that check_required_ok show thesis by blast
qed

lemma load_strings_frame:
  "load_frame ((load_strings version env)\<lparr>cfg_AllowedDomains := ds, cfg_AllowedDomainSet := D,
     cfg_SiteOriginSet := sites\<rparr>) ((load_strings version env)\<lparr>cfg_AllowedDomains := ds,
     cfg_AllowedDomainSet := D, cfg_SiteOriginSet := sites\<rparr>)"
  by (simp add: load_frame_def load_strings_def zero_config_def in_int64_def)

lemma Load_spec:
  assumes "Load H version env = Inr cfg"
  shows "config_ok cfg \<and> cfg_AllowedDomains cfg \<noteq> [] \<and> distinct (cfg_AllowedDomains cfg) \<and>
    cfg_AllowedDomainSet cfg = set (cfg_AllowedDomains cfg) \<and>
    (\<forall>d\<in>cfg_AllowedDomainSet cfg. d \<noteq> [] \<and> CHR ''/'' \<notin> set d \<and> CHR '':'' \<notin> set d \<and> TrimSpace d = d) \<and>
    cfg_ElasticsearchURL cfg \<noteq> [] \<and> cfg_GeoIPDBPath cfg \<noteq> [] \<and>
    (cfg_ElasticsearchAPIKey cfg \<noteq> [] \<or>
      cfg_ElasticsearchUsername cfg \<noteq> [] \<and> cfg_ElasticsearchPassword cfg \<noteq> []) \<and>
    distinct (map fst (cfg_SiteOriginSet cfg)) \<and>
    (\<forall>(site, origins)\<in>set (cfg_SiteOriginSet cfg). site \<noteq> [] \<and> origins \<noteq> {})"
  using assms
proof (cases rule: Load_cases)
  case (1 domains sites c1 c2)
  have "load_frame c1 c2" using 1(3,5) load_scalars_frame load_strings_frame by blast
  then have fr: "load_frame c1 (load_lists H env c2)" by (simp add: load_lists_frame)
  then have ok: "cfg = load_lists H env c2" "config_ok cfg"
    using check_values_ok [OF 1(6)] by (auto simp: load_frame_def)
  have "distinct domains" "\<forall>d\<in>set domains. \<exists>v. d = normalizeDomain H v \<and> d \<noteq> []"
    using parseDomains_spec [of H "env ''ALLOWED_DOMAINS''"] 1(1) by auto
  then have "\<forall>d\<in>set domains. d \<noteq> [] \<and> CHR ''/'' \<notin> set d \<and> CHR '':'' \<notin> set d \<and> TrimSpace d = d"
    using normalizeDomain_chars normalizeDomain_trimmed by metis
  moreover note \<open>distinct domains\<close>
  moreover have "cfg_AllowedDomains cfg = domains \<and> cfg_AllowedDomainSet cfg = set domains \<and>
      cfg_SiteOriginSet cfg = sites"
    using fr 1(3) by (simp add: ok(1) load_frame_def)
  moreover have "cfg_ElasticsearchURL cfg = cfg_ElasticsearchURL c1" "cfg_GeoIPDBPath cfg = cfg_GeoIPDBPath c1"
    "cfg_ElasticsearchAPIKey cfg = cfg_ElasticsearchAPIKey c1"
    "cfg_ElasticsearchUsername cfg = cfg_ElasticsearchUsername c1"
    "cfg_ElasticsearchPassword cfg = cfg_ElasticsearchPassword c1"
    using fr by (simp_all add: ok(1) load_frame_def)
  moreover have "domains \<noteq> []" using check_required_ok [OF 1(4)] 1(3) by simp
  ultimately show ?thesis
    using ok(2) check_required_ok [OF 1(4)] parseSiteOrigins_nonempty [OF 1(2)] by simp
qed

subsection \<open>Properties\<close>

text \<open>
  C16: What a successful \<open>Load\<close> guarantees, whatever the environment: every bound and duration is
  positive, the backoffs are ordered and fit their type, the drop policy is one of the two, the
  list of allowed domains is not empty, without duplicates and the same set as the one that is
  looked up, each domain normalised, the required settings are there, and every mapped site has
  at least one origin.
\<close>

theorem load_validates:
  assumes "Load H version env = Inr cfg"
  shows "config_ok cfg \<and> cfg_AllowedDomains cfg \<noteq> [] \<and> distinct (cfg_AllowedDomains cfg) \<and>
    cfg_AllowedDomainSet cfg = set (cfg_AllowedDomains cfg) \<and>
    (\<forall>d\<in>cfg_AllowedDomainSet cfg. d \<noteq> [] \<and> CHR ''/'' \<notin> set d \<and> CHR '':'' \<notin> set d \<and> TrimSpace d = d) \<and>
    cfg_ElasticsearchURL cfg \<noteq> [] \<and> cfg_GeoIPDBPath cfg \<noteq> [] \<and>
    (cfg_ElasticsearchAPIKey cfg \<noteq> [] \<or>
      cfg_ElasticsearchUsername cfg \<noteq> [] \<and> cfg_ElasticsearchPassword cfg \<noteq> []) \<and>
    distinct (map fst (cfg_SiteOriginSet cfg)) \<and>
    (\<forall>(site, origins)\<in>set (cfg_SiteOriginSet cfg). site \<noteq> [] \<and> origins \<noteq> {})"
  using Load_spec [OF assms] .

definition witness_host :: host where
  "witness_host = \<lparr>h_lowerRune = id, h_upperRune = id, h_loadLocation = (\<lambda>_. True), h_parseHost = (\<lambda>_ _. None),
     h_floatToInt64 = (\<lambda>_. 0), h_newParser = False,
     h_parseUA = (\<lambda>_. None)\<rparr>"

definition witness_environ :: env where
  "witness_environ k =
     (if k = ''ALLOWED_DOMAINS'' then ''https://Ex.com/, ex.com,b.c:443''
      else if k = ''ELASTICSEARCH_URL'' then ''http://es:9200''
      else if k = ''ELASTICSEARCH_API_KEY'' then '' key ''
      else if k = ''GEOIP_DB_PATH'' then ''/geo.mmdb''
      else if k = ''RETRY_MAX_BACKOFF'' then ''1m30.5s''
      else if k = ''BLOCKED_USER_AGENTS'' then ''bot''
      else if k = ''SUSPECT_USER_AGENTS'' then ''phantom''
      else if k = ''SITE_ORIGIN_MAP'' then ''s:ex.com|b.c''
      else [])"

lemma witness_loads: "\<exists>cfg. Load witness_host ''v1'' witness_environ = Inr cfg"
proof -
  have "\<not> isl (Load witness_host ''v1'' witness_environ)" by code_simp
  then show ?thesis by (metis isl_def sum.exhaust)
qed

theorem load_validates_witness:
  "\<exists>cfg. Load witness_host ''v1'' witness_environ = Inr cfg \<and> config_ok cfg \<and>
     cfg_RetryMaxBackoff cfg = 90500000000 \<and> cfg_AllowedDomains cfg = [''ex.com'', ''b.c'']"
proof -
  let ?r = "Load witness_host ''v1'' witness_environ"
  have "case ?r of Inl err \<Rightarrow> False | Inr cfg \<Rightarrow> cfg_RetryMaxBackoff cfg = 90500000000 \<and>
      cfg_AllowedDomains cfg = [''ex.com'', ''b.c'']" by code_simp
  then show ?thesis using load_validates [of witness_host "''v1''" witness_environ]
    by (auto split: sum.splits)
qed

text \<open>
  Parsing the allowed domains never fails: the result is the list of the normalised non-empty
  parts, each once, with its set. So the branch of the code that reports a domain containing a
  slash, and with it the nested error of the site mapping, is never taken.
\<close>

theorem parse_domains_total:
  "\<exists>ds. parseDomains H raw = Inr (ds, set ds) \<and> distinct ds \<and>
     set ds = normalizeDomain H ` set (split_on CHR '','' raw) - {[]}"
  by (rule parseDomains_spec)

end
