(* ===== verification/Rfc3339.thy ===== *)
theory Rfc3339
  imports Url
begin

section \<open>Dates and times\<close>

text \<open>
  What the code uses of package \<open>time\<close>: instants as nanoseconds since Go's zero time (1 January of
  year 1, UTC), the proleptic Gregorian calendar, \<open>Format\<close> with \<open>RFC3339Nano\<close> for times in UTC
  and \<open>Parse\<close> with the same layout, which is what \<open>Time.UnmarshalJSON\<close> reads, too (its stricter
  checks are switched off in the library). \<open>Parse\<close> is more lenient than RFC 3339: the hour may have
  one digit, the fraction may follow a comma and have any number of digits, an offset may be as
  large as 24 hours and 60 minutes.
\<close>

subsection \<open>Decimal digits\<close>

function nat_digits :: "nat \<Rightarrow> string" where
  "nat_digits n = (if n < 10 then [chr (48 + n)] else nat_digits (n div 10) @ [chr (48 + n mod 10)])"
  by pat_completeness auto
termination
  by (relation "measure id") auto

declare nat_digits.simps [simp del]

text \<open>The last \<open>w\<close> digits.\<close>

fun pad_digits :: "nat \<Rightarrow> nat \<Rightarrow> string" where
  "pad_digits 0 n = []"
| "pad_digits (Suc w) n = pad_digits w (n div 10) @ [chr (48 + n mod 10)]"

definition digits_value :: "string \<Rightarrow> nat" where
  "digits_value = foldl (\<lambda>n c. n * 10 + (byte c - 48)) 0"

subsection \<open>The calendar\<close>

definition nanos_per_second :: int where "nanos_per_second = 1000000000"

definition day :: int where "day = 86400000000000"

definition is_leap :: "int \<Rightarrow> bool" where
  "is_leap y \<longleftrightarrow> y mod 4 = 0 \<and> (y mod 100 \<noteq> 0 \<or> y mod 400 = 0)"

text \<open>The days before a year, from year 1 on.\<close>

definition year_start :: "int \<Rightarrow> int" where
  "year_start y = 365 * (y - 1) + (y - 1) div 4 - (y - 1) div 100 + (y - 1) div 400"

definition month_lengths :: "bool \<Rightarrow> int list" where
  "month_lengths leap = [31, if leap then 29 else 28, 31, 30, 31, 30, 31, 31, 30, 31, 30, 31]"

definition days_in :: "int \<Rightarrow> nat \<Rightarrow> int" where
  "days_in y m = month_lengths (is_leap y) ! (m - 1)"

definition days_of :: "int \<Rightarrow> nat \<Rightarrow> int \<Rightarrow> int" where
  "days_of y m d = year_start y + sum_list (take (m - 1) (month_lengths (is_leap y))) + (d - 1)"

text \<open>The year of a day and the days of that year before it, by cycles of 400, 100 and 4 years.\<close>

definition year_of :: "int \<Rightarrow> int \<times> int" where
  "year_of n =
     (let n400 = n div 146097; r400 = n mod 146097;
          n100 = min 3 (r400 div 36524); r100 = r400 - 36524 * n100;
          n4 = r100 div 1461; r4 = r100 mod 1461;
          n1 = min 3 (r4 div 365)
      in (400 * n400 + 100 * n100 + 4 * n4 + n1 + 1, r4 - 365 * n1))"

text \<open>The month and the day of the month of a day of the year.\<close>

fun month_of :: "int list \<Rightarrow> int \<Rightarrow> nat \<times> int" where
  "month_of [] n = (1, n + 1)"
| "month_of (l # ls) n = (if n < l then (1, n + 1) else apfst Suc (month_of ls (n - l)))"

definition date_of :: "int \<Rightarrow> int \<times> nat \<times> int" where
  "date_of n = (let (y, r) = year_of n in (y, month_of (month_lengths (is_leap y)) r))"

subsection \<open>Format\<close>

text \<open>\<open>appendInt\<close>\<close>

definition append_int :: "nat \<Rightarrow> int \<Rightarrow> string" where
  "append_int w n =
     (let u = nat \<bar>n\<bar> in (if n < 0 then ''-'' else []) @ (if u < 10 ^ w then pad_digits w u else nat_digits u))"

definition fraction_text :: "nat \<Rightarrow> string" where
  "fraction_text ns =
     (if ns = 0 then [] else CHR ''.'' # rev (dropWhile (\<lambda>c. c = CHR ''0'') (rev (pad_digits 9 ns))))"

definition format_time :: "int \<Rightarrow> string" where
  "format_time t =
     (let (y, m, d) = date_of (t div day); r = t mod day; s = r div nanos_per_second in
      append_int 4 y @ ''-'' @ pad_digits 2 m @ ''-'' @ pad_digits 2 (nat d) @ ''T'' @
      pad_digits 2 (nat (s div 3600)) @ '':'' @ pad_digits 2 (nat (s div 60 mod 60)) @ '':'' @
      pad_digits 2 (nat (s mod 60)) @ fraction_text (nat (r mod nanos_per_second)) @ ''Z'')"

subsection \<open>Parse\<close>

definition expect :: "char \<Rightarrow> string \<Rightarrow> string option" where
  "expect c s = (case s of d # t \<Rightarrow> if d = c then Some t else None | [] \<Rightarrow> None)"

text \<open>The year: four digits.\<close>

definition parse_year :: "string \<Rightarrow> (int \<times> string) option" where
  "parse_year s =
     (if length s < 4 \<or> \<not> list_all is_num (take 4 s) then None
      else Some (int (digits_value (take 4 s)), drop 4 s))"

text \<open>\<open>getnum\<close>: two digits, or one when the field is not fixed.\<close>

definition getnum :: "bool \<Rightarrow> string \<Rightarrow> (nat \<times> string) option" where
  "getnum fixed s = (case s of
       [] \<Rightarrow> None
     | c # t \<Rightarrow>
         if \<not> is_num c then None
         else (case t of
             d # u \<Rightarrow> if is_num d then Some (digits_value [c, d], u)
                     else if fixed then None else Some (digits_value [c], t)
           | [] \<Rightarrow> if fixed then None else Some (digits_value [c], t)))"

text \<open>\<open>parseNanoseconds\<close>: the digits behind the ninth do not count.\<close>

definition parse_fraction :: "string \<Rightarrow> nat \<times> string" where
  "parse_fraction s = (case s of
       c # d # t \<Rightarrow>
         if (c = CHR ''.'' \<or> c = CHR '','') \<and> is_num d
         then (let ds = takeWhile is_num (d # t) in
               (digits_value (take 9 ds) * 10 ^ (9 - length ds), dropWhile is_num (d # t)))
         else (0, s)
     | _ \<Rightarrow> (0, s))"

text \<open>The offset, in seconds.\<close>

definition parse_zone :: "string \<Rightarrow> (int \<times> string) option" where
  "parse_zone s = (case s of
       [] \<Rightarrow> None
     | sign # t0 \<Rightarrow> if sign = CHR ''Z'' then Some (0, t0) else (case t0 of
       h1 # h2 # c # m1 # m2 # t \<Rightarrow>
         if c \<noteq> CHR '':'' \<or> \<not> list_all is_num [h1, h2, m1, m2] \<or>
            24 < digits_value [h1, h2] \<or> 60 < digits_value [m1, m2] then None
         else (let off = int (digits_value [h1, h2]) * 3600 + int (digits_value [m1, m2]) * 60 in
               if sign = CHR ''+'' then Some (off, t) else if sign = CHR ''-'' then Some (- off, t) else None)
     | _ \<Rightarrow> None))"

definition parse_time :: "string \<Rightarrow> int option" where
  "parse_time s0 = do {
     (y, s1) \<leftarrow> parse_year s0;
     s2 \<leftarrow> expect CHR ''-'' s1;
     (m, s3) \<leftarrow> getnum True s2;
     s4 \<leftarrow> expect CHR ''-'' s3;
     (d, s5) \<leftarrow> getnum True s4;
     s6 \<leftarrow> expect CHR ''T'' s5;
     (h, s7) \<leftarrow> getnum False s6;
     s8 \<leftarrow> expect CHR '':'' s7;
     (mi, s9) \<leftarrow> getnum True s8;
     s10 \<leftarrow> expect CHR '':'' s9;
     (se, s11) \<leftarrow> getnum True s10;
     let (ns, s12) = parse_fraction s11;
     (off, s13) \<leftarrow> parse_zone s12;
     if s13 \<noteq> [] \<or> m < 1 \<or> 12 < m \<or> 24 \<le> h \<or> 60 \<le> mi \<or> 60 \<le> se \<or> d < 1 \<or> days_in y m < int d then None
     else Some (days_of y m (int d) * day +
                ((int h * 60 + int mi) * 60 + int se - off) * nanos_per_second + int ns) }"

subsection \<open>Lemmas on digits\<close>

lemma digit_byte: "k < 10 \<Longrightarrow> byte (chr (48 + k)) = 48 + k"
  by (simp add: byte_def chr_def)

lemma digit_is_num: "k < 10 \<Longrightarrow> is_num (chr (48 + k))"
  by (simp add: is_num_def digit_byte)

lemma nat_digits_num: "list_all is_num (nat_digits n)"
proof (induction n rule: nat_digits.induct)
  case (1 n)
  then show ?case using digit_is_num [of n] digit_is_num [of "n mod 10"] by (subst nat_digits.simps) simp
qed

lemma nat_digits_length: "10 ^ k \<le> n \<Longrightarrow> k < length (nat_digits n)"
proof (induction k arbitrary: n)
  case 0
  then show ?case by (subst nat_digits.simps) simp
next
  case (Suc k)
  then have "10 ^ k \<le> n div 10" by (simp add: less_eq_div_iff_mult_less_eq)
  moreover have "\<not> n < 10" using Suc.prems le_trans [of 10 "10 * 10 ^ k" n] by simp
  ultimately show ?case using Suc.IH by (subst nat_digits.simps) simp
qed

lemma length_pad_digits [simp]: "length (pad_digits w n) = w"
  by (induction w arbitrary: n) simp_all

lemma pad_digits_num: "list_all is_num (pad_digits w n)"
  by (induction w arbitrary: n) (simp_all add: digit_is_num)

lemma digits_value_snoc: "digits_value (s @ [c]) = digits_value s * 10 + (byte c - 48)"
  by (simp add: digits_value_def)

lemma digits_value_pad: "digits_value (pad_digits w n) = n mod 10 ^ w"
proof (induction w arbitrary: n)
  case 0
  show ?case by (simp add: digits_value_def)
next
  case (Suc w)
  have "n mod 10 ^ Suc w = n div 10 mod 10 ^ w * 10 + n mod 10"
    by (simp add: mod_mult2_eq mult.commute)
  with Suc show ?case by (simp add: digits_value_snoc digit_byte)
qed

lemma digits_value_zeros: "digits_value (s @ replicate k (CHR ''0'')) = digits_value s * 10 ^ k"
proof (induction k)
  case (Suc k)
  have "digits_value (s @ replicate (Suc k) (CHR ''0'')) = digits_value (s @ replicate k (CHR ''0'')) * 10"
    using digits_value_snoc [of "s @ replicate k (CHR ''0'')" "CHR ''0''"]
    by (simp add: replicate_append_same byte_def)
  with Suc show ?case by simp
qed simp

subsection \<open>Lemmas on the calendar\<close>

lemma year_start_Suc: "year_start (y + 1) = year_start y + (if is_leap y then 366 else 365)"
proof -
  have step: "(y - 1 + 1) div k = (y - 1) div k + (if y mod k = 0 then 1 else 0)" if "0 < k" for k :: int
  proof -
    have y: "y = k * (y div k) + y mod k" by simp
    show ?thesis
    proof (cases "y mod k = 0")
      case True
      with y have "y - 1 = k * (y div k - 1) + (k - 1)" by (simp add: right_diff_distrib)
      from int_div_pos_eq [OF this] that have "(y - 1) div k = y div k - 1" by simp
      with True show ?thesis by simp
    next
      case False
      then have "0 \<le> y mod k - 1" using that pos_mod_sign [of k y] by linarith
      moreover have "y - 1 = k * (y div k) + (y mod k - 1)" using y by linarith
      moreover have "y mod k - 1 < k" using pos_mod_bound [OF that, of y] by linarith
      ultimately have "(y - 1) div k = y div k" using int_div_pos_eq [of "y - 1" k "y div k" "y mod k - 1"] by blast
      with False show ?thesis by simp
    qed
  qed
  have 400: "y mod 400 = 0 \<Longrightarrow> y mod 100 = 0" and 100: "y mod 100 = 0 \<Longrightarrow> y mod 4 = 0"
    using dvd_trans [of 100 400 y] dvd_trans [of 4 100 y] unfolding mod_eq_0_iff_dvd by simp_all
  obtain a b c where abc: "a = (y - 1) div 4" "b = (y - 1) div 100" "c = (y - 1) div 400" by blast
  have "year_start y = 365 * (y - 1) + a - b + c" by (simp only: year_start_def abc)
  moreover have "year_start (y + 1) = 365 * y + (a + (if y mod 4 = 0 then 1 else 0)) -
      (b + (if y mod 100 = 0 then 1 else 0)) + (c + (if y mod 400 = 0 then 1 else 0))"
    unfolding abc step [of 4, OF zero_less_numeral, symmetric] step [of 100, OF zero_less_numeral, symmetric]
      step [of 400, OF zero_less_numeral, symmetric] by (simp only: year_start_def add_diff_cancel_right' diff_add_cancel)
  ultimately have "year_start (y + 1) = year_start y + 365 + (if y mod 4 = 0 then 1 else 0) -
      (if y mod 100 = 0 then 1 else 0) + (if y mod 400 = 0 then 1 else 0)" by (simp only: algebra_simps)
  then show ?thesis unfolding is_leap_def
    by (cases "y mod 4 = 0"; cases "y mod 100 = 0"; cases "y mod 400 = 0") (simp_all add: 400 100)
qed

lemma year_start_mono: "y \<le> z \<Longrightarrow> year_start y \<le> year_start z"
proof (induction rule: int_ge_induct)
  case (step z)
  then show ?case using year_start_Suc [of z] by (auto split: if_splits)
qed simp

text \<open>A quotient capped at 3, for the last of four years or centuries, which may be a day longer.\<close>

lemma capped_div:
  fixes r k :: int
  assumes "0 \<le> r" "r \<le> 4 * k" "0 < k"
  defines "b \<equiv> min 3 (r div k)"
  shows "0 \<le> b" "b \<le> 3" "0 \<le> r - k * b" "b < 3 \<Longrightarrow> r - k * b < k" "r - k * b \<le> k"
proof -
  have r: "r = k * (r div k) + r mod k" "0 \<le> r mod k" "r mod k < k" using assms(3) by simp_all
  have q: "0 \<le> r div k" using assms(1,3) by (simp add: pos_imp_zdiv_nonneg_iff)
  have "k * (r div k) \<le> k * 4" using r(1,2) assms(2) by linarith
  then have "r div k \<le> 4" using assms(3) by simp
  show "0 \<le> b" "b \<le> 3" using q by (simp_all add: b_def)
  have small: "r div k \<le> 3 \<Longrightarrow> r - k * b = r mod k" using r(1) unfolding b_def min_def by (simp add: minus_mult_div_eq_mod)
  have four: "r - k * b = k" if "r div k = 4"
  proof -
    have "r = 4 * k + r mod k" using r(1) that by simp
    then have "r = 4 * k" using assms(2) r(2) by linarith
    with that show ?thesis by (simp add: b_def)
  qed
  show "0 \<le> r - k * b" using small four r(2) assms(3) \<open>r div k \<le> 4\<close> by (cases "r div k = 4") simp_all
  show "r - k * b \<le> k" using small four r(3) \<open>r div k \<le> 4\<close> by (cases "r div k = 4") simp_all
  show "r - k * b < k" if "b < 3" using that small r(3) by (simp add: b_def min_def split: if_splits)
qed

text \<open>The cycles give the year and what is left of it.\<close>

lemma year_of_spec:
  assumes "year_of n = (y, r)"
  shows "year_start y + r = n \<and> 0 \<le> r \<and> r < (if is_leap y then 366 else 365)"
proof -
  define a r1 b r2 c e where "a = n div 146097" "r1 = n mod 146097" "b = min 3 (r1 div 36524)"
    "r2 = r1 - 36524 * b" "c = r2 div 1461" "e = min 3 (r2 mod 1461 div 365)"
  note defs = this
  have y: "y = 400 * a + 100 * b + 4 * c + e + 1" and r: "r = r2 mod 1461 - 365 * e"
  proof -
    have "year_of n = (400 * a + 100 * b + 4 * c + e + 1, r2 mod 1461 - 365 * e)"
      by (simp only: year_of_def Let_def defs)
    with assms show "y = 400 * a + 100 * b + 4 * c + e + 1" "r = r2 mod 1461 - 365 * e" by auto
  qed
  have n: "n = 146097 * a + r1" "0 \<le> r1" "r1 < 146097" by (simp_all add: defs)
  have b: "0 \<le> b" "b \<le> 3" "0 \<le> r2" "b < 3 \<Longrightarrow> r2 < 36524" "r2 \<le> 36524"
    using capped_div [OF n(2), of 36524, folded defs(3), folded defs(4)] n(3) by simp_all
  have c: "r2 = 1461 * c + r2 mod 1461" "0 \<le> c" "c \<le> 24" "0 \<le> r2 mod 1461" "r2 mod 1461 < 1461"
  proof -
    show "r2 = 1461 * c + r2 mod 1461" by (simp add: defs(5))
    show "0 \<le> c" using b(3) by (simp add: defs(5) pos_imp_zdiv_nonneg_iff)
    show "0 \<le> r2 mod 1461" "r2 mod 1461 < 1461" by simp_all
    show "c \<le> 24" using b(5) zdiv_mono1 [of r2 36524 1461] by (simp add: defs(5))
  qed
  have c24: "c = 24 \<Longrightarrow> b < 3 \<Longrightarrow> r2 mod 1461 < 1460" using b(4) c(1) by simp
  have e: "0 \<le> e" "e \<le> 3" "0 \<le> r" "r \<le> 365" "e < 3 \<Longrightarrow> r < 365"
    using capped_div [OF c(4), of 365, folded defs(6), folded r] c(5) by simp_all
  have div4: "(y - 1) div 4 = 100 * a + 25 * b + c"
    using int_div_pos_eq [of "y - 1" 4 "100 * a + 25 * b + c" e] e by (simp add: y)
  have div100: "(y - 1) div 100 = 4 * a + b"
    using int_div_pos_eq [of "y - 1" 100 "4 * a + b" "4 * c + e"] e c by (simp add: y)
  have div400: "(y - 1) div 400 = a"
    using int_div_pos_eq [of "y - 1" 400 a "100 * b + 4 * c + e"] e c b by (simp add: y)
  have start: "year_start y = 146097 * a + 36524 * b + 1461 * c + 365 * e"
    unfolding year_start_def div4 div100 div400 by (simp add: y)
  have "year_start y + r = n" using start n(1) c(1) r unfolding defs(4) by linarith
  moreover have "r < (if is_leap y then 366 else 365)"
  proof (cases "r = 365")
    case True
    then have "e = 3" using e by linarith
    with True r have "r2 mod 1461 = 1460" by simp
    with c24 have "c \<noteq> 24 \<or> b = 3" using b(2) by force
    have "y = 4 * (100 * a + 25 * b + c + 1)" using \<open>e = 3\<close> by (simp add: y)
    then have "y mod 4 = 0" by (simp only: mod_mult_self1_is_0)
    moreover have "y mod 400 = 0" if "c = 24"
    proof -
      have "y = 400 * (a + 1)" using that \<open>c \<noteq> 24 \<or> b = 3\<close> \<open>e = 3\<close> by (simp add: y)
      then show ?thesis by (simp only: mod_mult_self1_is_0)
    qed
    moreover have "y mod 100 \<noteq> 0" if "c \<noteq> 24"
      using int_mod_pos_eq [of y 100 "4 * a + b" "4 * c + 4"] that c(2,3) \<open>e = 3\<close> by (simp add: y)
    ultimately have "is_leap y" by (cases "c = 24") (simp_all only: is_leap_def simp_thms)
    with True show ?thesis by simp
  next
    case False
    with e show ?thesis by auto
  qed
  ultimately show ?thesis using e(3) by blast
qed

lemma month_of_spec:
  assumes "month_of ls n = (m, d)" "0 \<le> n" "n < sum_list ls" "\<forall>l\<in>set ls. 0 < l"
  shows "1 \<le> m \<and> m \<le> length ls \<and> 1 \<le> d \<and> d \<le> ls ! (m - 1) \<and> sum_list (take (m - 1) ls) + (d - 1) = n"
  using assms
proof (induction ls n arbitrary: m rule: month_of.induct)
  case (2 l ls n)
  show ?case
  proof (cases "n < l")
    case True
    with 2 show ?thesis by auto
  next
    case False
    with 2(2) obtain k where k: "month_of ls (n - l) = (k, d)" "m = Suc k" by (cases "month_of ls (n - l)") auto
    from 2(1) [OF False k(1)] 2(3-5) False have "1 \<le> k \<and> k \<le> length ls \<and> 1 \<le> d \<and> d \<le> ls ! (k - 1) \<and>
        sum_list (take (k - 1) ls) + (d - 1) = n - l" by simp
    with k(2) show ?thesis by (cases k) auto
  qed
qed simp

lemma date_of_spec:
  assumes "date_of n = (y, m, d)"
  shows "days_of y m d = n \<and> 1 \<le> m \<and> m \<le> 12 \<and> 1 \<le> d \<and> d \<le> days_in y m \<and> days_in y m \<le> 31 \<and> year_start y \<le> n \<and>
    n < year_start (y + 1)"
proof -
  obtain r where yr: "year_of n = (y, r)" "month_of (month_lengths (is_leap y)) r = (m, d)"
    using assms by (auto simp: date_of_def split: prod.splits)
  note spec = year_of_spec [OF yr(1)]
  have "sum_list (month_lengths (is_leap y)) = (if is_leap y then 366 else 365)" "length (month_lengths (is_leap y)) = 12"
    "\<forall>l\<in>set (month_lengths (is_leap y)). 0 < l \<and> l \<le> 31" by (simp_all add: month_lengths_def)
  moreover from this spec month_of_spec [OF yr(2)] have "1 \<le> m \<and> m \<le> 12 \<and> 1 \<le> d \<and>
      d \<le> month_lengths (is_leap y) ! (m - 1) \<and> sum_list (take (m - 1) (month_lengths (is_leap y))) + (d - 1) = r"
    by auto
  moreover from this have "month_lengths (is_leap y) ! (m - 1) \<in> set (month_lengths (is_leap y))"
    using \<open>length _ = 12\<close> by (intro nth_mem) linarith
  ultimately show ?thesis using spec year_start_Suc [of y] by (auto simp: days_of_def days_in_def)
qed

subsection \<open>What is formatted is parsed\<close>

text \<open>The instants whose year, in UTC, has four digits.\<close>

definition in_calendar :: "int \<Rightarrow> bool" where
  "in_calendar t \<longleftrightarrow> year_start 0 * day \<le> t \<and> t < year_start 10000 * day"

lemma expect_Cons: "expect c (d # s) = (if d = c then Some s else None)"
  by (simp add: expect_def)

lemma getnum_pad: "getnum fixed (pad_digits 2 n @ s) = Some (n mod 100, s)"
proof -
  define c d where "c = chr (48 + n div 10 mod 10)" "d = chr (48 + n mod 10)"
  note cd = this
  have "pad_digits 2 n = [c, d]" by (simp add: cd numeral_2_eq_2)
  moreover from this have "digits_value [c, d] = n mod 100" using digits_value_pad [of 2 n] by simp
  ultimately show ?thesis by (simp add: getnum_def cd digit_is_num)
qed

lemma parse_year_pad: "parse_year (pad_digits 4 n @ s) = Some (int (n mod 10000), s)"
  by (simp add: parse_year_def pad_digits_num digits_value_pad)

lemma rev_dropWhile_zeros:
  "\<exists>k. s = rev (dropWhile (\<lambda>c. c = z) (rev s)) @ replicate k z"
proof -
  define u where "u = takeWhile (\<lambda>c. c = z) (rev s)"
  have "u = replicate (length u) z"
    using set_takeWhileD [of _ "\<lambda>c. c = z" "rev s"] by (intro replicate_eqI [symmetric, THEN sym]) (auto simp: u_def)
  moreover have "s = rev (dropWhile (\<lambda>c. c = z) (rev s)) @ rev u"
    unfolding u_def rev_append [symmetric] by simp
  ultimately show ?thesis by (metis rev_replicate)
qed

lemma parse_fraction_text:
  assumes "ns < 10 ^ 9"
  shows "parse_fraction (fraction_text ns @ CHR ''Z'' # s) = (ns, CHR ''Z'' # s)"
proof (cases "ns = 0")
  case True
  then show ?thesis by (cases s) (simp_all add: parse_fraction_def fraction_text_def)
next
  case False
  define ds where "ds = rev (dropWhile (\<lambda>c. c = CHR ''0'') (rev (pad_digits 9 ns)))"
  obtain k where k: "pad_digits 9 ns = ds @ replicate k (CHR ''0'')"
    using rev_dropWhile_zeros [of "pad_digits 9 ns"] unfolding ds_def by blast
  have len: "length ds + k = 9" using arg_cong [OF k, of length] by simp
  have val: "digits_value ds * 10 ^ k = ns"
    using digits_value_pad [of 9 ns] assms unfolding k by (simp add: digits_value_zeros)
  have num: "list_all is_num ds" using pad_digits_num [of 9 ns] unfolding k by simp
  obtain d ds' where ds: "ds = d # ds'" using False val by (cases ds) (auto simp: digits_value_def)
  have "takeWhile is_num (ds @ CHR ''Z'' # s) = ds" "dropWhile is_num (ds @ CHR ''Z'' # s) = CHR ''Z'' # s"
    using num by (auto simp: takeWhile_append2 dropWhile_append2 list_all_iff is_num_def byte_def)
  moreover have "9 - length ds = k" "take 9 ds = ds" using len by simp_all
  moreover have "fraction_text ns = CHR ''.'' # ds" using False by (simp add: fraction_text_def ds_def)
  ultimately show ?thesis using num val unfolding parse_fraction_def by (simp add: ds Let_def)
qed

lemma parse_zone_Z: "parse_zone (CHR ''Z'' # s) = Some (0, s)"
  by (simp add: parse_zone_def)

lemma append_int_year: "0 \<le> y \<Longrightarrow> y < 10000 \<Longrightarrow> append_int 4 y = pad_digits 4 (nat y)"
  by (simp add: append_int_def Let_def nat_less_iff)

lemma parse_year_negative: "parse_year (CHR ''-'' # s) = None"
  by (simp add: parse_year_def is_num_def byte_def)

text \<open>A year of five digits or more leaves a digit where the hyphen is expected.\<close>

lemma parse_year_long:
  assumes "10000 \<le> y"
  shows "parse_time (append_int 4 y @ s) = None"
proof -
  define ds where "ds = nat_digits (nat y)"
  have ds: "append_int 4 y = ds" using assms by (simp add: append_int_def ds_def Let_def nat_less_iff)
  have "4 < length ds" using nat_digits_length [of 4 "nat y"] assms by (simp add: ds_def)
  moreover have num: "list_all is_num ds" unfolding ds_def by (rule nat_digits_num)
  ultimately have drop: "drop 4 ds = ds ! 4 # drop 5 ds" and "is_num (ds ! 4)" and "list_all is_num (take 4 ds)"
    using Cons_nth_drop_Suc [of 4 ds] by (auto simp: list_all_length list_all_iff dest: in_set_takeD)
  then have "ds ! 4 \<noteq> CHR ''-''" by (auto simp: is_num_def byte_def)
  with drop \<open>list_all is_num (take 4 ds)\<close> \<open>4 < length ds\<close> show ?thesis
    by (simp add: ds parse_time_def parse_year_def expect_Cons)
qed

lemma seconds_split:
  fixes s :: int
  assumes "0 \<le> s" "s < 86400"
  shows "s div 3600 < 24" "s div 60 mod 60 < 60" "s mod 60 < 60" "0 \<le> s div 3600"
    "(s div 3600 * 60 + s div 60 mod 60) * 60 + s mod 60 = s"
proof -
  have "s div 60 = s div 3600 * 60 + s div 60 mod 60" using zdiv_zmult2_eq [of 60 s 60] by simp
  moreover have "s = s div 60 * 60 + s mod 60" by simp
  ultimately show "(s div 3600 * 60 + s div 60 mod 60) * 60 + s mod 60 = s" by metis
  show "s div 3600 < 24" "0 \<le> s div 3600"
    using assms zdiv_mono1 [of s 86399 3600] by (simp_all add: pos_imp_zdiv_nonneg_iff)
qed simp_all

lemma instant_split:
  fixes t :: int
  defines "r \<equiv> t mod day"
  shows "t = t div day * day + (r div nanos_per_second * nanos_per_second + r mod nanos_per_second)"
    "0 \<le> r div nanos_per_second" "r div nanos_per_second < 86400"
    "0 \<le> r mod nanos_per_second" "r mod nanos_per_second < 10 ^ 9"
proof -
  have "t = t div day * day + r" by (simp add: r_def)
  then show "t = t div day * day + (r div nanos_per_second * nanos_per_second + r mod nanos_per_second)" by simp
  have r: "0 \<le> r" "r < 86400 * nanos_per_second" by (simp_all add: r_def day_def nanos_per_second_def)
  then show "0 \<le> r div nanos_per_second" "r div nanos_per_second < 86400"
    using zdiv_mono1 [of r 86399999999999 nanos_per_second]
    by (simp_all add: pos_imp_zdiv_nonneg_iff nanos_per_second_def)
qed (simp_all add: nanos_per_second_def)

lemma parse_format:
  "parse_time (format_time t) = (if in_calendar t then Some t else None)"
proof -
  define r s ns where "r = t mod day" "s = r div nanos_per_second" "ns = r mod nanos_per_second"
  note defs = this
  obtain y m d where date: "date_of (t div day) = (y, m, d)" by (cases "date_of (t div day)")
  note spec = date_of_spec [OF date]
  note t = instant_split [of t, folded defs(1), folded defs(2,3)]
  define rest where "rest = ''-'' @ pad_digits 2 m @ ''-'' @ pad_digits 2 (nat d) @ ''T'' @
      pad_digits 2 (nat (s div 3600)) @ '':'' @ pad_digits 2 (nat (s div 60 mod 60)) @ '':'' @
      pad_digits 2 (nat (s mod 60)) @ fraction_text (nat ns) @ ''Z''"
  have form: "format_time t = append_int 4 y @ rest"
    by (simp add: format_time_def date Let_def rest_def defs)
  have day: "(a * day \<le> t) = (a \<le> t div day)" "(t < a * day) = (t div day < a)" for a
    unfolding day_def by linarith+
  have range: "in_calendar t = (0 \<le> y \<and> y < 10000)"
  proof -
    have "year_start 0 \<le> t div day" if "0 \<le> y" using year_start_mono [OF that] spec by linarith
    moreover have "t div day < year_start 0" if "y < 0" using year_start_mono [of "y + 1" 0] that spec by linarith
    moreover have "year_start 10000 \<le> t div day" if "10000 \<le> y" using year_start_mono [OF that] spec by linarith
    moreover have "t div day < year_start 10000" if "y < 10000"
      using year_start_mono [of "y + 1" 10000] that spec by linarith
    ultimately show ?thesis unfolding in_calendar_def day by (meson linorder_not_le)
  qed
  consider "y < 0" | "10000 \<le> y" | "0 \<le> y" "y < 10000" by linarith
  then show ?thesis
  proof cases
    case 1
    then have "append_int 4 y = CHR ''-'' # tl (append_int 4 y)" by (simp add: append_int_def Let_def)
    then have "parse_year (format_time t) = None" unfolding form by (metis append_Cons parse_year_negative)
    with 1 show ?thesis unfolding range by (simp add: parse_time_def)
  next
    case 2
    then show ?thesis unfolding range form by (simp add: parse_year_long)
  next
    case 3
    obtain h mi se where hms: "h = nat (s div 3600)" "mi = nat (s div 60 mod 60)" "se = nat (s mod 60)" by blast
    have sec: "h < 24" "mi < 60" "se < 60" "(int h * 60 + int mi) * 60 + int se = s"
    proof -
      have "int h = s div 3600" "int mi = s div 60 mod 60" "int se = s mod 60"
        unfolding hms using seconds_split(4) [OF t(2,3)] by (simp_all only: int_nat_eq pos_mod_sign zero_less_numeral if_True)
      with seconds_split [OF t(2,3)] show "h < 24" "mi < 60" "se < 60" "(int h * 60 + int mi) * 60 + int se = s"
        by (metis of_nat_less_iff of_nat_numeral)+
    qed
    have md: "1 \<le> m" "m \<le> 12" "1 \<le> d" "d \<le> days_in y m" "d \<le> 31" using spec by simp_all
    then have small: "int (nat d) = d" "nat d \<noteq> 0" "m \<noteq> 0" "\<not> days_in y m < d" "m mod 100 = m" "h mod 100 = h"
      "mi mod 100 = mi" "se mod 100 = se" using sec(1-3) by simp_all
    have small_nat: "nat y mod 10000 = nat y" "nat d mod 100 = nat d"
      using 3 md(3,5) by (intro mod_less; simp add: nat_less_iff)+
    have frac: "parse_fraction (fraction_text (nat ns) @ ''Z'') = (nat ns, ''Z'')"
      using parse_fraction_text [of "nat ns" "[]"] t(4,5) by (simp add: nat_less_iff)
    have "parse_time (append_int 4 y @ rest) =
        Some (days_of y m d * day + ((int h * 60 + int mi) * 60 + int se) * nanos_per_second + ns)"
      using sec(1-3) spec t(4) 3 unfolding rest_def hms [symmetric] parse_time_def append_int_year [OF 3]
      by (simp add: parse_year_pad getnum_pad expect_Cons frac parse_zone_Z small small_nat)
    moreover have "days_of y m d * day + s * nanos_per_second + ns = t" using spec t(1) by simp
    ultimately show ?thesis unfolding range form sec(4) using 3 by simp
  qed
qed

text \<open>What is read begins with a digit, so that it is not blank.\<close>

lemma parse_time_front: "parse_time s = Some t \<Longrightarrow> \<exists>c u. s = c # u \<and> is_num c"
  by (cases s) (auto simp: parse_time_def parse_year_def split: if_splits)

lemma parse_time_not_blank: "parse_time s = Some t \<Longrightarrow> TrimSpace s \<noteq> []"
proof -
  assume "parse_time s = Some t"
  then obtain c u where "s = c # u" "is_num c" using parse_time_front by blast
  then have "c \<in> set (TrimSpace s)"
    by (intro TrimSpace_keeps) (auto simp: is_num_def is_ascii_def ascii_space_def byte_def)
  then show ?thesis by auto
qed

end
