(* ===== verification/Events.thy ===== *)
theory Events
  imports Url_Fields Config Rfc3339
begin

section \<open>Normalising, limiting and validating an event\<close>

text \<open>
  \<open>internal/events/events.go\<close>, \<open>Normalize\<close>, \<open>Validate\<close>, \<open>ApplyFieldLimits\<close>, \<open>validateTimezone\<close>
  and \<open>AllowedDomain\<close>. The process-wide cache of valid time zones is a set of names that
  \<open>validateTimezone\<close> reads and extends.
\<close>

datatype validation_error =
    InvalidType
  | InvalidSiteID
  | InvalidIdentifiers
  | InvalidUserID
  | InvalidPathOrTitle
  | InvalidURLField url_error
  | InvalidTimezone
  | InvalidTimezoneOffset
  | InvalidPayload payload_error

text \<open>\<open>^[a-zA-Z0-9_.:-]{1,128}$\<close>\<close>

definition identifier_char :: "char \<Rightarrow> bool" where
  "identifier_char c \<longleftrightarrow> is_alpha c \<or> is_num c \<or> c \<in> set ''_.:-''"

definition identifierPattern :: "string \<Rightarrow> bool" where
  "identifierPattern s \<longleftrightarrow> list_all identifier_char s \<and> 1 \<le> length s \<and> length s \<le> 128"

definition Normalize :: "int \<Rightarrow> event \<Rightarrow> event" where
  "Normalize now e =
     (let stamp = (if TrimSpace (ev_Timestamp e) = [] then format_time now
                   else (case parse_time (ev_Timestamp e) of
                           Some parsed \<Rightarrow> format_time parsed
                         | None \<Rightarrow> format_time now))
      in e\<lparr>ev_ReceivedAt := now, ev_Timestamp := stamp,
           ev_Payload := Some (case ev_Payload e of None \<Rightarrow> [] | Some p \<Rightarrow> p),
           ev_TrafficQuality := (if TrimSpace (ev_TrafficQuality e) = [] then ''normal''
                                 else ev_TrafficQuality e)\<rparr>)"

definition validateTimezone :: "host \<Rightarrow> string set \<Rightarrow> string \<Rightarrow> int option \<Rightarrow>
    validation_error option \<times> string set" where
  "validateTimezone H cache name0 offsetMinutes =
     (let name = TrimSpace name0;
          valid = name = [] \<or> name \<in> cache \<or> h_loadLocation H name;
          cache1 = (if name \<noteq> [] \<and> valid then insert name cache else cache)
      in if \<not> valid then (Some InvalidTimezone, cache)
         else (case offsetMinutes of
                 Some off \<Rightarrow> if off < -840 \<or> off > 840 then (Some InvalidTimezoneOffset, cache1) else (None, cache1)
               | None \<Rightarrow> (None, cache1)))"

definition Validate :: "host \<Rightarrow> config \<Rightarrow> string set \<Rightarrow> event \<Rightarrow> validation_error option \<times> string set" where
  "Validate H cfg cache e =
     (let mx = cfg_MaxFieldLength cfg in
      if \<not> identifierPattern (TrimSpace (ev_Type e)) then (Some InvalidType, cache)
      else if \<not> identifierPattern (TrimSpace (ev_SiteID e)) then (Some InvalidSiteID, cache)
      else if tooLong (ev_SessionID e) mx \<or> tooLong (ev_AnonymousID e) mx then (Some InvalidIdentifiers, cache)
      else if (case ev_UserID e of None \<Rightarrow> False | Some user \<Rightarrow> tooLong user mx) then (Some InvalidUserID, cache)
      else if tooLong (ev_Path e) mx \<or> tooLong (ev_Title e) mx then (Some InvalidPathOrTitle, cache)
      else (case validateURLField H (ev_URL e) mx of
              Some err \<Rightarrow> (Some (InvalidURLField err), cache)
            | None \<Rightarrow>
        (case validateURLField H (ev_Referrer e) mx of
              Some err \<Rightarrow> (Some (InvalidURLField err), cache)
            | None \<Rightarrow>
        (case validateTimezone H cache (ev_Timezone e) (ev_TimezoneOffsetMinutes e) of
              (Some err, cache1) \<Rightarrow> (Some err, cache1)
            | (None, cache1) \<Rightarrow>
                (map_option InvalidPayload
                   (validatePayload (ev_Payload e) (cfg_MaxPayloadEntries cfg) (cfg_MaxPayloadDepth cfg) mx),
                 cache1)))))"

definition ApplyFieldLimits :: "host \<Rightarrow> config \<Rightarrow> event \<Rightarrow> event" where
  "ApplyFieldLimits H cfg e =
     (let mx = cfg_MaxFieldLength cfg in
      e\<lparr>ev_SessionID := truncateString (ev_SessionID e) mx,
        ev_AnonymousID := truncateString (ev_AnonymousID e) mx,
        ev_UserID := map_option (\<lambda>user. truncateString user mx) (ev_UserID e),
        ev_Path := truncateString (ev_Path e) mx,
        ev_Title := truncateString (ev_Title e) mx,
        ev_URL := truncateURLField H (ev_URL e) mx,
        ev_Referrer := truncateURLField H (ev_Referrer e) mx,
        ev_Payload := truncatePayload (ev_Payload e) mx\<rparr>)"

definition AllowedDomain :: "host \<Rightarrow> config \<Rightarrow> string \<Rightarrow> bool" where
  "AllowedDomain H cfg domain \<longleftrightarrow> NormalizeDomain H domain \<in> cfg_AllowedDomainSet cfg"

subsection \<open>Lemmas\<close>

text \<open>What a valid event is, without the order of the checks and the cache.\<close>

definition event_valid :: "host \<Rightarrow> config \<Rightarrow> event \<Rightarrow> bool" where
  "event_valid H cfg e \<longleftrightarrow>
     identifierPattern (TrimSpace (ev_Type e)) \<and> identifierPattern (TrimSpace (ev_SiteID e)) \<and>
     (\<forall>s\<in>{ev_SessionID e, ev_AnonymousID e, ev_Path e, ev_Title e} \<union> set_option (ev_UserID e).
        int (length s) \<le> cfg_MaxFieldLength cfg) \<and>
     validateURLField H (ev_URL e) (cfg_MaxFieldLength cfg) = None \<and>
     validateURLField H (ev_Referrer e) (cfg_MaxFieldLength cfg) = None \<and>
     (TrimSpace (ev_Timezone e) = [] \<or> h_loadLocation H (TrimSpace (ev_Timezone e))) \<and>
     (\<forall>off\<in>set_option (ev_TimezoneOffsetMinutes e). -840 \<le> off \<and> off \<le> 840) \<and>
     validatePayload (ev_Payload e) (cfg_MaxPayloadEntries cfg) (cfg_MaxPayloadDepth cfg)
       (cfg_MaxFieldLength cfg) = None"

definition cache_ok :: "host \<Rightarrow> string set \<Rightarrow> bool" where
  "cache_ok H cache \<longleftrightarrow> (\<forall>name\<in>cache. h_loadLocation H name)"

lemma validateTimezone_cache:
  assumes "cache_ok H cache" "validateTimezone H cache name off = (err, cache')"
  shows "cache_ok H cache' \<and>
    (err = None \<longleftrightarrow> (TrimSpace name = [] \<or> h_loadLocation H (TrimSpace name)) \<and>
       (\<forall>n\<in>set_option off. -840 \<le> n \<and> n \<le> 840))"
  using assms
  by (auto simp: validateTimezone_def cache_ok_def Let_def split: if_splits option.splits)

lemma Validate_spec:
  assumes "cache_ok H cache" "Validate H cfg cache e = (err, cache')"
  shows "cache_ok H cache' \<and> (err = None \<longleftrightarrow> event_valid H cfg e)"
proof -
  obtain tz cache1 where tz: "validateTimezone H cache (ev_Timezone e) (ev_TimezoneOffsetMinutes e) = (tz, cache1)"
    by (metis surj_pair)
  note v = validateTimezone_cache [OF assms(1) tz]
  show ?thesis
    using assms v tz
    by (cases tz)
      (auto simp: Validate_def event_valid_def tooLong_def Let_def not_less
        split: if_splits option.splits)
qed

text \<open>
  The errors that report the length of a field which \<open>ApplyFieldLimits\<close> limits. It does not limit the
  type, the site and the keys of the payload, whose lengths have errors of their own.
\<close>

definition limited_field_error :: "validation_error \<Rightarrow> bool" where
  "limited_field_error err \<longleftrightarrow> err \<in> {InvalidIdentifiers, InvalidUserID, InvalidPathOrTitle,
     InvalidURLField UrlTooLong, InvalidPayload StringTooLong}"

lemma validateTimezone_error:
  "validateTimezone H cache name off = (Some err, cache') \<Longrightarrow> err = InvalidTimezone \<or> err = InvalidTimezoneOffset"
  by (auto simp: validateTimezone_def Let_def split: if_splits option.splits)

lemma truncated_payload_no_length_error:
  "0 < mx \<Longrightarrow> validatePayload (truncatePayload payload mx) maxEntries maxDepth mx \<noteq> Some StringTooLong"
proof (cases payload)
  case (Some es)
  assume "0 < mx"
  then have "strings_fit mx (truncatePayloadValue (AMap es) mx)" by (rule truncate_strings_fit)
  from fit_strings_not_too_long(1) [OF this, of 1 maxDepth] Some show ?thesis
    by (auto simp: validatePayload_def truncatePayload_def split: sum.splits)
qed (simp add: validatePayload_def truncatePayload_def)

lemma truncate_not_tooLong: "0 < mx \<Longrightarrow> \<not> tooLong (truncateString s mx) mx"
  using truncateString_length [of mx s] by (simp add: tooLong_def not_less)

subsection \<open>Properties\<close>

text \<open>
  C14: What validation accepts: an event passes exactly when its type and site match the
  identifier pattern after trimming, every core field and both URLs fit and are well formed, its
  time zone is known, its offset is within fourteen hours and its payload is within the limits.
  The cache of time zones changes no verdict and only ever holds names the database has.
\<close>

theorem validate_accepts_iff:
  assumes "cache_ok H cache" "Validate H cfg cache e = (err, cache')"
  shows "(err = None \<longleftrightarrow> event_valid H cfg e) \<and> cache_ok H cache'"
  using Validate_spec [OF assms] by blast

definition witness_config :: config where
  "witness_config = zero_config\<lparr>cfg_MaxFieldLength := 20, cfg_MaxPayloadEntries := 4, cfg_MaxPayloadDepth := 3,
     cfg_AllowedDomainSet := {''shop.example''}, cfg_SanitizeURLs := True, cfg_CollectorVersion := ''v1''\<rparr>"

definition witness_event :: event where
  "witness_event = zero_event\<lparr>ev_Type := '' click'', ev_SiteID := ''shop'', ev_URL := ''http://shop.example'',
     ev_Timezone := ''Europe/Berlin'', ev_TimezoneOffsetMinutes := Some (-60),
     ev_Payload := Some [(''a'', AString ''x'')]\<rparr>"

theorem validate_accepts_iff_witness:
  "\<exists>cache'. Validate plain_host witness_config {} witness_event = (None, cache') \<and>
     event_valid plain_host witness_config witness_event"
proof -
  have none: "fst (Validate plain_host witness_config {} witness_event) = None" by code_simp
  obtain err cache' where run: "Validate plain_host witness_config {} witness_event = (err, cache')"
    by (metis surj_pair)
  have "cache_ok plain_host {}" by (simp add: cache_ok_def)
  from validate_accepts_iff [OF this run] none run show ?thesis by simp
qed

text \<open>
  C34: \<open>ApplyFieldLimits\<close> removes the length errors of the fields it limits, and of no others: with a
  positive field length, as \<open>Load\<close> guarantees it, validation of the limited event reports no session,
  anonymous or user identifier, path, title, URL, referrer or string of the payload as too long.
  Type and site are reported exactly when those of the event itself do not match the
  pattern, their limit of 128 characters included, and the keys of the payload, at any depth, fit
  a length after limiting exactly when they did before.
\<close>

theorem limits_prevent_length_errors:
  assumes "0 < cfg_MaxFieldLength cfg" "Validate H cfg cache (ApplyFieldLimits H cfg e) = (Some err, cache')"
  shows "\<not> limited_field_error err \<and>
    (err = InvalidType \<longleftrightarrow> \<not> identifierPattern (TrimSpace (ev_Type e))) \<and>
    (err = InvalidSiteID \<longleftrightarrow> identifierPattern (TrimSpace (ev_Type e)) \<and> \<not> identifierPattern (TrimSpace (ev_SiteID e))) \<and>
    map_option (\<lambda>p. keys_fit n (AMap p)) (ev_Payload (ApplyFieldLimits H cfg e)) =
      map_option (\<lambda>p. keys_fit n (AMap p)) (ev_Payload e)"
proof (intro conjI)
  let ?mx = "cfg_MaxFieldLength cfg"
  have url: "validateURLField H (truncateURLField H raw ?mx) ?mx \<noteq> Some UrlTooLong" for raw
    using truncateURLField_length [OF assms(1)] validateURLField_fits by blast
  note facts = truncate_not_tooLong [OF assms(1)] truncated_payload_no_length_error [OF assms(1)] url
  show "\<not> limited_field_error err"
    using assms(2) facts
    by (auto simp: Validate_def ApplyFieldLimits_def limited_field_error_def Let_def
        split: if_splits option.splits prod.splits dest: validateTimezone_error)
  show "err = InvalidType \<longleftrightarrow> \<not> identifierPattern (TrimSpace (ev_Type e))"
    using assms(2)
    by (auto simp: Validate_def ApplyFieldLimits_def Let_def split: if_splits option.splits prod.splits
        dest: validateTimezone_error)
  show "err = InvalidSiteID \<longleftrightarrow> identifierPattern (TrimSpace (ev_Type e)) \<and> \<not> identifierPattern (TrimSpace (ev_SiteID e))"
    using assms(2)
    by (auto simp: Validate_def ApplyFieldLimits_def Let_def split: if_splits option.splits prod.splits
        dest: validateTimezone_error)
  show "map_option (\<lambda>p. keys_fit n (AMap p)) (ev_Payload (ApplyFieldLimits H cfg e)) =
      map_option (\<lambda>p. keys_fit n (AMap p)) (ev_Payload e)"
    using truncate_measures(3) [of n "AMap _" ?mx]
    by (cases "ev_Payload e") (simp_all add: ApplyFieldLimits_def truncatePayload_def Let_def)
qed

theorem limits_prevent_length_errors_witness:
  "\<exists>err cache'. Validate plain_host witness_config {} (ApplyFieldLimits plain_host witness_config
       (witness_event\<lparr>ev_Title := replicate 30 CHR ''t'', ev_TimezoneOffsetMinutes := Some 900\<rparr>)) = (Some err, cache') \<and>
     \<not> limited_field_error err"
proof -
  let ?e = "witness_event\<lparr>ev_Title := replicate 30 CHR ''t'', ev_TimezoneOffsetMinutes := Some 900\<rparr>"
  have none: "fst (Validate plain_host witness_config {} (ApplyFieldLimits plain_host witness_config ?e)) =
      Some InvalidTimezoneOffset" by code_simp
  obtain err cache' where run: "Validate plain_host witness_config {} (ApplyFieldLimits plain_host witness_config ?e) =
      (err, cache')" by (metis surj_pair)
  have "0 < cfg_MaxFieldLength witness_config" by (simp add: witness_config_def)
  from limits_prevent_length_errors [OF this] none run show ?thesis by auto
qed

text \<open>The instant an event is stamped with.\<close>

definition stamp_of :: "int \<Rightarrow> event \<Rightarrow> int" where
  "stamp_of now e = (case parse_time (ev_Timestamp e) of Some t \<Rightarrow> t | None \<Rightarrow> now)"

lemma Normalize_stamp: "ev_Timestamp (Normalize now e) = format_time (stamp_of now e)"
  by (auto simp: Normalize_def stamp_of_def Let_def dest: parse_time_not_blank split: option.split)

text \<open>
  C29: \<open>Normalize\<close> stamps every event with an instant, the client's if it can be read and else the clock's,
  and gives it a payload and a traffic quality that is not blank. If the year of the instant has four
  digits in UTC, the new timestamp reads back as that instant and normalising again, at any moment,
  changes the time of receipt only; otherwise the new timestamp cannot be read.
\<close>

theorem normalize_settles:
  "parse_time (ev_Timestamp (Normalize now e)) = (if in_calendar (stamp_of now e) then Some (stamp_of now e) else None) \<and>
   ev_ReceivedAt (Normalize now e) = now \<and> ev_Payload (Normalize now e) \<noteq> None \<and>
   TrimSpace (ev_TrafficQuality (Normalize now e)) \<noteq> [] \<and>
   (in_calendar (stamp_of now e) \<longrightarrow> Normalize later (Normalize now e) = (Normalize now e)\<lparr>ev_ReceivedAt := later\<rparr>)"
proof -
  let ?n = "Normalize now e"
  have read: "parse_time (ev_Timestamp ?n) = (if in_calendar (stamp_of now e) then Some (stamp_of now e) else None)"
    unfolding Normalize_stamp by (rule parse_format)
  have quality: "TrimSpace (ev_TrafficQuality ?n) \<noteq> []"
    using TrimSpace_keeps [of "CHR ''n''" "''normal''"]
    by (auto simp: Normalize_def Let_def is_ascii_def ascii_space_def byte_def)
  obtain m where payload: "ev_Payload ?n = Some m" by (simp add: Normalize_def Let_def)
  have "Normalize later ?n = ?n\<lparr>ev_ReceivedAt := later\<rparr>" if "in_calendar (stamp_of now e)"
  proof -
    have "ev_Timestamp (Normalize later ?n) = ev_Timestamp ?n"
      unfolding Normalize_stamp [of later] using read that by (simp add: stamp_of_def [of later] Normalize_stamp)
    moreover have "ev_Timestamp (Normalize later ?n) = t \<Longrightarrow> Normalize later ?n =
        ?n\<lparr>ev_ReceivedAt := later, ev_Timestamp := t, ev_Payload := ev_Payload ?n,
          ev_TrafficQuality := ev_TrafficQuality ?n\<rparr>" for t
      using quality payload by (simp add: Normalize_def [of later ?n] Let_def)
    ultimately show ?thesis by simp
  qed
  with read quality payload show ?thesis by (simp add: Normalize_def Let_def)
qed

theorem normalize_settles_witness:
  "Normalize 7 (Normalize 3 (zero_event\<lparr>ev_Timestamp := ''2026-01-31T24:00:00Z''\<rparr>)) =
     (Normalize 3 (zero_event\<lparr>ev_Timestamp := ''2026-01-31T24:00:00Z''\<rparr>))\<lparr>ev_ReceivedAt := 7\<rparr>"
proof -
  let ?e = "zero_event\<lparr>ev_Timestamp := ''2026-01-31T24:00:00Z''\<rparr>"
  have "in_calendar (stamp_of 3 ?e)" by code_simp
  with normalize_settles [of 3 ?e 7] show ?thesis by blast
qed

text \<open>
  Validation looks at a type and a site with their surrounding white space removed, but
  nothing removes it: the limited event still has them as the client sent them.
\<close>

theorem identifiers_kept_untrimmed:
  "Validate H cfg cache (e\<lparr>ev_Type := ty, ev_SiteID := site\<rparr>) =
     Validate H cfg cache (e\<lparr>ev_Type := TrimSpace ty, ev_SiteID := TrimSpace site\<rparr>) \<and>
   ev_Type (ApplyFieldLimits H cfg (Normalize now (e\<lparr>ev_Type := ty, ev_SiteID := site\<rparr>))) = ty \<and>
   ev_SiteID (ApplyFieldLimits H cfg (Normalize now (e\<lparr>ev_Type := ty, ev_SiteID := site\<rparr>))) = site"
  by (simp add: Validate_def ApplyFieldLimits_def Normalize_def Let_def cong: option.case_cong)

end
