(* ===== verification/Request_Metadata.thy ===== *)
theory Request_Metadata
  imports Events
begin

section \<open>Enriching an event from its request\<close>

text \<open>
  \<open>internal/events/request_metadata.go\<close>, \<open>internal/events/useragent.go\<close> and the part of
  \<open>internal/events/events.go\<close> that reads the HTTP request: \<open>effectiveHost\<close>, \<open>scheme\<close>,
  \<open>clientIP\<close>, \<open>NewRequestMetadata\<close> and \<open>Enrich\<close>. \<open>wr_header\<close> is \<open>r.Header.Get\<close>, empty for a
  header that is not there; \<open>wr_TLS\<close> says whether \<open>r.TLS\<close> is set.
\<close>

record web_request =
  wr_header :: "string \<Rightarrow> string"
  wr_Host :: string
  wr_URLHost :: string
  wr_RemoteAddr :: string
  wr_TLS :: bool

subsection \<open>Languages\<close>

text \<open>The loop over the segments of a tag at index \<open>i\<close>; \<open>None\<close> is the return at an empty segment.\<close>

fun normalize_segments :: "host \<Rightarrow> nat \<Rightarrow> string list \<Rightarrow> string list option" where
  "normalize_segments H i [] = Some []"
| "normalize_segments H i (segment0 # segments) =
     (let segment = TrimSpace segment0;
          normal = (if i = 0 then ToLower H segment
                    else if length segment = 2 \<or> length segment = 3 then ToUpper H segment
                    else if length segment = 4 then ToUpper H (take 1 segment) @ ToLower H (drop 1 segment)
                    else ToLower H segment)
      in if segment = [] then None
         else map_option (Cons normal) (normalize_segments H (Suc i) segments))"

definition normalizeLanguageTag :: "host \<Rightarrow> string \<Rightarrow> string" where
  "normalizeLanguageTag H raw =
     (let tag0 = TrimSpace raw; tag = TrimSpace (before CHR '';'' tag0) in
      if tag0 = [] \<or> tag = [] \<or> tag = ''*'' then []
      else (case normalize_segments H 0 (split_on CHR ''-'' tag) of
              None \<Rightarrow> []
            | Some segments \<Rightarrow> join_with CHR ''-'' segments))"

fun collect_tags :: "host \<Rightarrow> string list \<Rightarrow> string list \<Rightarrow> string list" where
  "collect_tags H [] tags = tags"
| "collect_tags H (part # parts) tags =
     (let tag = normalizeLanguageTag H part in
      collect_tags H parts (if tag = [] \<or> tag \<in> set tags then tags else tags @ [tag]))"

definition applyAcceptLanguageDetails :: "host \<Rightarrow> event \<Rightarrow> event" where
  "applyAcceptLanguageDetails H e0 =
     (let e = e0\<lparr>ev_AcceptLanguagePrimaryTag := [], ev_AcceptLanguagePrimaryBase := [],
                 ev_AcceptLanguagePrimaryRegion := [], ev_AcceptLanguageTags := []\<rparr>;
          raw = TrimSpace (ev_AcceptLanguage e);
          tags = collect_tags H (split_on CHR '','' raw) []
      in if raw = [] \<or> tags = [] then e
         else
           let segments = split_on CHR ''-'' (hd tags) in
           e\<lparr>ev_AcceptLanguageTags := tags, ev_AcceptLanguagePrimaryTag := hd tags,
             ev_AcceptLanguagePrimaryBase := ToLower H (hd segments),
             ev_AcceptLanguagePrimaryRegion :=
               (case find (\<lambda>s. length s = 2 \<or> length s = 3) (tl segments) of
                  None \<Rightarrow> [] | Some segment \<Rightarrow> ToUpper H segment)\<rparr>)"

subsection \<open>Time zones\<close>

definition applyTimezoneDetails :: "event \<Rightarrow> event" where
  "applyTimezoneDetails e0 =
     (let e = e0\<lparr>ev_TimezoneArea := [], ev_TimezoneLocation := []\<rparr>;
          name = TrimSpace (ev_Timezone e);
          parts = split_on CHR ''/'' name
      in if name = [] then e
         else e\<lparr>ev_TimezoneArea := hd parts,
                ev_TimezoneLocation := (if length parts > 1 then join_with CHR ''/'' (tl parts) else [])\<rparr>)"

subsection \<open>User agents\<close>

definition deriveBrowserEngine :: "host \<Rightarrow> string \<Rightarrow> string \<Rightarrow> string" where
  "deriveBrowserEngine H browserFamily rawUA =
     (let family = ToLower H (TrimSpace browserFamily); raw = ToLower H rawUA in
      if family = ''chrome'' \<or> family = ''chromium'' \<or> family = ''edge'' \<or> family = ''opera'' \<or>
         contains ''edg/'' raw \<or> contains ''opr/'' raw then ''Blink''
      else if family = ''safari'' \<or> contains ''applewebkit'' raw then ''WebKit''
      else if family = ''firefox'' \<or> contains ''gecko/'' raw \<or> contains ''firefox/'' raw then ''Gecko''
      else [])"

definition deriveDeviceType :: "host \<Rightarrow> string \<Rightarrow> string \<Rightarrow> string \<Rightarrow> string \<Rightarrow> string" where
  "deriveDeviceType H deviceFamily osFamily browserFamily rawUA =
     (let device = ToLower H (TrimSpace deviceFamily); osName = ToLower H (TrimSpace osFamily);
          browser = ToLower H (TrimSpace browserFamily); raw = ToLower H rawUA in
      if contains ''tablet'' raw \<or> contains ''ipad'' raw then ''tablet''
      else if contains ''mobile'' raw \<or> contains ''iphone'' raw \<or>
        contains ''android'' raw \<and> \<not> contains ''tablet'' raw then ''mobile''
      else if contains ''smart-tv'' raw \<or> contains ''smarttv'' raw \<or> contains ''hbbtv'' raw \<or>
        contains ''appletv'' raw \<or> contains ''tv'' raw then ''tv''
      else if device = ''spider'' \<or> browser = ''googlebot'' \<or> browser = ''bingbot'' \<or>
        contains ''bot'' raw then ''bot''
      else if device = ''mac'' \<or> contains ''windows'' osName \<or> contains ''mac os x'' osName \<or>
        contains ''linux'' osName \<or> contains ''chrome os'' osName \<or> contains ''x11'' raw then ''desktop''
      else [])"

definition clear_user_agent :: "event \<Rightarrow> event" where
  "clear_user_agent e = e\<lparr>ev_BrowserFamily := [], ev_BrowserVersion := [], ev_BrowserMajor := [],
     ev_OSFamily := [], ev_OSVersion := [], ev_DeviceFamily := [], ev_DeviceBrand := [],
     ev_DeviceModel := [], ev_DeviceType := [], ev_BrowserEngine := []\<rparr>"

text \<open>The three blocks of \<open>applyUserAgentDetails\<close>, for what the parser has found.\<close>

definition apply_agent :: "host \<Rightarrow> string \<Rightarrow> ua_agent option \<Rightarrow> event \<Rightarrow> event" where
  "apply_agent H raw agent e = (case agent of None \<Rightarrow> e | Some a \<Rightarrow>
     e\<lparr>ev_BrowserFamily := TrimSpace (agent_Family a), ev_BrowserVersion := TrimSpace (agent_Version a),
       ev_BrowserMajor := TrimSpace (agent_Major a),
       ev_BrowserEngine := deriveBrowserEngine H (TrimSpace (agent_Family a)) raw\<rparr>)"

definition apply_os :: "ua_os option \<Rightarrow> event \<Rightarrow> event" where
  "apply_os os e = (case os of None \<Rightarrow> e | Some x \<Rightarrow>
     e\<lparr>ev_OSFamily := TrimSpace (os_Family x), ev_OSVersion := TrimSpace (os_Version x)\<rparr>)"

definition apply_device :: "host \<Rightarrow> string \<Rightarrow> ua_device option \<Rightarrow> event \<Rightarrow> event" where
  "apply_device H raw device e = (case device of None \<Rightarrow> e | Some d \<Rightarrow>
     e\<lparr>ev_DeviceFamily := TrimSpace (device_Family d), ev_DeviceBrand := TrimSpace (device_Brand d),
       ev_DeviceModel := TrimSpace (device_Model d),
       ev_DeviceType := deriveDeviceType H (TrimSpace (device_Family d)) (ev_OSFamily e) (ev_BrowserFamily e) raw\<rparr>)"

definition applyUserAgentDetails :: "host \<Rightarrow> event \<Rightarrow> event" where
  "applyUserAgentDetails H e0 =
     (let e = clear_user_agent e0; raw = TrimSpace (ev_UserAgent e) in
      if raw = [] \<or> \<not> h_newParser H then e
      else (case h_parseUA H raw of
              None \<Rightarrow> e
            | Some client \<Rightarrow> apply_device H raw (client_Device client)
                (apply_os (client_Os client) (apply_agent H raw (client_UserAgent client) e))))"

subsection \<open>Host, scheme and address of a request\<close>

definition effectiveHost :: "web_request \<Rightarrow> bool \<Rightarrow> string" where
  "effectiveHost r trustProxyHeaders =
     (let forwarded = TrimSpace (wr_header r ''X-Forwarded-Host'') in
      if trustProxyHeaders \<and> forwarded \<noteq> [] then forwarded
      else if wr_Host r \<noteq> [] then wr_Host r else wr_URLHost r)"

definition scheme_of :: "web_request \<Rightarrow> bool \<Rightarrow> string" where
  "scheme_of r trustProxyHeaders =
     (let forwarded = TrimSpace (wr_header r ''X-Forwarded-Proto'') in
      if trustProxyHeaders \<and> forwarded \<noteq> [] then forwarded
      else if wr_TLS r then ''https'' else ''http'')"

definition clientIP :: "web_request \<Rightarrow> bool \<Rightarrow> string" where
  "clientIP r trustProxyHeaders =
     (let realIP = TrimSpace (wr_header r ''X-Real-IP'');
          forwarded = TrimSpace (wr_header r ''X-Forwarded-For'')
      in if trustProxyHeaders \<and> realIP \<noteq> [] then realIP
         else if trustProxyHeaders \<and> forwarded \<noteq> [] then TrimSpace (hd (split_on CHR '','' forwarded))
         else (case SplitHostPort (wr_RemoteAddr r) of
                 Some (hst, _) \<Rightarrow> hst
               | None \<Rightarrow> wr_RemoteAddr r))"

definition ClientIP :: "web_request \<Rightarrow> bool \<Rightarrow> string" where
  "ClientIP r trustProxyHeaders = clientIP r trustProxyHeaders"

subsection \<open>Metadata and enrichment\<close>

record metadata =
  rm_requestHost :: string
  rm_requestDomain :: string
  rm_clientIP :: string
  rm_userAgent :: string
  rm_browserFamily :: string
  rm_browserVersion :: string
  rm_browserMajor :: string
  rm_browserEngine :: string
  rm_osFamily :: string
  rm_osVersion :: string
  rm_deviceFamily :: string
  rm_deviceBrand :: string
  rm_deviceModel :: string
  rm_deviceType :: string
  rm_acceptLanguage :: string
  rm_acceptLanguagePrimaryTag :: string
  rm_acceptLanguagePrimaryBase :: string
  rm_acceptLanguagePrimaryRegion :: string
  rm_acceptLanguageTags :: "string list"
  rm_origin :: string
  rm_refererHeader :: string
  rm_scheme :: string
  rm_forwardedFor :: string
  rm_remoteAddr :: string
  rm_collectorVersion :: string

definition NewRequestMetadata :: "host \<Rightarrow> web_request \<Rightarrow> config \<Rightarrow> metadata" where
  "NewRequestMetadata H r cfg =
     (let template = applyAcceptLanguageDetails H (applyUserAgentDetails H (zero_event
            \<lparr>ev_UserAgent := TrimSpace (wr_header r ''User-Agent''),
             ev_AcceptLanguage := TrimSpace (wr_header r ''Accept-Language'')\<rparr>));
          referer = TrimSpace (wr_header r ''Referer'');
          requestHost = effectiveHost r (cfg_TrustProxyHeaders cfg)
      in \<lparr>rm_requestHost = requestHost,
           rm_requestDomain = NormalizeDomain H requestHost,
           rm_clientIP = clientIP r (cfg_TrustProxyHeaders cfg),
           rm_userAgent = ev_UserAgent template,
           rm_browserFamily = ev_BrowserFamily template,
           rm_browserVersion = ev_BrowserVersion template,
           rm_browserMajor = ev_BrowserMajor template,
           rm_browserEngine = ev_BrowserEngine template,
           rm_osFamily = ev_OSFamily template,
           rm_osVersion = ev_OSVersion template,
           rm_deviceFamily = ev_DeviceFamily template,
           rm_deviceBrand = ev_DeviceBrand template,
           rm_deviceModel = ev_DeviceModel template,
           rm_deviceType = ev_DeviceType template,
           rm_acceptLanguage = ev_AcceptLanguage template,
           rm_acceptLanguagePrimaryTag = ev_AcceptLanguagePrimaryTag template,
           rm_acceptLanguagePrimaryBase = ev_AcceptLanguagePrimaryBase template,
           rm_acceptLanguagePrimaryRegion = ev_AcceptLanguagePrimaryRegion template,
           rm_acceptLanguageTags = ev_AcceptLanguageTags template,
           rm_origin = TrimSpace (wr_header r ''Origin''),
           rm_refererHeader = (if cfg_SanitizeURLs cfg then sanitizeURL H referer else referer),
           rm_scheme = scheme_of r (cfg_TrustProxyHeaders cfg),
           rm_forwardedFor = (if cfg_StoreIPMetadata cfg then TrimSpace (wr_header r ''X-Forwarded-For'') else []),
           rm_remoteAddr = (if cfg_StoreIPMetadata cfg then wr_RemoteAddr r else []),
           rm_collectorVersion = cfg_CollectorVersion cfg\<rparr>)"

text \<open>The statements of \<open>Enrich\<close> behind its call of \<open>Normalize\<close>, in their order.\<close>

definition sanitize_fields :: "host \<Rightarrow> config \<Rightarrow> event \<Rightarrow> event" where
  "sanitize_fields H cfg e =
     (if cfg_SanitizeURLs cfg
      then e\<lparr>ev_URL := sanitizeURL H (ev_URL e), ev_Referrer := sanitizeURL H (ev_Referrer e),
             ev_Path := sanitizePath (ev_Path e)\<rparr>
      else e)"

definition derived_fields :: "metadata \<Rightarrow> event \<Rightarrow> event" where
  "derived_fields m e = e\<lparr>ev_RequestHost := rm_requestHost m,
     ev_RequestDomain := rm_requestDomain m,
     ev_UserAgent := rm_userAgent m,
     ev_BrowserFamily := rm_browserFamily m,
     ev_BrowserVersion := rm_browserVersion m,
     ev_BrowserMajor := rm_browserMajor m,
     ev_BrowserEngine := rm_browserEngine m,
     ev_OSFamily := rm_osFamily m,
     ev_OSVersion := rm_osVersion m,
     ev_DeviceFamily := rm_deviceFamily m,
     ev_DeviceBrand := rm_deviceBrand m,
     ev_DeviceModel := rm_deviceModel m,
     ev_DeviceType := rm_deviceType m,
     ev_AcceptLanguage := rm_acceptLanguage m,
     ev_AcceptLanguagePrimaryTag := rm_acceptLanguagePrimaryTag m,
     ev_AcceptLanguagePrimaryBase := rm_acceptLanguagePrimaryBase m,
     ev_AcceptLanguagePrimaryRegion := rm_acceptLanguagePrimaryRegion m,
     ev_AcceptLanguageTags := rm_acceptLanguageTags m\<rparr>"

definition request_fields :: "metadata \<Rightarrow> event \<Rightarrow> event" where
  "request_fields m e = e\<lparr>ev_Origin := rm_origin m, ev_RefererHeader := rm_refererHeader m,
     ev_Scheme := rm_scheme m, ev_CollectorVersion := rm_collectorVersion m\<rparr>"

definition address_fields :: "config \<Rightarrow> metadata \<Rightarrow> event \<Rightarrow> event" where
  "address_fields cfg m e0 =
     (let e = (if cfg_CaptureClientIP cfg then e0\<lparr>ev_ClientIP := rm_clientIP m\<rparr> else e0) in
      if cfg_StoreIPMetadata cfg
      then e\<lparr>ev_ForwardedFor := rm_forwardedFor m, ev_RemoteAddr := rm_remoteAddr m\<rparr> else e)"

definition Enrich :: "host \<Rightarrow> config \<Rightarrow> metadata \<Rightarrow> int \<Rightarrow> event \<Rightarrow> event" where
  "Enrich H cfg m now e = address_fields cfg m (request_fields m (applyTimezoneDetails
     (derived_fields m (sanitize_fields H cfg (Normalize now e)))))"

lemmas enrich_defs = Enrich_def address_fields_def request_fields_def applyTimezoneDetails_def
  derived_fields_def sanitize_fields_def Normalize_def

text \<open>The package function \<open>Enrich\<close> for one event: the event, the domain and the address.\<close>

definition Enrich_request :: "host \<Rightarrow> web_request \<Rightarrow> config \<Rightarrow> int \<Rightarrow> event \<Rightarrow> event \<times> string \<times> string" where
  "Enrich_request H r cfg now e =
     (let m = NewRequestMetadata H r cfg in (Enrich H cfg m now e, rm_requestDomain m, rm_clientIP m))"

subsection \<open>Lemmas\<close>

lemma collect_tags_spec:
  "distinct tags \<Longrightarrow> [] \<notin> set tags \<Longrightarrow>
    distinct (collect_tags H parts tags) \<and> [] \<notin> set (collect_tags H parts tags) \<and>
    set (collect_tags H parts tags) = set tags \<union> (normalizeLanguageTag H ` set parts - {[]})"
  by (induction parts arbitrary: tags) (auto simp: Let_def)

text \<open>
  The details of a user agent and of the languages overwrite the same fields of any event with
  values that depend on nothing but the event's user agent and language header.
\<close>

lemma applyUserAgentDetails_overwrites:
  fixes H :: host and e :: event
  defines "d \<equiv> applyUserAgentDetails H (zero_event\<lparr>ev_UserAgent := ev_UserAgent e\<rparr>)"
  shows "applyUserAgentDetails H e = e\<lparr>ev_BrowserFamily := ev_BrowserFamily d, ev_BrowserVersion := ev_BrowserVersion d,
     ev_BrowserMajor := ev_BrowserMajor d, ev_OSFamily := ev_OSFamily d, ev_OSVersion := ev_OSVersion d,
     ev_DeviceFamily := ev_DeviceFamily d, ev_DeviceBrand := ev_DeviceBrand d, ev_DeviceModel := ev_DeviceModel d,
     ev_DeviceType := ev_DeviceType d, ev_BrowserEngine := ev_BrowserEngine d\<rparr>"
proof (cases "TrimSpace (ev_UserAgent e) = [] \<or> \<not> h_newParser H \<or> h_parseUA H (TrimSpace (ev_UserAgent e)) = None")
  case True
  then show ?thesis
    by (auto simp: d_def applyUserAgentDetails_def clear_user_agent_def zero_event_def Let_def)
next
  case False
  then obtain client where "h_parseUA H (TrimSpace (ev_UserAgent e)) = Some client" by auto
  with False show ?thesis
    by (cases "client_UserAgent client"; cases "client_Os client"; cases "client_Device client")
      (simp_all add: d_def applyUserAgentDetails_def clear_user_agent_def zero_event_def Let_def
        apply_agent_def apply_os_def apply_device_def)
qed

lemma applyAcceptLanguageDetails_overwrites:
  fixes H :: host and e :: event
  defines "d \<equiv> applyAcceptLanguageDetails H (zero_event\<lparr>ev_AcceptLanguage := ev_AcceptLanguage e\<rparr>)"
  shows "applyAcceptLanguageDetails H e = e\<lparr>ev_AcceptLanguagePrimaryTag := ev_AcceptLanguagePrimaryTag d,
     ev_AcceptLanguagePrimaryBase := ev_AcceptLanguagePrimaryBase d,
     ev_AcceptLanguagePrimaryRegion := ev_AcceptLanguagePrimaryRegion d,
     ev_AcceptLanguageTags := ev_AcceptLanguageTags d\<rparr>"
  by (simp add: d_def applyAcceptLanguageDetails_def zero_event_def Let_def)

text \<open>
  The metadata keeps one set of details for all events of a request: it is what the event's own
  user agent and language header give.
\<close>

lemma metadata_details:
  fixes H :: host and r :: web_request and cfg :: config
  defines "ua \<equiv> applyUserAgentDetails H (zero_event\<lparr>ev_UserAgent := TrimSpace (wr_header r ''User-Agent'')\<rparr>)"
    and "al \<equiv> applyAcceptLanguageDetails H (zero_event\<lparr>ev_AcceptLanguage := TrimSpace (wr_header r ''Accept-Language'')\<rparr>)"
    and "m \<equiv> NewRequestMetadata H r cfg"
  shows "rm_browserFamily m = ev_BrowserFamily ua \<and> rm_browserVersion m = ev_BrowserVersion ua \<and>
      rm_browserMajor m = ev_BrowserMajor ua \<and> rm_browserEngine m = ev_BrowserEngine ua \<and>
      rm_osFamily m = ev_OSFamily ua \<and> rm_osVersion m = ev_OSVersion ua \<and>
      rm_deviceFamily m = ev_DeviceFamily ua \<and> rm_deviceBrand m = ev_DeviceBrand ua \<and>
      rm_deviceModel m = ev_DeviceModel ua \<and> rm_deviceType m = ev_DeviceType ua"
    "rm_acceptLanguagePrimaryTag m = ev_AcceptLanguagePrimaryTag al \<and>
      rm_acceptLanguagePrimaryBase m = ev_AcceptLanguagePrimaryBase al \<and>
      rm_acceptLanguagePrimaryRegion m = ev_AcceptLanguagePrimaryRegion al \<and>
      rm_acceptLanguageTags m = ev_AcceptLanguageTags al"
    "rm_userAgent m = TrimSpace (wr_header r ''User-Agent'')"
    "rm_acceptLanguage m = TrimSpace (wr_header r ''Accept-Language'')"
proof -
  obtain x where x: "x = zero_event\<lparr>ev_UserAgent := TrimSpace (wr_header r ''User-Agent''),
      ev_AcceptLanguage := TrimSpace (wr_header r ''Accept-Language'')\<rparr>" by blast
  then have xs: "ev_UserAgent x = TrimSpace (wr_header r ''User-Agent'')"
    "ev_AcceptLanguage x = TrimSpace (wr_header r ''Accept-Language'')" by simp_all
  obtain y where y: "y = applyUserAgentDetails H x" by blast
  have yua: "ev_UserAgent y = ev_UserAgent x \<and> ev_AcceptLanguage y = ev_AcceptLanguage x \<and>
      ev_BrowserFamily y = ev_BrowserFamily ua \<and> ev_BrowserVersion y = ev_BrowserVersion ua \<and>
      ev_BrowserMajor y = ev_BrowserMajor ua \<and> ev_BrowserEngine y = ev_BrowserEngine ua \<and>
      ev_OSFamily y = ev_OSFamily ua \<and> ev_OSVersion y = ev_OSVersion ua \<and>
      ev_DeviceFamily y = ev_DeviceFamily ua \<and> ev_DeviceBrand y = ev_DeviceBrand ua \<and>
      ev_DeviceModel y = ev_DeviceModel ua \<and> ev_DeviceType y = ev_DeviceType ua"
    unfolding y applyUserAgentDetails_overwrites [of H x] xs by (simp add: xs ua_def)
  obtain z where z: "z = applyAcceptLanguageDetails H y" by blast
  have zal: "ev_AcceptLanguage z = ev_AcceptLanguage y \<and> ev_AcceptLanguagePrimaryTag z = ev_AcceptLanguagePrimaryTag al \<and>
      ev_AcceptLanguagePrimaryBase z = ev_AcceptLanguagePrimaryBase al \<and>
      ev_AcceptLanguagePrimaryRegion z = ev_AcceptLanguagePrimaryRegion al \<and>
      ev_AcceptLanguageTags z = ev_AcceptLanguageTags al \<and> ev_UserAgent z = ev_UserAgent y \<and>
      ev_BrowserFamily z = ev_BrowserFamily y \<and> ev_BrowserVersion z = ev_BrowserVersion y \<and>
      ev_BrowserMajor z = ev_BrowserMajor y \<and> ev_BrowserEngine z = ev_BrowserEngine y \<and>
      ev_OSFamily z = ev_OSFamily y \<and> ev_OSVersion z = ev_OSVersion y \<and>
      ev_DeviceFamily z = ev_DeviceFamily y \<and> ev_DeviceBrand z = ev_DeviceBrand y \<and>
      ev_DeviceModel z = ev_DeviceModel y \<and> ev_DeviceType z = ev_DeviceType y"
    unfolding z applyAcceptLanguageDetails_overwrites [of H y] using yua by (simp add: xs al_def)
  have m: "rm_browserFamily m = ev_BrowserFamily z \<and> rm_browserVersion m = ev_BrowserVersion z \<and>
      rm_browserMajor m = ev_BrowserMajor z \<and> rm_browserEngine m = ev_BrowserEngine z \<and>
      rm_osFamily m = ev_OSFamily z \<and> rm_osVersion m = ev_OSVersion z \<and>
      rm_deviceFamily m = ev_DeviceFamily z \<and> rm_deviceBrand m = ev_DeviceBrand z \<and>
      rm_deviceModel m = ev_DeviceModel z \<and> rm_deviceType m = ev_DeviceType z \<and>
      rm_acceptLanguagePrimaryTag m = ev_AcceptLanguagePrimaryTag z \<and>
      rm_acceptLanguagePrimaryBase m = ev_AcceptLanguagePrimaryBase z \<and>
      rm_acceptLanguagePrimaryRegion m = ev_AcceptLanguagePrimaryRegion z \<and>
      rm_acceptLanguageTags m = ev_AcceptLanguageTags z \<and>
      rm_userAgent m = ev_UserAgent z \<and> rm_acceptLanguage m = ev_AcceptLanguage z"
    by (simp add: m_def NewRequestMetadata_def Let_def flip: x y z)
  show "rm_browserFamily m = ev_BrowserFamily ua \<and> rm_browserVersion m = ev_BrowserVersion ua \<and>
      rm_browserMajor m = ev_BrowserMajor ua \<and> rm_browserEngine m = ev_BrowserEngine ua \<and>
      rm_osFamily m = ev_OSFamily ua \<and> rm_osVersion m = ev_OSVersion ua \<and>
      rm_deviceFamily m = ev_DeviceFamily ua \<and> rm_deviceBrand m = ev_DeviceBrand ua \<and>
      rm_deviceModel m = ev_DeviceModel ua \<and> rm_deviceType m = ev_DeviceType ua"
    "rm_acceptLanguagePrimaryTag m = ev_AcceptLanguagePrimaryTag al \<and>
      rm_acceptLanguagePrimaryBase m = ev_AcceptLanguagePrimaryBase al \<and>
      rm_acceptLanguagePrimaryRegion m = ev_AcceptLanguagePrimaryRegion al \<and>
      rm_acceptLanguageTags m = ev_AcceptLanguageTags al"
    "rm_userAgent m = TrimSpace (wr_header r ''User-Agent'')"
    "rm_acceptLanguage m = TrimSpace (wr_header r ''Accept-Language'')"
    using m zal yua xs by simp_all
qed

text \<open>The host inside an authority is parsed without decoding a question mark or a number sign.\<close>

definition authority_plain :: "host \<Rightarrow> bool" where
  "authority_plain H \<longleftrightarrow>
     (\<forall>scheme a hst c. h_parseHost H scheme a = Some hst \<longrightarrow> delimiter c \<longrightarrow> c \<in> set hst \<longrightarrow> c \<in> set a)"

lemma parseAuthority_clean:
  assumes "authority_plain H" "parseAuthority H scheme a = Some (user, hst)" "delimiter c" "c \<notin> set a"
  shows "c \<notin> set hst"
proof -
  obtain a' where a': "h_parseHost H scheme a' = Some hst" "set a' \<subseteq> set a"
    using assms(2) set_drop_subset by (fastforce simp: parseAuthority_def split: option.splits)
  with assms(1,3,4) show ?thesis unfolding authority_plain_def by blast
qed

lemma url_Parse_host_clean:
  assumes "authority_plain H" "url_Parse H raw = Some u" "delimiter c"
  shows "c \<notin> set (u_Host u)"
proof -
  let ?raw = "before CHR ''#'' raw"
  obtain u0 where u0: "parse_rest H ?raw = Some u0" "u_Host u = u_Host u0"
    using assms(2) by (auto simp: url_Parse_def setFragment_def Let_def split: option.splits if_splits)
  show ?thesis
  proof (cases "?raw = ''*''")
    case True
    with u0 show ?thesis by (auto simp: parse_rest_def empty_url_def split: if_splits)
  next
    case False
    with u0(1) obtain scheme rest0 where gs: "getScheme ?raw = Some (scheme, rest0)"
      by (auto simp: parse_rest_def split: if_splits option.splits)
    obtain force query rest where cq: "cut_query rest0 = (force, query, rest)" by (metis prod_cases3)
    have "c \<notin> set rest"
      using cut_query_clean [OF cq] getScheme_chars(2) [OF gs] before_notin [of "CHR ''#''" raw] assms(3)
      by (auto simp: delimiter_def)
    then have au: "c \<notin> set (before CHR ''/'' (drop 2 rest))"
      using set_before [of "CHR ''/''" "drop 2 rest"] by (auto dest: in_set_dropD)
    have "u_Host u0 = [] \<or> (\<exists>user s. parseAuthority H s (before CHR ''/'' (drop 2 rest)) = Some (user, u_Host u0))"
    proof (cases "(scheme \<noteq> [] \<or> \<not> prefix ''///'' rest) \<and> prefix ''//'' rest")
      case True
      then have "prefix ''/'' rest" by (auto simp: prefix_def)
      with True u0(1) False gs cq show ?thesis
        by (simp add: parse_rest_def Let_def split: if_splits option.splits prod.splits)
          (auto dest!: setPath_fields)
    next
      case no: False
      with u0(1) False gs cq show ?thesis
        by (simp add: parse_rest_def Let_def empty_url_def split: if_splits)
          (auto dest!: setPath_fields)
    qed
    then show ?thesis
    proof
      assume "\<exists>user s. parseAuthority H s (before CHR ''/'' (drop 2 rest)) = Some (user, u_Host u0)"
      with au assms(1,3) u0(2) show ?thesis using parseAuthority_clean by metis
    qed (simp add: u0(2))
  qed
qed

lemma EscapedPath_Nil: "EscapedPath u = [] \<Longrightarrow> u_Path u = []"
  by (cases "u_Path u") (auto simp: EscapedPath_def escape_def split: if_splits)

lemma truncateString_clean: "c \<notin> set s \<Longrightarrow> c \<notin> set (truncateString s mx)"
  by (auto simp: truncateString_def dest: in_set_takeD)

lemma truncateURLField_clean:
  assumes "authority_plain H" "delimiter c" "c \<notin> set raw"
  shows "c \<notin> set (truncateURLField H raw mx)"
proof (cases "url_Parse H raw")
  case None
  with assms(3) show ?thesis by (simp add: truncateURLField_def)
next
  case (Some u)
  define front where "front = (if u_Scheme u \<noteq> [] then u_Scheme u @ ''://'' else []) @ u_Host u"
  define path where "path = (if EscapedPath (drop_private u) = [] then u_Path u else EscapedPath (drop_private u))"
  have "truncateURLField H raw mx = (if mx \<le> 0 \<or> int (length raw) \<le> mx then raw
      else if int (length (url_String (drop_private u))) \<le> mx then url_String (drop_private u)
      else if int (length front) \<ge> mx then [] else front @ truncateString path (mx - int (length front)))"
    using Some unfolding truncateURLField_def front_def path_def by (simp add: Let_def)
  moreover have "c \<notin> set (url_String (drop_private u))"
    using url_String_clean [OF drop_private_public assms(2)] url_Parse_clean [OF Some assms(2)] by simp
  moreover have "c \<notin> set front"
  proof -
    have "c \<notin> set ''://''" using assms(2) by (auto simp: delimiter_def)
    then show ?thesis
      using url_Parse_clean [OF Some assms(2)] url_Parse_host_clean [OF assms(1) Some assms(2)]
      by (simp add: front_def)
  qed
  moreover have "c \<notin> set path"
    using EscapedPath_clean [OF assms(2)] EscapedPath_Nil [of "drop_private u"] by (auto simp: path_def)
  ultimately show ?thesis using assms(3) truncateString_clean by auto
qed

text \<open>A URL field that was sanitised and limited and is then accepted has no query.\<close>

lemma accepted_url_clean:
  assumes "authority_plain H" "delimiter c" "0 < mx"
    "validateURLField H (truncateURLField H (sanitizeURL H raw) mx) mx = None"
  shows "c \<notin> set (truncateURLField H (sanitizeURL H raw) mx)"
proof (cases "url_Parse H raw")
  case None
  then have s: "sanitizeURL H raw = raw" by (rule sanitizeURL_invalid)
  show ?thesis
  proof (cases "int (length raw) \<le> mx")
    case True
    then have "truncateURLField H raw mx = raw" by (simp add: truncateURLField_def)
    with assms(4) s None True show ?thesis by (simp add: validateURLField_def split: if_splits)
  next
    case False
    with None assms(3) s show ?thesis by (simp add: truncateURLField_def)
  qed
next
  case (Some u)
  then show ?thesis using truncateURLField_clean [OF assms(1,2)] sanitizeURL_clean [of H raw c] assms(2) by simp
qed

lemma Enrich_url_fields:
  "cfg_SanitizeURLs cfg \<Longrightarrow> ev_URL (Enrich H cfg m now e) = sanitizeURL H (ev_URL e) \<and>
     ev_Referrer (Enrich H cfg m now e) = sanitizeURL H (ev_Referrer e) \<and>
     ev_Path (Enrich H cfg m now e) = sanitizePath (ev_Path e)"
  by (simp add: enrich_defs Let_def)

lemma event_valid_urls:
  "event_valid H cfg e \<Longrightarrow> validateURLField H (ev_URL e) (cfg_MaxFieldLength cfg) = None \<and>
     validateURLField H (ev_Referrer e) (cfg_MaxFieldLength cfg) = None"
  by (simp add: event_valid_def)

lemma Enrich_request_fields:
  fixes H :: host and r :: web_request and cfg :: config
  defines "m \<equiv> NewRequestMetadata H r cfg"
  shows "ev_RequestHost (Enrich H cfg m now e) = effectiveHost r (cfg_TrustProxyHeaders cfg) \<and>
    ev_RequestDomain (Enrich H cfg m now e) = NormalizeDomain H (effectiveHost r (cfg_TrustProxyHeaders cfg)) \<and>
    ev_Origin (Enrich H cfg m now e) = TrimSpace (wr_header r ''Origin'') \<and>
    ev_RefererHeader (Enrich H cfg m now e) =
      (if cfg_SanitizeURLs cfg then sanitizeURL H (TrimSpace (wr_header r ''Referer''))
       else TrimSpace (wr_header r ''Referer'')) \<and>
    ev_Scheme (Enrich H cfg m now e) = scheme_of r (cfg_TrustProxyHeaders cfg) \<and>
    ev_CollectorVersion (Enrich H cfg m now e) = cfg_CollectorVersion cfg \<and>
    ev_Timezone (Enrich H cfg m now e) = ev_Timezone e \<and>
    ev_ClientIP (Enrich H cfg m now e) =
      (if cfg_CaptureClientIP cfg then clientIP r (cfg_TrustProxyHeaders cfg) else ev_ClientIP e) \<and>
    ev_ForwardedFor (Enrich H cfg m now e) =
      (if cfg_StoreIPMetadata cfg then TrimSpace (wr_header r ''X-Forwarded-For'') else ev_ForwardedFor e) \<and>
    ev_RemoteAddr (Enrich H cfg m now e) = (if cfg_StoreIPMetadata cfg then wr_RemoteAddr r else ev_RemoteAddr e)"
  by (simp add: m_def enrich_defs NewRequestMetadata_def Let_def)

text \<open>Updating fields of an event with the values they have.\<close>

lemma event_update_same:
  fixes e :: event
  shows "e\<lparr>ev_BrowserFamily := ev_BrowserFamily e, ev_BrowserVersion := ev_BrowserVersion e,
     ev_BrowserMajor := ev_BrowserMajor e, ev_OSFamily := ev_OSFamily e, ev_OSVersion := ev_OSVersion e,
     ev_DeviceFamily := ev_DeviceFamily e, ev_DeviceBrand := ev_DeviceBrand e, ev_DeviceModel := ev_DeviceModel e,
     ev_DeviceType := ev_DeviceType e, ev_BrowserEngine := ev_BrowserEngine e\<rparr> = e"
    "e\<lparr>ev_AcceptLanguagePrimaryTag := ev_AcceptLanguagePrimaryTag e,
     ev_AcceptLanguagePrimaryBase := ev_AcceptLanguagePrimaryBase e,
     ev_AcceptLanguagePrimaryRegion := ev_AcceptLanguagePrimaryRegion e,
     ev_AcceptLanguageTags := ev_AcceptLanguageTags e\<rparr> = e"
    "e\<lparr>ev_TimezoneArea := ev_TimezoneArea e, ev_TimezoneLocation := ev_TimezoneLocation e\<rparr> = e"
  by (cases e; simp)+

lemma applyTimezoneDetails_overwrites:
  "applyTimezoneDetails e = e\<lparr>ev_TimezoneArea := ev_TimezoneArea (applyTimezoneDetails (zero_event\<lparr>ev_Timezone := ev_Timezone e\<rparr>)),
     ev_TimezoneLocation := ev_TimezoneLocation (applyTimezoneDetails (zero_event\<lparr>ev_Timezone := ev_Timezone e\<rparr>))\<rparr>"
  by (simp add: applyTimezoneDetails_def Let_def)

lemma Enrich_timezone:
  "ev_TimezoneArea (Enrich H cfg m now e) = ev_TimezoneArea (applyTimezoneDetails (zero_event\<lparr>ev_Timezone := ev_Timezone e\<rparr>))"
  "ev_TimezoneLocation (Enrich H cfg m now e) =
     ev_TimezoneLocation (applyTimezoneDetails (zero_event\<lparr>ev_Timezone := ev_Timezone e\<rparr>))"
  "ev_Timezone (Enrich H cfg m now e) = ev_Timezone e"
  by (simp_all add: enrich_defs Let_def)

lemma Enrich_details_settled:
  fixes H :: host and r :: web_request and cfg :: config and now :: int and e :: event
  defines "e' \<equiv> Enrich H cfg (NewRequestMetadata H r cfg) now e"
  shows "ev_UserAgent e' = TrimSpace (wr_header r ''User-Agent'') \<and> applyUserAgentDetails H e' = e' \<and>
    ev_AcceptLanguage e' = TrimSpace (wr_header r ''Accept-Language'') \<and> applyAcceptLanguageDetails H e' = e' \<and>
    applyTimezoneDetails e' = e'"
proof -
  let ?m = "NewRequestMetadata H r cfg"
  note details = metadata_details [where H = H and r = r and cfg = cfg]
  have ua: "ev_UserAgent e' = rm_userAgent ?m" "ev_BrowserFamily e' = rm_browserFamily ?m"
    "ev_BrowserVersion e' = rm_browserVersion ?m" "ev_BrowserMajor e' = rm_browserMajor ?m"
    "ev_BrowserEngine e' = rm_browserEngine ?m" "ev_OSFamily e' = rm_osFamily ?m" "ev_OSVersion e' = rm_osVersion ?m"
    "ev_DeviceFamily e' = rm_deviceFamily ?m" "ev_DeviceBrand e' = rm_deviceBrand ?m"
    "ev_DeviceModel e' = rm_deviceModel ?m" "ev_DeviceType e' = rm_deviceType ?m"
    by (simp_all add: e'_def enrich_defs Let_def)
  have al: "ev_AcceptLanguage e' = rm_acceptLanguage ?m" "ev_AcceptLanguagePrimaryTag e' = rm_acceptLanguagePrimaryTag ?m"
    "ev_AcceptLanguagePrimaryBase e' = rm_acceptLanguagePrimaryBase ?m"
    "ev_AcceptLanguagePrimaryRegion e' = rm_acceptLanguagePrimaryRegion ?m"
    "ev_AcceptLanguageTags e' = rm_acceptLanguageTags ?m"
    by (simp_all add: e'_def enrich_defs Let_def)
  note tz = Enrich_timezone [of H cfg ?m now e, folded e'_def]
  have "applyUserAgentDetails H e' = e'"
    using event_update_same(1) [of e'] applyUserAgentDetails_overwrites [of H e'] details(1) unfolding ua details(3) by simp
  moreover have "applyAcceptLanguageDetails H e' = e'"
    using event_update_same(2) [of e'] applyAcceptLanguageDetails_overwrites [of H e'] details(2)
    unfolding al details(4) by simp
  moreover have "applyTimezoneDetails e' = e'"
    using event_update_same(3) [of e'] applyTimezoneDetails_overwrites [of e']
    unfolding tz by simp
  ultimately show ?thesis using trans [OF ua(1) details(3)] trans [OF al(1) details(4)] by blast
qed

subsection \<open>Properties\<close>

text \<open>
  C22: No query or fragment reaches the queue in a URL field: with sanitising on, an event that was
  enriched from its request and limited and then passes validation has no question mark and no
  number sign in its URL, its referrer and its path, whatever the client sent, and none in its
  referer header when the \<open>Referer\<close> of the request is a URL that the parser accepts; a \<open>Referer\<close>
  that the parser rejects is kept as it is.
\<close>

theorem accepted_event_has_no_query:
  assumes "authority_plain H" "cfg_SanitizeURLs cfg" "0 < cfg_MaxFieldLength cfg"
    "event_valid H cfg (ApplyFieldLimits H cfg (Enrich H cfg (NewRequestMetadata H r cfg) now e))"
    "c = CHR ''?'' \<or> c = CHR ''#''"
  shows "c \<notin> set (ev_URL (ApplyFieldLimits H cfg (Enrich H cfg (NewRequestMetadata H r cfg) now e))) \<and>
    c \<notin> set (ev_Referrer (ApplyFieldLimits H cfg (Enrich H cfg (NewRequestMetadata H r cfg) now e))) \<and>
    c \<notin> set (ev_Path (ApplyFieldLimits H cfg (Enrich H cfg (NewRequestMetadata H r cfg) now e))) \<and>
    (case url_Parse H (TrimSpace (wr_header r ''Referer'')) of
       Some u \<Rightarrow> c \<notin> set (ev_RefererHeader (ApplyFieldLimits H cfg (Enrich H cfg (NewRequestMetadata H r cfg) now e)))
     | None \<Rightarrow> ev_RefererHeader (ApplyFieldLimits H cfg (Enrich H cfg (NewRequestMetadata H r cfg) now e)) =
         TrimSpace (wr_header r ''Referer''))"
proof -
  have d: "delimiter c" using assms(5) by (simp add: delimiter_def)
  have "c \<notin> set (truncateString (sanitizePath (ev_Path e)) (cfg_MaxFieldLength cfg))"
    by (rule truncateString_clean [OF sanitizePath_clean [OF d]])
  moreover have "ev_RefererHeader (ApplyFieldLimits H cfg (Enrich H cfg (NewRequestMetadata H r cfg) now e)) =
      sanitizeURL H (TrimSpace (wr_header r ''Referer''))"
    using assms(2) by (simp add: ApplyFieldLimits_def enrich_defs NewRequestMetadata_def Let_def)
  ultimately show ?thesis
    using accepted_url_clean [OF assms(1) d assms(3)] event_valid_urls [OF assms(4)]
      sanitizeURL_clean [OF _ d, of H "TrimSpace (wr_header r ''Referer'')"]
      sanitizeURL_invalid [of H "TrimSpace (wr_header r ''Referer'')"]
    by (simp add: ApplyFieldLimits_def Enrich_url_fields [OF assms(2)] Let_def split: option.split)
qed

definition witness_request :: web_request where
  "witness_request = \<lparr>wr_header = (\<lambda>k. if k = ''Origin'' then ''http://shop.example'' else []),
     wr_Host = ''shop.example:80'', wr_URLHost = [], wr_RemoteAddr = ''10.0.0.1:5000'', wr_TLS = False\<rparr>"

lemma plain_host_authority: "authority_plain plain_host"
  by (simp add: authority_plain_def plain_host_def)

definition witness_referer :: web_request where
  "witness_referer = witness_request\<lparr>wr_header := (wr_header witness_request)(''Referer'' := ''http://s.example/a?b#c'')\<rparr>"

theorem accepted_event_has_no_query_witness:
  "CHR ''?'' \<notin> set (ev_URL (ApplyFieldLimits plain_host witness_config (Enrich plain_host witness_config
     (NewRequestMetadata plain_host witness_referer witness_config) 3
     (witness_event\<lparr>ev_URL := ''http://s.example/?q''\<rparr>)))) \<and>
   CHR ''?'' \<notin> set (ev_RefererHeader (ApplyFieldLimits plain_host witness_config (Enrich plain_host witness_config
     (NewRequestMetadata plain_host witness_referer witness_config) 3
     (witness_event\<lparr>ev_URL := ''http://s.example/?q''\<rparr>))))"
proof -
  let ?m = "NewRequestMetadata plain_host witness_referer witness_config"
  let ?e = "ApplyFieldLimits plain_host witness_config (Enrich plain_host witness_config ?m 3
      (witness_event\<lparr>ev_URL := ''http://s.example/?q''\<rparr>))"
  have "fst (Validate plain_host witness_config {} ?e) = None" by code_simp
  moreover have "cache_ok plain_host {}" by (simp add: cache_ok_def)
  ultimately have valid: "event_valid plain_host witness_config ?e"
    using Validate_spec [of plain_host "{}" witness_config ?e] by (metis prod.collapse)
  have cfg: "cfg_SanitizeURLs witness_config" "0 < cfg_MaxFieldLength witness_config"
    by (simp_all add: witness_config_def)
  have "url_Parse plain_host (TrimSpace (wr_header witness_referer ''Referer'')) \<noteq> None" by code_simp
  with accepted_event_has_no_query [OF plain_host_authority cfg valid, of "CHR ''?''"] show ?thesis
    by (auto split: option.splits)
qed

text \<open>
  C35: What enrichment decides: with the metadata of a request the event's host, domain, origin,
  referer header and scheme are those of the request and its collector version is the configured
  one, whatever the client put there. Its user agent and its language header are the request's, and
  deriving the ten user-agent fields, the four language fields or the two time zone fields again
  from the event changes nothing: although the metadata derives them once for a whole request, each
  field is what the event's own header or time zone gives, and none is the client's. The client
  address is the request's when addresses are captured, the forwarded and the remote address are
  the request's when they are to be stored, and otherwise they are the client's.
\<close>

theorem enrichment_takes_request_values:
  assumes "e' = Enrich H cfg (NewRequestMetadata H r cfg) now e"
  shows "ev_RequestHost e' = effectiveHost r (cfg_TrustProxyHeaders cfg) \<and>
    ev_RequestDomain e' = NormalizeDomain H (effectiveHost r (cfg_TrustProxyHeaders cfg)) \<and>
    ev_Origin e' = TrimSpace (wr_header r ''Origin'') \<and>
    ev_RefererHeader e' = (if cfg_SanitizeURLs cfg then sanitizeURL H (TrimSpace (wr_header r ''Referer''))
      else TrimSpace (wr_header r ''Referer'')) \<and>
    ev_Scheme e' = scheme_of r (cfg_TrustProxyHeaders cfg) \<and> ev_CollectorVersion e' = cfg_CollectorVersion cfg \<and>
    ev_UserAgent e' = TrimSpace (wr_header r ''User-Agent'') \<and> applyUserAgentDetails H e' = e' \<and>
    ev_AcceptLanguage e' = TrimSpace (wr_header r ''Accept-Language'') \<and> applyAcceptLanguageDetails H e' = e' \<and>
    ev_Timezone e' = ev_Timezone e \<and> applyTimezoneDetails e' = e' \<and>
    ev_ClientIP e' = (if cfg_CaptureClientIP cfg then clientIP r (cfg_TrustProxyHeaders cfg) else ev_ClientIP e) \<and>
    ev_ForwardedFor e' = (if cfg_StoreIPMetadata cfg then TrimSpace (wr_header r ''X-Forwarded-For'')
      else ev_ForwardedFor e) \<and>
    ev_RemoteAddr e' = (if cfg_StoreIPMetadata cfg then wr_RemoteAddr r else ev_RemoteAddr e)"
  unfolding assms
  using Enrich_request_fields [of H cfg r now e] Enrich_details_settled [of H cfg r now e] by blast

theorem enrichment_takes_request_values_witness:
  "ev_RequestHost (Enrich plain_host witness_config (NewRequestMetadata plain_host witness_request witness_config) 3
     (zero_event\<lparr>ev_RequestHost := ''evil'', ev_BrowserFamily := ''Chrome''\<rparr>)) = ''shop.example:80'' \<and>
   ev_BrowserFamily (Enrich plain_host witness_config (NewRequestMetadata plain_host witness_request witness_config) 3
     (zero_event\<lparr>ev_RequestHost := ''evil'', ev_BrowserFamily := ''Chrome''\<rparr>)) = []"
proof -
  let ?e = "Enrich plain_host witness_config (NewRequestMetadata plain_host witness_request witness_config) 3
     (zero_event\<lparr>ev_RequestHost := ''evil'', ev_BrowserFamily := ''Chrome''\<rparr>)"
  have "effectiveHost witness_request (cfg_TrustProxyHeaders witness_config) = ''shop.example:80''" by code_simp
  moreover have "ev_BrowserFamily (applyUserAgentDetails plain_host ?e) = []"
    by (simp add: applyUserAgentDetails_def clear_user_agent_def plain_host_def Let_def)
  ultimately show ?thesis using enrichment_takes_request_values [OF refl, of plain_host witness_config witness_request 3
      "zero_event\<lparr>ev_RequestHost := ''evil'', ev_BrowserFamily := ''Chrome''\<rparr>"] by simp
qed

text \<open>
  What enrichment leaves to the client: unless the configuration captures addresses, the
  client address, the forwarded addresses and the remote address of the event are the ones the
  client sent in its JSON, as are, in every configuration, the geographic fields, the suspicion
  mark and its reasons and a traffic quality that is not blank.
\<close>

theorem enrichment_keeps_client_claims:
  "(\<not> cfg_CaptureClientIP cfg \<longrightarrow> ev_ClientIP (Enrich H cfg m now e) = ev_ClientIP e) \<and>
   (\<not> cfg_StoreIPMetadata cfg \<longrightarrow> ev_ForwardedFor (Enrich H cfg m now e) = ev_ForwardedFor e \<and>
     ev_RemoteAddr (Enrich H cfg m now e) = ev_RemoteAddr e) \<and>
   ev_GeoCountryISO (Enrich H cfg m now e) = ev_GeoCountryISO e \<and>
   ev_GeoCityName (Enrich H cfg m now e) = ev_GeoCityName e \<and>
   ev_GeoLocation (Enrich H cfg m now e) = ev_GeoLocation e \<and>
   ev_IsSuspect (Enrich H cfg m now e) = ev_IsSuspect e \<and>
   ev_SuspicionReasons (Enrich H cfg m now e) = ev_SuspicionReasons e \<and>
   (TrimSpace (ev_TrafficQuality e) \<noteq> [] \<longrightarrow>
     ev_TrafficQuality (Enrich H cfg m now e) = ev_TrafficQuality e)"
  by (simp add: enrich_defs Let_def)

theorem enrichment_keeps_client_claims_witness:
  "ev_ClientIP (Enrich plain_host witness_config (NewRequestMetadata plain_host witness_request witness_config) 3
     (zero_event\<lparr>ev_ClientIP := ''203.0.113.9''\<rparr>)) = ''203.0.113.9''"
proof -
  have "\<not> cfg_CaptureClientIP witness_config" by (simp add: witness_config_def zero_config_def)
  then show ?thesis using enrichment_keeps_client_claims [of witness_config plain_host
      "NewRequestMetadata plain_host witness_request witness_config" 3 "zero_event\<lparr>ev_ClientIP := ''203.0.113.9''\<rparr>"]
    by simp
qed

text \<open>
  The language fields are consistent: the tags are the normalised non-empty tags of the header,
  each once, the primary tag is the first of them and the primary base its first segment in lower
  case; without a tag all four fields are empty.
\<close>

theorem language_fields_consistent:
  "distinct (ev_AcceptLanguageTags (applyAcceptLanguageDetails H e)) \<and>
   [] \<notin> set (ev_AcceptLanguageTags (applyAcceptLanguageDetails H e)) \<and>
   set (ev_AcceptLanguageTags (applyAcceptLanguageDetails H e)) =
     (if TrimSpace (ev_AcceptLanguage e) = [] then {}
      else normalizeLanguageTag H ` set (split_on CHR '','' (TrimSpace (ev_AcceptLanguage e))) - {[]}) \<and>
   (case ev_AcceptLanguageTags (applyAcceptLanguageDetails H e) of
      [] \<Rightarrow> ev_AcceptLanguagePrimaryTag (applyAcceptLanguageDetails H e) = [] \<and>
        ev_AcceptLanguagePrimaryBase (applyAcceptLanguageDetails H e) = [] \<and>
        ev_AcceptLanguagePrimaryRegion (applyAcceptLanguageDetails H e) = []
    | tag # tags \<Rightarrow> ev_AcceptLanguagePrimaryTag (applyAcceptLanguageDetails H e) = tag \<and>
        ev_AcceptLanguagePrimaryBase (applyAcceptLanguageDetails H e) = ToLower H (before CHR ''-'' tag))"
proof -
  let ?raw = "TrimSpace (ev_AcceptLanguage e)"
  let ?tags = "collect_tags H (split_on CHR '','' ?raw) []"
  have spec: "distinct ?tags \<and> [] \<notin> set ?tags \<and>
      set ?tags = normalizeLanguageTag H ` set (split_on CHR '','' ?raw) - {[]}"
    using collect_tags_spec [of "[]" H] by simp
  have hd_split: "hd (split_on CHR ''-'' s) = before CHR ''-'' s" for s
  proof (induction s)
    case (Cons a s)
    then show ?case
      by (cases "index_of CHR ''-'' s"; cases "split_on CHR ''-'' s") (auto simp: before_def simp del: index_of_None)
  qed (simp add: before_def)
  show ?thesis
  proof (cases "?raw = [] \<or> ?tags = []")
    case True
    with spec show ?thesis by (auto simp: applyAcceptLanguageDetails_def Let_def)
  next
    case False
    then obtain tag tags where "?tags = tag # tags" by (cases ?tags) auto
    with False spec show ?thesis by (simp add: applyAcceptLanguageDetails_def Let_def hd_split)
  qed
qed

text \<open>
  A time zone with an area and a location splits without loss: the two fields joined by a
  slash are the trimmed name.
\<close>

theorem timezone_splits_exactly:
  "(if CHR ''/'' \<in> set (TrimSpace (ev_Timezone e))
    then ev_TimezoneArea (applyTimezoneDetails e) @ ''/'' @ ev_TimezoneLocation (applyTimezoneDetails e)
    else ev_TimezoneArea (applyTimezoneDetails e)) = TrimSpace (ev_Timezone e)"
proof -
  let ?n = "TrimSpace (ev_Timezone e)"
  obtain p ps where ps: "split_on CHR ''/'' ?n = p # ps" by (cases "split_on CHR ''/'' ?n") auto
  have join: "join_with CHR ''/'' (p # ps) = ?n" using join_split [of "CHR ''/''" ?n] ps by simp
  have "CHR ''/'' \<notin> set p" using split_on_parts [of p "CHR ''/''" ?n] ps by simp
  have "CHR ''/'' \<in> set (join_with CHR ''/'' (p # ps)) \<longleftrightarrow> ps \<noteq> []"
    using \<open>CHR ''/'' \<notin> set p\<close> by (cases ps) simp_all
  then have "CHR ''/'' \<in> set ?n \<longleftrightarrow> ps \<noteq> []" by (simp only: join)
  with ps join show ?thesis by (cases ps) (auto simp: applyTimezoneDetails_def Let_def)
qed

end
