(* ===== verification/Json.thy ===== *)
theory Json
  imports Rfc3339 Event_Types "HOL-Library.AList"
begin

section \<open>JSON texts\<close>

text \<open>
  What \<open>internal/events/events.go\<close> uses of package \<open>encoding/json\<close>: the scanner's grammar on
  byte strings, with its bound on the nesting depth, the decoding of string literals and the
  conversion of number literals. A parsed value keeps the text of its strings, between the quotes,
  and of its numbers, because what they mean depends on where they are stored.
\<close>

datatype json =
    JNull
  | JBool bool
  | JNumber string
  | JString string
  | JArray "json list"
  | JObject "(string \<times> json) list"

subsection \<open>Lexical elements\<close>

definition json_space :: "char \<Rightarrow> bool" where
  "json_space c \<longleftrightarrow> byte c = 32 \<or> byte c = 9 \<or> byte c = 10 \<or> byte c = 13"

definition skip_space :: "string \<Rightarrow> string" where
  "skip_space s = dropWhile json_space s"

text \<open>Four hexadecimal digits and what follows them.\<close>

fun hex4 :: "string \<Rightarrow> (nat \<times> string) option" where
  "hex4 (a # b # c # d # s) =
     (case (hex_value a, hex_value b, hex_value c, hex_value d) of
        (Some w, Some x, Some y, Some z) \<Rightarrow> Some (((w * 16 + x) * 16 + y) * 16 + z, s)
      | _ \<Rightarrow> None)"
| "hex4 _ = None"

text \<open>The text of a string up to its closing quote, and what follows the quote.\<close>

fun scan_string :: "string \<Rightarrow> (string \<times> string) option" where
  "scan_string [] = None"
| "scan_string (c # s) =
     (if c = CHR 0x22 then Some ([], s)
      else if c = CHR 0x5C then
        (case s of
           [] \<Rightarrow> None
         | d # s1 \<Rightarrow>
             if d = CHR ''u'' then
               (if hex4 s1 = None then None
                else map_option (apfst (\<lambda>r. c # d # take 4 s1 @ r)) (scan_string (drop 4 s1)))
             else if d \<in> {CHR 0x22, CHR 0x5C, CHR ''/'', CHR ''b'', CHR ''f'', CHR ''n'', CHR ''r'', CHR ''t''}
             then map_option (apfst (\<lambda>r. c # d # r)) (scan_string s1)
             else None)
      else if byte c < 32 then None
      else map_option (apfst (Cons c)) (scan_string s))"

text \<open>The parts of a number: digits, an optional fraction, an optional exponent.\<close>

definition scan_digits :: "string \<Rightarrow> string \<times> string" where
  "scan_digits s = (takeWhile is_num s, dropWhile is_num s)"

definition scan_integer :: "string \<Rightarrow> (string \<times> string) option" where
  "scan_integer s = (case s of
       [] \<Rightarrow> None
     | c # s1 \<Rightarrow> if c = CHR ''0'' then Some ([c], s1)
                 else if is_num c then Some (scan_digits s) else None)"

definition scan_fraction :: "string \<Rightarrow> (string \<times> string) option" where
  "scan_fraction s = (case s of
       [] \<Rightarrow> Some ([], s)
     | c # s1 \<Rightarrow> if c \<noteq> CHR ''.'' then Some ([], s)
                 else (case scan_digits s1 of (ds, r) \<Rightarrow> if ds = [] then None else Some (c # ds, r)))"

definition scan_sign :: "char set \<Rightarrow> string \<Rightarrow> string \<times> string" where
  "scan_sign signs s = (case s of c # s1 \<Rightarrow> if c \<in> signs then ([c], s1) else ([], s) | [] \<Rightarrow> ([], s))"

definition scan_exponent :: "string \<Rightarrow> (string \<times> string) option" where
  "scan_exponent s = (case s of
       [] \<Rightarrow> Some ([], s)
     | c # s1 \<Rightarrow> if c \<noteq> CHR ''e'' \<and> c \<noteq> CHR ''E'' then Some ([], s)
                 else (case scan_sign {CHR ''+'', CHR ''-''} s1 of (sg, s2) \<Rightarrow>
                       (case scan_digits s2 of (ds, r) \<Rightarrow>
                          if ds = [] then None else Some (c # sg @ ds, r))))"

definition scan_number :: "string \<Rightarrow> (string \<times> string) option" where
  "scan_number s = (case scan_sign {CHR ''-''} s of (sg, s1) \<Rightarrow> do {
     (i, s2) \<leftarrow> scan_integer s1;
     (f, s3) \<leftarrow> scan_fraction s2;
     (x, s4) \<leftarrow> scan_exponent s3;
     Some (sg @ i @ f @ x, s4) })"

subsection \<open>Values\<close>

text \<open>\<open>maxNestingDepth\<close>: how many containers may be open at once.\<close>

definition max_depth :: nat where "max_depth = 10000"

definition literal :: "string \<Rightarrow> 'a \<Rightarrow> string \<Rightarrow> ('a \<times> string) option" where
  "literal word v s = (if take (length word) s = word then Some (v, drop (length word) s) else None)"

text \<open>
  A value, the members of an object behind its brace and the elements of an array behind its
  bracket; \<open>d\<close> containers are open. Of two nested calls at least one consumes a byte, so that more
  fuel than twice the number of bytes is enough.
\<close>

fun parse_value :: "nat \<Rightarrow> nat \<Rightarrow> string \<Rightarrow> (json \<times> string) option"
  and parse_members :: "nat \<Rightarrow> nat \<Rightarrow> string \<Rightarrow> ((string \<times> json) list \<times> string) option"
  and parse_elements :: "nat \<Rightarrow> nat \<Rightarrow> string \<Rightarrow> (json list \<times> string) option" where
  "parse_value 0 d s = None"
| "parse_value (Suc n) d s =
     (case skip_space s of
        [] \<Rightarrow> None
      | c # s1 \<Rightarrow>
          if c = CHR ''{'' then
            (if max_depth \<le> d then None
             else if take 1 (skip_space s1) = ''}'' then Some (JObject [], drop 1 (skip_space s1))
             else map_option (apfst JObject) (parse_members n (Suc d) s1))
          else if c = CHR ''['' then
            (if max_depth \<le> d then None
             else if take 1 (skip_space s1) = '']'' then Some (JArray [], drop 1 (skip_space s1))
             else map_option (apfst JArray) (parse_elements n (Suc d) s1))
          else if c = CHR 0x22 then map_option (apfst JString) (scan_string s1)
          else if c = CHR ''t'' then literal ''rue'' (JBool True) s1
          else if c = CHR ''f'' then literal ''alse'' (JBool False) s1
          else if c = CHR ''n'' then literal ''ull'' JNull s1
          else map_option (apfst JNumber) (scan_number (c # s1)))"
| "parse_members 0 d s = None"
| "parse_members (Suc n) d s =
     (case skip_space s of
        [] \<Rightarrow> None
      | c # s1 \<Rightarrow>
          if c \<noteq> CHR 0x22 then None
          else do {
            (key, s2) \<leftarrow> scan_string s1;
            (_, s3) \<leftarrow> literal '':'' () (skip_space s2);
            (v, s4) \<leftarrow> parse_value n d s3;
            (case skip_space s4 of
               [] \<Rightarrow> None
             | c1 # s5 \<Rightarrow>
                 if c1 = CHR ''}'' then Some ([(key, v)], s5)
                 else if c1 = CHR '','' then map_option (apfst (Cons (key, v))) (parse_members n d s5)
                 else None) })"
| "parse_elements 0 d s = None"
| "parse_elements (Suc n) d s = do {
     (v, s1) \<leftarrow> parse_value n d s;
     (case skip_space s1 of
        [] \<Rightarrow> None
      | c # s2 \<Rightarrow>
          if c = CHR '']'' then Some ([v], s2)
          else if c = CHR '','' then map_option (apfst (Cons v)) (parse_elements n d s2)
          else None) }"

definition parse_json :: "string \<Rightarrow> (json \<times> string) option" where
  "parse_json s = parse_value (2 * length s + 1) 0 s"

text \<open>One value with nothing but white space around it, as \<open>json.Unmarshal\<close> demands.\<close>

definition parse_text :: "string \<Rightarrow> json option" where
  "parse_text s = (case parse_json s of
       Some (v, r) \<Rightarrow> if skip_space r = [] then Some v else None
     | None \<Rightarrow> None)"

subsection \<open>The meaning of strings and numbers\<close>

definition escape_char :: "char \<Rightarrow> char" where
  "escape_char d = (if d = CHR ''b'' then CHR 0x08 else if d = CHR ''f'' then CHR 0x0C
     else if d = CHR ''n'' then CHR 0x0A else if d = CHR ''r'' then CHR 0x0D
     else if d = CHR ''t'' then CHR 0x09 else d)"

text \<open>
  The rune of an escape \<open>\u\<close> whose code is \<open>r\<close>, and what follows it: a high surrogate takes the
  low one behind it with it, any other surrogate is U+FFFD.
\<close>

definition surrogate_pair :: "nat \<Rightarrow> string \<Rightarrow> nat \<times> string" where
  "surrogate_pair r s =
     (if r < 55296 \<or> 57343 < r then (r, s)
      else if 56320 \<le> r \<or> take 2 s \<noteq> [CHR 0x5C, CHR ''u''] then (65533, s)
      else (case hex4 (drop 2 s) of
              Some (r1, s1) \<Rightarrow>
                if 56320 \<le> r1 \<and> r1 \<le> 57343 then ((r - 55296) * 1024 + (r1 - 56320) + 65536, s1) else (65533, s)
            | None \<Rightarrow> (65533, s)))"

lemma hex4_length: "hex4 s = Some (r, s1) \<Longrightarrow> length s = length s1 + 4 \<and> s1 = drop 4 s"
  by (cases s rule: hex4.cases) (auto split: option.splits)

lemma hex4_enough: "hex4 s = Some p \<Longrightarrow> 4 \<le> length s"
  by (cases s rule: hex4.cases) auto

lemma surrogate_pair_length: "length (snd (surrogate_pair r s)) \<le> length s"
  using hex4_length [of "drop 2 s"] by (fastforce simp: surrogate_pair_def split: option.splits)

function unquote :: "string \<Rightarrow> string" where
  "unquote [] = []"
| "unquote (c # s) =
     (if c = CHR 0x5C then
        (case s of
           [] \<Rightarrow> []
         | d # s1 \<Rightarrow>
             if d = CHR ''u'' then
               (case hex4 s1 of
                  None \<Rightarrow> []
                | Some (r, s2) \<Rightarrow> encode_rune (fst (surrogate_pair r s2)) @ unquote (snd (surrogate_pair r s2)))
             else escape_char d # unquote s1)
      else if is_ascii c then c # unquote s
      else encode_rune (fst (decode_rune c s)) @ unquote (snd (decode_rune c s)))"
  by pat_completeness auto
termination
proof (relation "measure length", goal_cases)
  case (2 c s d s1 a r s2)
  then have "length s1 = length s2 + 4" using hex4_length by auto
  with 2 surrogate_pair_length [of r s2] show ?case by simp
next
  case (5 c s)
  then show ?case using decode_rune_length [of c s] by simp
qed auto

text \<open>\<open>strconv.ParseInt(s, 10, 64)\<close> on the text of a number.\<close>

definition parse_int64 :: "string \<Rightarrow> int option" where
  "parse_int64 t =
     (let (sg, ds) = scan_sign {CHR ''-''} t; n = int (digits_value ds); k = (if sg = [] then n else - n) in
      if ds = [] \<or> \<not> list_all is_num ds \<or> \<not> in_int64 k then None else Some k)"

text \<open>
  \<open>strconv.ParseFloat(s, 64)\<close>: the nearest double, ties to even, of the quotient \<open>p / q\<close>; the
  result is a mantissa and a binary exponent. A value that rounds to \<open>2 ^ 1024\<close> or more is out of
  range.
\<close>

fun bit_length :: "nat \<Rightarrow> nat" where
  "bit_length n = (if n = 0 then 0 else Suc (bit_length (n div 2)))"

declare bit_length.simps [simp del]

definition div_even :: "nat \<Rightarrow> nat \<Rightarrow> nat" where
  "div_even a b = (let k = a div b; r = a mod b in if b < 2 * r \<or> (2 * r = b \<and> odd k) then Suc k else k)"

text \<open>\<open>p * 2 ^ - e\<close> over \<open>q\<close>, as a quotient of naturals.\<close>

definition scaled :: "nat \<Rightarrow> nat \<Rightarrow> int \<Rightarrow> nat \<times> nat" where
  "scaled p q e = (if 0 \<le> e then (p, q * 2 ^ nat e) else (p * 2 ^ nat (- e), q))"

definition float_exponent :: "nat \<Rightarrow> nat \<Rightarrow> int" where
  "float_exponent p q =
     (let e = int (bit_length p) - int (bit_length q) - 53; (a, b) = scaled p q e in
      max (- 1074) (if a < b * 2 ^ 53 then e else e + 1))"

definition round_float :: "nat \<Rightarrow> nat \<Rightarrow> nat \<times> int" where
  "round_float p q =
     (let e = float_exponent p q; (a, b) = scaled p q e in (div_even a b, e))"

definition float_value :: "nat \<times> int \<Rightarrow> real" where
  "float_value me = (case me of (m, e) \<Rightarrow> if 0 \<le> e then real m * 2 ^ nat e else real m / 2 ^ nat (- e))"

definition parse_float :: "string \<Rightarrow> f64 option" where
  "parse_float t =
     (let (sg, s1) = scan_sign {CHR ''-''} t; (i, s2) = scan_digits s1;
          (f, s3) = (case s2 of c # r \<Rightarrow> if c = CHR ''.'' then scan_digits r else ([], s2) | [] \<Rightarrow> ([], s2));
          (xs, ds) = scan_sign {CHR ''+'', CHR ''-''} (drop 1 s3);
          x = (if xs = ''-'' then - int (digits_value ds) else int (digits_value ds)) - int (length f);
          m = digits_value (i @ f);
          v = float_value (if 0 \<le> x then round_float (m * 10 ^ nat x) 1 else round_float m (10 ^ nat (- x))) in
      if v \<ge> 2 ^ 1024 then None else Some (Fin (if sg = [] then v else - v)))"

subsection \<open>Lemmas on the scanner\<close>

text \<open>How many containers are nested in a value.\<close>

fun nesting :: "json \<Rightarrow> nat" where
  "nesting (JArray vs) = Suc (Max (insert 0 (set (map nesting vs))))"
| "nesting (JObject ms) = Suc (Max (insert 0 (set (map (\<lambda>(k, v). nesting v) ms))))"
| "nesting v = 0"

text \<open>What may follow a number without becoming part of it.\<close>

definition number_ends :: "string \<Rightarrow> bool" where
  "number_ends t \<longleftrightarrow> (case t of [] \<Rightarrow> True | c # t1 \<Rightarrow> \<not> is_num c \<and> c \<notin> {CHR ''.'', CHR ''e'', CHR ''E''})"

lemma skip_space_append:
  "skip_space s \<noteq> [] \<Longrightarrow> skip_space (s @ t) = skip_space s @ t"
  "skip_space s = [] \<Longrightarrow> skip_space (s @ t) = skip_space t"
  by (induction s) (auto simp: skip_space_def)

lemma skip_space_suffix: "suffix (skip_space s) s"
  by (simp add: skip_space_def suffix_dropWhile)

lemma skip_space_length: "length (skip_space s) \<le> length s"
  by (simp add: skip_space_suffix suffix_length_le)

lemma skip_space_Cons: "skip_space s = c # s1 \<Longrightarrow> length s1 < length s"
  using skip_space_length [of s] by simp

lemma hex4_append: "hex4 s = Some (k, r) \<Longrightarrow> hex4 (s @ t) = Some (k, r @ t)"
  by (cases s rule: hex4.cases) (auto split: option.splits)

text \<open>The ways \<open>scan_string\<close> goes on.\<close>

lemma scan_string_cases:
  assumes "scan_string (c # s) = Some (x, r)"
  obtains (quote) "c = CHR 0x22" "x = []" "r = s"
    | (unicode) s1 k x1 where "c = CHR 0x5C" "s = CHR ''u'' # s1" "hex4 s1 = Some (k, drop 4 s1)"
        "scan_string (drop 4 s1) = Some (x1, r)" "x = c # CHR ''u'' # take 4 s1 @ x1"
    | (escape) d s1 x1 where "c = CHR 0x5C" "s = d # s1" "d \<noteq> CHR ''u''"
        "d \<in> {CHR 0x22, CHR 0x5C, CHR ''/'', CHR ''b'', CHR ''f'', CHR ''n'', CHR ''r'', CHR ''t''}"
        "scan_string s1 = Some (x1, r)" "x = c # d # x1"
    | (plain) x1 where "c \<noteq> CHR 0x22" "c \<noteq> CHR 0x5C" "\<not> byte c < 32" "scan_string s = Some (x1, r)" "x = c # x1"
proof (cases "c = CHR 0x22")
  case True
  with assms quote show thesis by simp
next
  case nq: False
  show thesis
  proof (cases "c = CHR 0x5C")
    case True
    with assms obtain d s1 where s: "s = d # s1" by (cases s) auto
    show thesis
    proof (cases "d = CHR ''u''")
      case u: True
      with assms True s obtain y where "hex4 s1 = Some y" by (auto split: if_splits)
      then obtain k where "hex4 s1 = Some (k, drop 4 s1)" using hex4_length by (cases y) fast
      moreover from this assms True s u obtain x1 where "scan_string (drop 4 s1) = Some (x1, r)" "x = c # CHR ''u'' # take 4 s1 @ x1"
        by (auto simp: map_option_case split: option.splits)
      ultimately show thesis using unicode True s u by blast
    next
      case False
      with assms True s have d: "d \<in> {CHR 0x22, CHR 0x5C, CHR ''/'', CHR ''b'', CHR ''f'', CHR ''n'', CHR ''r'', CHR ''t''}"
        by (simp add: nq split: if_split_asm)
      with escape [OF True s False d] assms True s False show thesis by (auto simp del: insert_iff)
    qed
  next
    case False
    with assms nq plain show thesis by (auto split: if_splits)
  qed
qed

declare scan_string.simps(2) [simp del]

lemma scan_string_length: "scan_string s = Some (x, r) \<Longrightarrow> length r < length s"
proof (induction "length s" arbitrary: s x r rule: less_induct)
  case less
  then obtain c s1 where s: "s = c # s1" by (cases s) auto
  with less(2) have "scan_string (c # s1) = Some (x, r)" by simp
  then show ?case using less(1) s by (cases rule: scan_string_cases) force+
qed

lemma scan_string_append: "scan_string s = Some (x, r) \<Longrightarrow> scan_string (s @ t) = Some (x, r @ t)"
proof (induction "length s" arbitrary: s x r rule: less_induct)
  case less
  then obtain c s1 where s: "s = c # s1" by (cases s) auto
  with less(2) have "scan_string (c # s1) = Some (x, r)" by simp
  then show ?case
  proof (cases rule: scan_string_cases)
    case quote
    with s show ?thesis by (simp add: scan_string.simps(2))
  next
    case (unicode s2 k x1)
    have len: "4 \<le> length s2" using unicode(3) by (rule hex4_enough)
    have "scan_string (drop 4 s2 @ t) = Some (x1, r @ t)" using less(1) unicode(2,4) s by simp
    with unicode len hex4_append [OF unicode(3)] s show ?thesis by (simp add: scan_string.simps(2))
  next
    case (escape d s2 x1)
    with less(1) [of s2] s have "scan_string (s2 @ t) = Some (x1, r @ t)" by simp
    with escape s show ?thesis by (auto simp: scan_string.simps(2))
  next
    case (plain x1)
    with less(1) [of s1] s show ?thesis by (simp add: scan_string.simps(2))
  qed
qed

lemma takeWhile_num_append:
  assumes "dropWhile is_num s = [] \<Longrightarrow> number_ends t"
  shows "takeWhile is_num (s @ t) = takeWhile is_num s" "dropWhile is_num (s @ t) = dropWhile is_num s @ t"
proof -
  have "dropWhile is_num s = [] \<Longrightarrow> takeWhile is_num t = [] \<and> dropWhile is_num t = t"
    using assms by (cases t) (auto simp: number_ends_def)
  then show "takeWhile is_num (s @ t) = takeWhile is_num s" "dropWhile is_num (s @ t) = dropWhile is_num s @ t"
    by (induction s) auto
qed

lemma scan_digits_append:
  "scan_digits s = (ds, r) \<Longrightarrow> (r = [] \<Longrightarrow> number_ends t) \<Longrightarrow> scan_digits (s @ t) = (ds, r @ t)"
  using takeWhile_num_append [of s t] by (auto simp: scan_digits_def)

lemma scan_integer_append:
  "scan_integer s = Some (x, r) \<Longrightarrow> (r = [] \<Longrightarrow> number_ends t) \<Longrightarrow> scan_integer (s @ t) = Some (x, r @ t)"
  using scan_digits_append [of s x r t]
  by (auto simp: scan_integer_def split: list.splits if_splits)

lemma scan_fraction_append:
  "scan_fraction s = Some (x, r) \<Longrightarrow> (r = [] \<Longrightarrow> number_ends t) \<Longrightarrow> scan_fraction (s @ t) = Some (x, r @ t)"
  using scan_digits_append [of "tl s" _ r t]
  by (auto simp: scan_fraction_def number_ends_def split: list.splits if_splits prod.splits)

lemma scan_exponent_append:
  assumes "scan_exponent s = Some (x, r)" "r = [] \<Longrightarrow> number_ends t"
  shows "scan_exponent (s @ t) = Some (x, r @ t)"
proof (cases "s \<noteq> [] \<and> (hd s = CHR ''e'' \<or> hd s = CHR ''E'')")
  case True
  then obtain c s1 where s: "s = c # s1" "c = CHR ''e'' \<or> c = CHR ''E''" by (cases s) auto
  obtain sg s2 where sign: "scan_sign {CHR ''+'', CHR ''-''} s1 = (sg, s2)" by (metis surj_pair)
  obtain ds r1 where ds: "scan_digits s2 = (ds, r1)" by (metis surj_pair)
  with assms(1) s sign have x: "ds \<noteq> []" "x = c # sg @ ds" "r1 = r"
    by (auto simp: scan_exponent_def split: if_splits)
  then have "s2 \<noteq> []" using ds by (auto simp: scan_digits_def)
  with sign have "scan_sign {CHR ''+'', CHR ''-''} (s1 @ t) = (sg, s2 @ t)"
    by (auto simp: scan_sign_def split: list.splits if_splits)
  moreover have "scan_digits (s2 @ t) = (ds, r @ t)" using scan_digits_append [OF ds] assms(2) x(3) by simp
  ultimately show ?thesis using s x by (auto simp: scan_exponent_def)
next
  case False
  with assms show ?thesis
    by (cases s) (auto simp: scan_exponent_def number_ends_def split: list.splits)
qed

lemma scan_number_append:
  assumes "scan_number s = Some (x, r)" "r = [] \<Longrightarrow> number_ends t"
  shows "scan_number (s @ t) = Some (x, r @ t)"
proof -
  obtain sg s1 where sign: "scan_sign {CHR ''-''} s = (sg, s1)" by (metis surj_pair)
  with assms(1) obtain i s2 f s3 e where parts: "scan_integer s1 = Some (i, s2)"
    "scan_fraction s2 = Some (f, s3)" "scan_exponent s3 = Some (e, r)" "x = sg @ i @ f @ e"
    by (auto simp: scan_number_def bind_eq_Some_conv)
  have "s1 \<noteq> []" using parts(1) by (auto simp: scan_integer_def)
  with sign have "scan_sign {CHR ''-''} (s @ t) = (sg, s1 @ t)"
    by (auto simp: scan_sign_def split: list.splits if_splits)
  moreover have "s3 = [] \<Longrightarrow> r = []" "s2 = [] \<Longrightarrow> s3 = []"
    using parts(2,3) by (auto simp: scan_exponent_def scan_fraction_def)
  then have "scan_exponent (s3 @ t) = Some (e, r @ t)" "scan_fraction (s2 @ t) = Some (f, s3 @ t)"
    "scan_integer (s1 @ t) = Some (i, s2 @ t)"
    using scan_exponent_append [OF parts(3)] scan_fraction_append [OF parts(2)]
      scan_integer_append [OF parts(1)] assms(2) by auto
  ultimately show ?thesis using parts(4) by (simp add: scan_number_def)
qed

lemma scan_sign_split: "scan_sign signs s = (sg, r) \<Longrightarrow> s = sg @ r"
  by (auto simp: scan_sign_def split: list.splits if_splits)

lemma scan_digits_split: "scan_digits s = (ds, r) \<Longrightarrow> s = ds @ r"
  by (auto simp: scan_digits_def)

lemma scan_number_split:
  assumes "scan_number s = Some (x, r)"
  shows "s = x @ r \<and> x \<noteq> []"
proof -
  obtain sg s1 where sign: "scan_sign {CHR ''-''} s = (sg, s1)" by (metis surj_pair)
  with assms obtain i s2 f s3 e where parts: "scan_integer s1 = Some (i, s2)"
    "scan_fraction s2 = Some (f, s3)" "scan_exponent s3 = Some (e, r)" "x = sg @ i @ f @ e"
    by (auto simp: scan_number_def bind_eq_Some_conv)
  have "s1 = i @ s2 \<and> i \<noteq> []"
    using parts(1) by (auto simp: scan_integer_def scan_digits_def split: list.splits if_splits)
  moreover have "s2 = f @ s3"
    using parts(2) by (auto simp: scan_fraction_def dest!: scan_digits_split split: list.splits if_splits prod.splits)
  moreover have "s3 = e @ r"
    using parts(3)
    by (auto simp: scan_exponent_def dest!: scan_digits_split scan_sign_split split: list.splits if_splits prod.splits)
  ultimately show ?thesis using scan_sign_split [OF sign] parts(4) by simp
qed

lemma literal_Some: "literal w u s = Some (v, r) \<longleftrightarrow> s = w @ r \<and> v = u"
  by (auto simp: literal_def) (metis append_take_drop_id)

text \<open>The ways a value, a list of members and a list of elements are read.\<close>

lemma parse_value_cases:
  assumes "parse_value (Suc n) d s = Some (v, r)"
  obtains (empty_object) s1 where "skip_space s = CHR ''{'' # s1" "d < max_depth" "skip_space s1 = CHR ''}'' # r" "v = JObject []"
    | (object) s1 ms where "skip_space s = CHR ''{'' # s1" "d < max_depth" "take 1 (skip_space s1) \<noteq> ''}''"
        "parse_members n (Suc d) s1 = Some (ms, r)" "v = JObject ms"
    | (empty_array) s1 where "skip_space s = CHR ''['' # s1" "d < max_depth" "skip_space s1 = CHR '']'' # r" "v = JArray []"
    | (array) s1 vs where "skip_space s = CHR ''['' # s1" "d < max_depth" "take 1 (skip_space s1) \<noteq> '']''"
        "parse_elements n (Suc d) s1 = Some (vs, r)" "v = JArray vs"
    | (quoted) s1 x where "skip_space s = CHR 0x22 # s1" "scan_string s1 = Some (x, r)" "v = JString x"
    | (word) c s1 w where "skip_space s = c # s1"
        "(c, w, v) \<in> {(CHR ''t'', ''rue'', JBool True), (CHR ''f'', ''alse'', JBool False), (CHR ''n'', ''ull'', JNull)}"
        "s1 = w @ r"
    | (number) c s1 x where "skip_space s = c # s1"
        "c \<notin> {CHR ''{'', CHR ''['', CHR 0x22, CHR ''t'', CHR ''f'', CHR ''n''}" "scan_number (c # s1) = Some (x, r)" "v = JNumber x"
proof -
  obtain c s1 where s: "skip_space s = c # s1" using assms by (auto split: list.splits)
  have one: "take 1 t = [b] \<longleftrightarrow> t = b # drop 1 t" for t :: string and b by (cases t) auto
  consider "c = CHR ''{''" | "c = CHR ''[''" | "c = CHR 0x22" | "c \<in> {CHR ''t'', CHR ''f'', CHR ''n''}"
    | "c \<notin> {CHR ''{'', CHR ''['', CHR 0x22, CHR ''t'', CHR ''f'', CHR ''n''}" by blast
  then show thesis
  proof cases
    case 1
    with assms s have d: "d < max_depth" by (simp split: if_split_asm)
    show thesis
    proof (cases "take 1 (skip_space s1) = ''}''")
      case True
      with assms s 1 d have "v = JObject []" "r = drop 1 (skip_space s1)" by simp_all
      with True empty_object s 1 d show thesis using one by metis
    next
      case False
      with assms s 1 d object show thesis by (auto simp: map_option_case split: option.splits)
    qed
  next
    case 2
    with assms s have d: "d < max_depth" by (simp split: if_split_asm)
    show thesis
    proof (cases "take 1 (skip_space s1) = '']''")
      case True
      with assms s 2 d have "v = JArray []" "r = drop 1 (skip_space s1)" by simp_all
      with True empty_array s 2 d show thesis using one by metis
    next
      case False
      with assms s 2 d array show thesis by (auto simp: map_option_case split: option.splits)
    qed
  next
    case 3
    with assms s quoted show thesis by auto
  next
    case 4
    with assms s word [of c s1] show thesis by (auto simp: literal_Some)
  next
    case 5
    with assms s number [of c s1] show thesis by auto
  qed
qed

lemma parse_members_cases:
  assumes "parse_members (Suc n) d s = Some (ms, r)"
  obtains s1 key s2 s3 v s4 where "skip_space s = CHR 0x22 # s1" "scan_string s1 = Some (key, s2)"
    "skip_space s2 = CHR '':'' # s3" "parse_value n d s3 = Some (v, s4)"
    "skip_space s4 = CHR ''}'' # r \<and> ms = [(key, v)] \<or>
     (\<exists>s5 ms1. skip_space s4 = CHR '','' # s5 \<and> parse_members n d s5 = Some (ms1, r) \<and> ms = (key, v) # ms1)"
proof -
  obtain s1 where s: "skip_space s = CHR 0x22 # s1" using assms by (auto split: list.splits if_splits)
  with assms obtain key s2 s3 v s4 where parts: "scan_string s1 = Some (key, s2)"
    "skip_space s2 = CHR '':'' # s3" "parse_value n d s3 = Some (v, s4)"
    by (auto simp: bind_eq_Some_conv literal_Some)
  with assms s have "(case skip_space s4 of [] \<Rightarrow> None | c1 # s5 \<Rightarrow>
       if c1 = CHR ''}'' then Some ([(key, v)], s5)
       else if c1 = CHR '','' then map_option (apfst (Cons (key, v))) (parse_members n d s5)
       else None) = Some (ms, r)"
    by (simp add: literal_def)
  then have "skip_space s4 = CHR ''}'' # r \<and> ms = [(key, v)] \<or>
     (\<exists>s5 ms1. skip_space s4 = CHR '','' # s5 \<and> parse_members n d s5 = Some (ms1, r) \<and> ms = (key, v) # ms1)"
    by (auto split: list.splits if_splits)
  with that s parts show thesis by blast
qed

lemma parse_elements_cases:
  assumes "parse_elements (Suc n) d s = Some (vs, r)"
  obtains v s1 where "parse_value n d s = Some (v, s1)"
    "skip_space s1 = CHR '']'' # r \<and> vs = [v] \<or>
     (\<exists>s2 vs1. skip_space s1 = CHR '','' # s2 \<and> parse_elements n d s2 = Some (vs1, r) \<and> vs = v # vs1)"
proof -
  obtain v s1 where v: "parse_value n d s = Some (v, s1)" using assms by (auto simp: bind_eq_Some_conv)
  with assms have "skip_space s1 = CHR '']'' # r \<and> vs = [v] \<or>
     (\<exists>s2 vs1. skip_space s1 = CHR '','' # s2 \<and> parse_elements n d s2 = Some (vs1, r) \<and> vs = v # vs1)"
    by (auto split: list.splits if_splits)
  with that v show thesis by blast
qed

declare parse_value.simps(2) [simp del] parse_members.simps(2) [simp del] parse_elements.simps(2) [simp del]

text \<open>Reading a value consumes input.\<close>

lemma parse_length:
  "parse_value n d s = Some (v, r) \<Longrightarrow> length r < length s"
  "parse_members n d s = Some (ms, r) \<Longrightarrow> length r < length s"
  "parse_elements n d s = Some (vs, r) \<Longrightarrow> length r < length s"
proof (induction n arbitrary: d s v r ms vs)
  case (Suc n)
  {
    case 1
    then show ?case
    proof (cases rule: parse_value_cases)
      case (number c s1 x)
      then show ?thesis using scan_number_split [of "c # s1" x r] skip_space_length [of s] by (cases x) auto
    next
      case (object s1 ms)
      with Suc(2) [OF object(4)] skip_space_Cons [OF object(1)] show ?thesis by simp
    next
      case (array s1 vs)
      with Suc(3) [OF array(4)] skip_space_Cons [OF array(1)] show ?thesis by simp
    next
      case (empty_object s1)
      with skip_space_Cons [OF empty_object(1)] skip_space_Cons [OF empty_object(3)] show ?thesis by simp
    next
      case (empty_array s1)
      with skip_space_Cons [OF empty_array(1)] skip_space_Cons [OF empty_array(3)] show ?thesis by simp
    next
      case (quoted s1 x)
      with scan_string_length [OF quoted(2)] skip_space_Cons [OF quoted(1)] show ?thesis by simp
    next
      case (word c s1 w)
      with skip_space_Cons [OF word(1)] show ?thesis by simp
    qed
  next
    case 2
    then show ?case
    proof (cases rule: parse_members_cases)
      case (1 s1 key s2 s3 v s4)
      from skip_space_Cons [OF 1(1)] scan_string_length [OF 1(2)] skip_space_Cons [OF 1(3)] Suc(1) [OF 1(4)]
      have "length s4 < length s" by simp
      with 1(5) Suc(2) show ?thesis by (force dest: skip_space_Cons)
    qed
  next
    case 3
    then show ?case
    proof (cases rule: parse_elements_cases)
      case (1 v s1)
      with Suc(1) [OF 1(1)] Suc(3) show ?thesis by (force dest: skip_space_Cons)
    qed
  }
qed simp_all

lemma nesting_le:
  "d + nesting (JObject ms) \<le> n \<longleftrightarrow> d < n \<and> (\<forall>(k, v)\<in>set ms. Suc d + nesting v \<le> n)"
  "d + nesting (JArray vs) \<le> n \<longleftrightarrow> d < n \<and> (\<forall>v\<in>set vs. Suc d + nesting v \<le> n)"
proof -
  have "d + Suc (Max (insert 0 (set xs))) \<le> n \<longleftrightarrow> d < n \<and> (\<forall>x\<in>set xs. Suc d + x \<le> n)" for xs :: "nat list"
  proof -
    have "Max (insert 0 (set xs)) \<le> k \<longleftrightarrow> (\<forall>x\<in>set xs. x \<le> k)" for k by (subst Max_le_iff) auto
    from this [of "n - Suc d"] show ?thesis by (cases "d < n") (auto simp: le_diff_conv2 Suc_le_eq less_diff_conv2)
  qed
  from this [of "map (\<lambda>(k, v). nesting v) ms"] this [of "map nesting vs"]
  show "d + nesting (JObject ms) \<le> n \<longleftrightarrow> d < n \<and> (\<forall>(k, v)\<in>set ms. Suc d + nesting v \<le> n)"
    "d + nesting (JArray vs) \<le> n \<longleftrightarrow> d < n \<and> (\<forall>v\<in>set vs. Suc d + nesting v \<le> n)"
    by (force simp: nesting.simps)+
qed

declare nesting.simps(1,2) [simp del]

text \<open>
  A value that was read is read again in any text that goes on as the first one did, at any depth
  that leaves room for it and with any fuel that exceeds its length.
\<close>

lemma parse_shift:
  "parse_value n d s = Some (v, r) \<Longrightarrow> 2 * length s < m \<Longrightarrow> d' + nesting v \<le> max_depth \<Longrightarrow>
     (r = [] \<Longrightarrow> number_ends t) \<Longrightarrow> parse_value m d' (s @ t) = Some (v, r @ t)"
  "parse_members n d s = Some (ms, r) \<Longrightarrow> 2 * length s < m \<Longrightarrow> \<forall>(k, v)\<in>set ms. d' + nesting v \<le> max_depth \<Longrightarrow>
     parse_members m d' (s @ t) = Some (ms, r @ t)"
  "parse_elements n d s = Some (vs, r) \<Longrightarrow> 2 * length s + 1 < m \<Longrightarrow> \<forall>v\<in>set vs. d' + nesting v \<le> max_depth \<Longrightarrow>
     parse_elements m d' (s @ t) = Some (vs, r @ t)"
proof (induction n arbitrary: d s v r m d' t ms vs)
  case (Suc n)
  {
    case 1
    then obtain m' where m: "m = Suc m'" by (cases m) auto
    have sp: "skip_space s = c # s1 \<Longrightarrow> skip_space (s @ t) = c # s1 @ t \<and> 2 * length s1 + 1 < m'" for c s1
      using skip_space_Cons [of s c s1] 1(2) by (simp add: m skip_space_append(1))
    have inner: "skip_space s1 = c # r \<Longrightarrow> skip_space (s1 @ t) = c # r @ t" for c s1
      by (simp add: skip_space_append(1))
    have front: "take 1 (skip_space s1) \<noteq> [c] \<Longrightarrow> skip_space s1 \<noteq> [] \<Longrightarrow> take 1 (skip_space (s1 @ t)) \<noteq> [c]" for c s1
      by (cases "skip_space s1") (simp_all add: skip_space_append(1))
    from 1(1) show ?case
    proof (cases rule: parse_value_cases)
      case (empty_object s1)
      with sp inner 1(3) show ?thesis by (simp add: m parse_value.simps(2) nesting_le)
    next
      case (object s1 ms)
      have "skip_space s1 \<noteq> []" using object(4) by (cases n) (auto simp: parse_members.simps(2))
      with object sp [OF object(1)] front Suc(2) [OF object(4), of m' "Suc d'"] 1(3)
      show ?thesis by (simp add: m parse_value.simps(2) nesting_le)
    next
      case (empty_array s1)
      with sp inner 1(3) show ?thesis by (simp add: m parse_value.simps(2) nesting_le)
    next
      case (array s1 vs)
      have "skip_space s1 \<noteq> []"
      proof (cases n)
        case (Suc k)
        then obtain v1 s2 where "parse_value k (Suc d) s1 = Some (v1, s2)"
          using array(4) by (auto elim: parse_elements_cases)
        then show ?thesis by (cases k) (auto simp: parse_value.simps(2))
      qed (use array in simp)
      with array sp [OF array(1)] front Suc(3) [OF array(4), of m' "Suc d'"] 1(3)
      show ?thesis by (simp add: m parse_value.simps(2) nesting_le)
    next
      case (quoted s1 x)
      with sp [OF quoted(1)] scan_string_append [OF quoted(2)] show ?thesis by (simp add: m parse_value.simps(2))
    next
      case (word c s1 w)
      with sp [OF word(1)] show ?thesis by (auto simp: m parse_value.simps(2) literal_def)
    next
      case (number c s1 x)
      with sp [OF number(1)] scan_number_append [OF number(3), of t] 1(4) show ?thesis
        by (simp add: m parse_value.simps(2))
    qed
  next
    case 2
    then obtain m' where m: "m = Suc m'" by (cases m) auto
    from 2(1) show ?case
    proof (cases rule: parse_members_cases)
      case (1 s1 key s2 s3 v s4)
      have s4: "s4 \<noteq> []" using 1(5) by (auto simp: skip_space_def)
      have len: "2 * length s3 < m'" "length s4 < length s3"
        using skip_space_Cons [OF 1(1)] scan_string_length [OF 1(2)] skip_space_Cons [OF 1(3)] parse_length(1) [OF 1(4)] 2(2)
        by (simp_all add: m)
      have "d' + nesting v \<le> max_depth" using 1(5) 2(3) by auto
      then have v: "parse_value m' d' (s3 @ t) = Some (v, s4 @ t)" using Suc(1) [OF 1(4) len(1)] s4 by simp
      have front: "skip_space (s @ t) = CHR 0x22 # s1 @ t" "scan_string (s1 @ t) = Some (key, s2 @ t)"
        "skip_space (s2 @ t) = CHR '':'' # s3 @ t"
        using 1(1-3) scan_string_append by (simp_all add: skip_space_append(1))
      from 1(5) show ?thesis
      proof (elim disjE exE conjE)
        assume "skip_space s4 = CHR ''}'' # r" "ms = [(key, v)]"
        with v front show ?thesis by (simp add: m parse_members.simps(2) literal_def skip_space_append(1))
      next
        fix s5 ms1 assume more: "skip_space s4 = CHR '','' # s5" "parse_members n d s5 = Some (ms1, r)" "ms = (key, v) # ms1"
        have "2 * length s5 < m'" using skip_space_Cons [OF more(1)] len by simp
        with Suc(2) [OF more(2), of m' d' t] more(3) 2(3) have "parse_members m' d' (s5 @ t) = Some (ms1, r @ t)" by simp
        with v front more show ?thesis by (simp add: m parse_members.simps(2) literal_def skip_space_append(1))
      qed
    qed
  next
    case 3
    then obtain m' where m: "m = Suc m'" by (cases m) auto
    from 3(1) show ?case
    proof (cases rule: parse_elements_cases)
      case (1 v s1)
      have s1: "s1 \<noteq> []" using 1(2) by (auto simp: skip_space_def)
      have "d' + nesting v \<le> max_depth" using 1(2) 3(3) by auto
      then have v: "parse_value m' d' (s @ t) = Some (v, s1 @ t)" using Suc(1) [OF 1(1)] 3(2) s1 by (simp add: m)
      from 1(2) show ?thesis
      proof (elim disjE exE conjE)
        assume "skip_space s1 = CHR '']'' # r" "vs = [v]"
        with v show ?thesis by (simp add: m parse_elements.simps(2) skip_space_append(1))
      next
        fix s2 vs1 assume more: "skip_space s1 = CHR '','' # s2" "parse_elements n d s2 = Some (vs1, r)" "vs = v # vs1"
        have "2 * length s2 + 1 < m'" using skip_space_Cons [OF more(1)] parse_length(1) [OF 1(1)] 3(2) by (simp add: m)
        with Suc(3) [OF more(2), of m' d' t] more(3) 3(3) have "parse_elements m' d' (s2 @ t) = Some (vs1, r @ t)" by simp
        with v more show ?thesis by (simp add: m parse_elements.simps(2) skip_space_append(1))
      qed
    qed
  }
qed simp_all

lemma parse_nesting:
  "parse_value n d s = Some (v, r) \<Longrightarrow> d \<le> max_depth \<Longrightarrow> d + nesting v \<le> max_depth"
  "parse_members n d s = Some (ms, r) \<Longrightarrow> d \<le> max_depth \<Longrightarrow> \<forall>(k, v)\<in>set ms. d + nesting v \<le> max_depth"
  "parse_elements n d s = Some (vs, r) \<Longrightarrow> d \<le> max_depth \<Longrightarrow> \<forall>v\<in>set vs. d + nesting v \<le> max_depth"
proof (induction n arbitrary: d s v r ms vs)
  case (Suc n)
  {
    case 1
    from 1(1) show ?case
    proof (cases rule: parse_value_cases)
      case (object s1 ms)
      with Suc(2) [OF object(4)] show ?thesis by (simp add: nesting_le)
    next
      case (array s1 vs)
      with Suc(3) [OF array(4)] show ?thesis by (simp add: nesting_le)
    qed (use 1 in \<open>auto simp: nesting_le\<close>)
  next
    case 2
    from 2(1) show ?case
    proof (cases rule: parse_members_cases)
      case (1 s1 key s2 s3 v s4)
      with Suc(1) [OF 1(4) 2(2)] Suc(2) 2(2) show ?thesis by fastforce
    qed
  next
    case 3
    from 3(1) show ?case
    proof (cases rule: parse_elements_cases)
      case (1 v s1)
      with Suc(1) [OF 1(1) 3(2)] Suc(3) 3(2) show ?thesis by fastforce
    qed
  }
qed simp_all

text \<open>With the fuel of \<open>parse_json\<close> or more, the fuel makes no difference.\<close>

lemma parse_fuel: "2 * length s < n \<Longrightarrow> parse_value n 0 s = parse_json s"
proof -
  have transfer: "parse_value m 0 s = Some (v, r)" if "parse_value k 0 s = Some (v, r)" "2 * length s < m" for k m v r
    using parse_shift(1) [OF that, of 0 "[]"] parse_nesting(1) [OF that(1)] by (simp add: number_ends_def)
  assume n: "2 * length s < n"
  show ?thesis
  proof (cases "parse_json s")
    case (Some p)
    with transfer n show ?thesis unfolding parse_json_def by (metis prod.collapse)
  next
    case None
    then have "parse_value n 0 s = Some (v, r) \<Longrightarrow> False" for v r
      using transfer [of n v r "2 * length s + 1"] by (simp add: parse_json_def)
    with None show ?thesis by (metis option.exhaust prod.collapse)
  qed
qed

end
