(* ===== verification/Decode.thy ===== *)
theory Decode
  imports Json Payload
begin

section \<open>Decoding the body of a request\<close>

text \<open>
  \<open>internal/events/events.go\<close>, \<open>DecodeBatch\<close>, \<open>decodeBatchRequest\<close> and \<open>ensureEOF\<close>, with what
  \<open>encoding/json\<close> does for the types they decode into. The package collects the first error and
  goes on; as every error discards the result, \<open>None\<close> stands for one as soon as it happens. A
  \<open>json.RawMessage\<close> is the value its text denotes. A field that occurs twice is decoded into what
  the first occurrence left: maps are merged, a slice is overwritten from its start in the array
  it has, so that the record of the decoder keeps these arrays.
\<close>

subsection \<open>Dynamic values\<close>

definition store_entry :: "string \<times> any \<Rightarrow> go_map \<Rightarrow> go_map" where
  "store_entry entry m = AList.update (fst entry) (snd entry) m"

fun to_any :: "json \<Rightarrow> any option" where
  "to_any JNull = Some ANil"
| "to_any (JBool b) = Some (ABool b)"
| "to_any (JNumber t) = map_option AFloat64 (parse_float t)"
| "to_any (JString t) = Some (AString (unquote t))"
| "to_any (JArray vs) = map_option ASlice (those (map to_any vs))"
| "to_any (JObject ms) =
     map_option (\<lambda>es. AMap (fold store_entry es []))
       (those (map (\<lambda>(k, v). map_option (Pair (unquote k)) (to_any v)) ms))"

definition decode_entries :: "(string \<times> json) list \<Rightarrow> go_map \<Rightarrow> go_map option" where
  "decode_entries ms m =
     map_option (\<lambda>es. fold store_entry es m)
       (those (map (\<lambda>(k, v). map_option (Pair (unquote k)) (to_any v)) ms))"

subsection \<open>The fields of an event\<close>

text \<open>
  \<open>foldName\<close> for the comparison with names of ASCII letters: the only runes above ASCII that fold
  to a letter are U+017F and U+212A.
\<close>

definition fold_rune :: "nat \<Rightarrow> nat" where
  "fold_rune r = (if 97 \<le> r \<and> r \<le> 122 then r - 32 else if r = 383 then 83 else if r = 8490 then 75 else r)"

definition fold_name :: "string \<Rightarrow> string" where
  "fold_name s = map_runes fold_rune s"

text \<open>The field a key belongs to: the one of that name, else the first whose name folds the same.\<close>

definition find_field :: "(string \<times> 'f) list \<Rightarrow> string \<Rightarrow> 'f option" where
  "find_field table key = (case map_of table key of
       Some f \<Rightarrow> Some f
     | None \<Rightarrow> map_of (map (apfst fold_name) table) (fold_name key))"

lemma fold_name_ascii:
  "list_all is_ascii s \<Longrightarrow> fold_name s = map (\<lambda>c. chr (fold_rune (byte c))) s"
proof (induction s)
  case (Cons c s)
  have "byte c < 128" using Cons.prems by (simp add: is_ascii_def)
  moreover from this have "fold_rune (byte c) < 128" by (auto simp: fold_rune_def)
  ultimately show ?case
    using Cons by (simp add: fold_name_def map_runes_def decode_rune_def encode_rune_def Let_def)
qed (simp add: fold_name_def map_runes_def)

text \<open>What a field decodes, for the fields that share a type the assignment.\<close>

datatype field =
    StringField "string \<Rightarrow> event \<Rightarrow> event"
  | UserIDField
  | PayloadField
  | TimeField
  | PointField
  | TagsField
  | OffsetField
  | SuspectField
  | ReasonsField

definition event_fields :: "(string \<times> field) list" where
  "event_fields =
     [(''type'', StringField (\<lambda>s. ev_Type_update (\<lambda>_. s))),
      (''site_id'', StringField (\<lambda>s. ev_SiteID_update (\<lambda>_. s))),
      (''timestamp'', StringField (\<lambda>s. ev_Timestamp_update (\<lambda>_. s))),
      (''session_id'', StringField (\<lambda>s. ev_SessionID_update (\<lambda>_. s))),
      (''anonymous_id'', StringField (\<lambda>s. ev_AnonymousID_update (\<lambda>_. s))),
      (''user_id'', UserIDField),
      (''path'', StringField (\<lambda>s. ev_Path_update (\<lambda>_. s))),
      (''url'', StringField (\<lambda>s. ev_URL_update (\<lambda>_. s))),
      (''referrer'', StringField (\<lambda>s. ev_Referrer_update (\<lambda>_. s))),
      (''title'', StringField (\<lambda>s. ev_Title_update (\<lambda>_. s))),
      (''payload'', PayloadField),
      (''received_at'', TimeField),
      (''request_host'', StringField (\<lambda>s. ev_RequestHost_update (\<lambda>_. s))),
      (''request_domain'', StringField (\<lambda>s. ev_RequestDomain_update (\<lambda>_. s))),
      (''client_ip'', StringField (\<lambda>s. ev_ClientIP_update (\<lambda>_. s))),
      (''geo_country_iso_code'', StringField (\<lambda>s. ev_GeoCountryISO_update (\<lambda>_. s))),
      (''geo_country_name'', StringField (\<lambda>s. ev_GeoCountryName_update (\<lambda>_. s))),
      (''geo_city_name'', StringField (\<lambda>s. ev_GeoCityName_update (\<lambda>_. s))),
      (''geo_location'', PointField),
      (''forwarded_for'', StringField (\<lambda>s. ev_ForwardedFor_update (\<lambda>_. s))),
      (''user_agent'', StringField (\<lambda>s. ev_UserAgent_update (\<lambda>_. s))),
      (''browser_family'', StringField (\<lambda>s. ev_BrowserFamily_update (\<lambda>_. s))),
      (''browser_version'', StringField (\<lambda>s. ev_BrowserVersion_update (\<lambda>_. s))),
      (''browser_major'', StringField (\<lambda>s. ev_BrowserMajor_update (\<lambda>_. s))),
      (''os_family'', StringField (\<lambda>s. ev_OSFamily_update (\<lambda>_. s))),
      (''os_version'', StringField (\<lambda>s. ev_OSVersion_update (\<lambda>_. s))),
      (''device_family'', StringField (\<lambda>s. ev_DeviceFamily_update (\<lambda>_. s))),
      (''device_brand'', StringField (\<lambda>s. ev_DeviceBrand_update (\<lambda>_. s))),
      (''device_model'', StringField (\<lambda>s. ev_DeviceModel_update (\<lambda>_. s))),
      (''device_type'', StringField (\<lambda>s. ev_DeviceType_update (\<lambda>_. s))),
      (''browser_engine'', StringField (\<lambda>s. ev_BrowserEngine_update (\<lambda>_. s))),
      (''accept_language'', StringField (\<lambda>s. ev_AcceptLanguage_update (\<lambda>_. s))),
      (''accept_language_primary_tag'', StringField (\<lambda>s. ev_AcceptLanguagePrimaryTag_update (\<lambda>_. s))),
      (''accept_language_primary_base'', StringField (\<lambda>s. ev_AcceptLanguagePrimaryBase_update (\<lambda>_. s))),
      (''accept_language_primary_region'', StringField (\<lambda>s. ev_AcceptLanguagePrimaryRegion_update (\<lambda>_. s))),
      (''accept_language_tags'', TagsField),
      (''timezone'', StringField (\<lambda>s. ev_Timezone_update (\<lambda>_. s))),
      (''timezone_area'', StringField (\<lambda>s. ev_TimezoneArea_update (\<lambda>_. s))),
      (''timezone_location'', StringField (\<lambda>s. ev_TimezoneLocation_update (\<lambda>_. s))),
      (''timezone_offset_minutes'', OffsetField),
      (''origin'', StringField (\<lambda>s. ev_Origin_update (\<lambda>_. s))),
      (''referer_header'', StringField (\<lambda>s. ev_RefererHeader_update (\<lambda>_. s))),
      (''scheme'', StringField (\<lambda>s. ev_Scheme_update (\<lambda>_. s))),
      (''remote_addr'', StringField (\<lambda>s. ev_RemoteAddr_update (\<lambda>_. s))),
      (''collector_version'', StringField (\<lambda>s. ev_CollectorVersion_update (\<lambda>_. s))),
      (''traffic_quality'', StringField (\<lambda>s. ev_TrafficQuality_update (\<lambda>_. s))),
      (''is_suspect'', SuspectField),
      (''suspicion_reasons'', ReasonsField)]"

text \<open>An event being decoded, with the arrays behind its two slices of strings.\<close>

record decoding =
  dc_event :: event
  dc_tags :: "string list"
  dc_reasons :: "string list"

definition start_decoding :: decoding where
  "start_decoding = \<lparr>dc_event = zero_event, dc_tags = [], dc_reasons = []\<rparr>"

definition on_event :: "(event \<Rightarrow> event) \<Rightarrow> decoding \<Rightarrow> decoding" where
  "on_event f d = d\<lparr>dc_event := f (dc_event d)\<rparr>"

text \<open>The elements of a slice of strings; \<open>null\<close> leaves what the array holds.\<close>

fun decode_strings :: "json list \<Rightarrow> string list \<Rightarrow> string list option" where
  "decode_strings [] old = Some []"
| "decode_strings (v # vs) old =
     (case v of
        JNull \<Rightarrow> map_option (Cons (case old of [] \<Rightarrow> [] | s # _ \<Rightarrow> s)) (decode_strings vs (drop 1 old))
      | JString t \<Rightarrow> map_option (Cons (unquote t)) (decode_strings vs (drop 1 old))
      | _ \<Rightarrow> None)"

text \<open>The slice and the array behind it; \<open>null\<close> and an empty array give a new slice.\<close>

definition decode_slice :: "json \<Rightarrow> string list \<Rightarrow> (string list \<times> string list) option" where
  "decode_slice v old = (case v of
       JNull \<Rightarrow> Some ([], [])
     | JArray vs \<Rightarrow> if vs = [] then Some ([], [])
                   else map_option (\<lambda>xs. (xs, xs @ drop (length xs) old)) (decode_strings vs old)
     | _ \<Rightarrow> None)"

text \<open>\<open>geo.Point\<close> has no tags: its keys are the names of its fields.\<close>

definition point_fields :: "(string \<times> (f64 \<Rightarrow> point \<Rightarrow> point)) list" where
  "point_fields = [(''Latitude'', \<lambda>x p. p\<lparr>Latitude := x\<rparr>), (''Longitude'', \<lambda>x p. p\<lparr>Longitude := x\<rparr>)]"

fun decode_point :: "(string \<times> json) list \<Rightarrow> point \<Rightarrow> point option" where
  "decode_point [] p = Some p"
| "decode_point ((key, v) # ms) p =
     (case find_field point_fields (unquote key) of
        None \<Rightarrow> None
      | Some set_coordinate \<Rightarrow>
          (case v of
             JNull \<Rightarrow> decode_point ms p
           | JNumber t \<Rightarrow> (case parse_float t of
                 None \<Rightarrow> None
               | Some x \<Rightarrow> decode_point ms (set_coordinate x p))
           | _ \<Rightarrow> None))"

definition decode_field :: "field \<Rightarrow> json \<Rightarrow> decoding \<Rightarrow> decoding option" where
  "decode_field f v d = (case f of
       StringField store \<Rightarrow> (case v of
           JNull \<Rightarrow> Some d
         | JString t \<Rightarrow> Some (on_event (store (unquote t)) d)
         | _ \<Rightarrow> None)
     | UserIDField \<Rightarrow> (case v of
           JNull \<Rightarrow> Some (on_event (\<lambda>e. e\<lparr>ev_UserID := None\<rparr>) d)
         | JString t \<Rightarrow> Some (on_event (\<lambda>e. e\<lparr>ev_UserID := Some (unquote t)\<rparr>) d)
         | _ \<Rightarrow> None)
     | PayloadField \<Rightarrow> (case v of
           JNull \<Rightarrow> Some (on_event (\<lambda>e. e\<lparr>ev_Payload := None\<rparr>) d)
         | JObject ms \<Rightarrow>
             map_option (\<lambda>m. on_event (\<lambda>e. e\<lparr>ev_Payload := Some m\<rparr>) d)
               (decode_entries ms (case ev_Payload (dc_event d) of None \<Rightarrow> [] | Some m \<Rightarrow> m))
         | _ \<Rightarrow> None)
     | TimeField \<Rightarrow> (case v of
           JNull \<Rightarrow> Some d
         | JString t \<Rightarrow> map_option (\<lambda>x. on_event (\<lambda>e. e\<lparr>ev_ReceivedAt := x\<rparr>) d) (parse_time t)
         | _ \<Rightarrow> None)
     | PointField \<Rightarrow> (case v of
           JNull \<Rightarrow> Some (on_event (\<lambda>e. e\<lparr>ev_GeoLocation := None\<rparr>) d)
         | JObject ms \<Rightarrow>
             map_option (\<lambda>p. on_event (\<lambda>e. e\<lparr>ev_GeoLocation := Some p\<rparr>) d)
               (decode_point ms (case ev_GeoLocation (dc_event d) of
                    None \<Rightarrow> \<lparr>Latitude = Fin 0, Longitude = Fin 0\<rparr> | Some p \<Rightarrow> p))
         | _ \<Rightarrow> None)
     | TagsField \<Rightarrow>
         map_option (\<lambda>(xs, back). (on_event (\<lambda>e. e\<lparr>ev_AcceptLanguageTags := xs\<rparr>) d)\<lparr>dc_tags := back\<rparr>)
           (decode_slice v (dc_tags d))
     | OffsetField \<Rightarrow> (case v of
           JNull \<Rightarrow> Some (on_event (\<lambda>e. e\<lparr>ev_TimezoneOffsetMinutes := None\<rparr>) d)
         | JNumber t \<Rightarrow> map_option (\<lambda>n. on_event (\<lambda>e. e\<lparr>ev_TimezoneOffsetMinutes := Some n\<rparr>) d) (parse_int64 t)
         | _ \<Rightarrow> None)
     | SuspectField \<Rightarrow> (case v of
           JNull \<Rightarrow> Some d
         | JBool b \<Rightarrow> Some (on_event (\<lambda>e. e\<lparr>ev_IsSuspect := b\<rparr>) d)
         | _ \<Rightarrow> None)
     | ReasonsField \<Rightarrow>
         map_option (\<lambda>(xs, back). (on_event (\<lambda>e. e\<lparr>ev_SuspicionReasons := xs\<rparr>) d)\<lparr>dc_reasons := back\<rparr>)
           (decode_slice v (dc_reasons d)))"

text \<open>\<open>DisallowUnknownFields\<close>: a key without a field is an error.\<close>

fun decode_members :: "(string \<times> json) list \<Rightarrow> decoding \<Rightarrow> decoding option" where
  "decode_members [] d = Some d"
| "decode_members ((key, v) # ms) d =
     (case find_field event_fields (unquote key) of
        None \<Rightarrow> None
      | Some f \<Rightarrow> (case decode_field f v d of
            None \<Rightarrow> None
          | Some d1 \<Rightarrow> decode_members ms d1))"

definition decode_event :: "json \<Rightarrow> event option" where
  "decode_event v = (case v of
       JNull \<Rightarrow> Some zero_event
     | JObject ms \<Rightarrow> map_option dc_event (decode_members ms start_decoding)
     | _ \<Rightarrow> None)"

subsection \<open>DecodeBatch\<close>

datatype decode_error = EmptyBatch | InvalidJSON

text \<open>The rest of the input behind the value that \<open>Decode\<close> has read: only white space may follow.\<close>

definition ensureEOF :: "string \<Rightarrow> bool" where
  "ensureEOF rest \<longleftrightarrow> skip_space rest = []"

text \<open>
  Whether the body is a batch request; for one that is, its events. The member \<open>events\<close> is a whole
  value, so that nothing follows it.
\<close>

definition decodeBatchRequest :: "string \<Rightarrow> decode_error + event list option" where
  "decodeBatchRequest body = (case parse_text body of
       Some (JObject ms) \<Rightarrow>
         let probe = fold (\<lambda>(k, v). AList.update (unquote k) v) ms [] in
         (case map_of probe ''events'' of
            None \<Rightarrow> Inr None
          | Some rawEvents \<Rightarrow>
              if length probe \<noteq> 1 then Inl InvalidJSON
              else (case rawEvents of
                      JNull \<Rightarrow> Inr (Some [])
                    | JArray vs \<Rightarrow> (case those (map decode_event vs) of
                          None \<Rightarrow> Inl InvalidJSON
                        | Some es \<Rightarrow> Inr (Some es))
                    | _ \<Rightarrow> Inl InvalidJSON))
     | _ \<Rightarrow> Inr None)"

definition decode_single :: "string \<Rightarrow> decode_error + event" where
  "decode_single body = (case parse_json body of
       None \<Rightarrow> Inl InvalidJSON
     | Some (v, rest) \<Rightarrow> (case decode_event v of
           None \<Rightarrow> Inl InvalidJSON
         | Some single \<Rightarrow> if ensureEOF rest then Inr single else Inl InvalidJSON))"

definition DecodeBatch :: "string \<Rightarrow> decode_error + event list" where
  "DecodeBatch body = (case decodeBatchRequest body of
       Inl err \<Rightarrow> Inl err
     | Inr (Some es) \<Rightarrow> if es = [] then Inl EmptyBatch else Inr es
     | Inr None \<Rightarrow> (case decode_single body of
           Inl err \<Rightarrow> Inl err
         | Inr single \<Rightarrow> Inr [single]))"

subsection \<open>Lemmas\<close>

lemma those_Some: "those xs = Some ys \<longleftrightarrow> xs = map Some ys"
proof (induction xs arbitrary: ys)
  case (Cons x xs)
  then show ?case by (cases ys) (auto split: option.splits)
qed auto

lemma those_map_Some: "those (map f vs) = Some ys \<longleftrightarrow> list_all2 (\<lambda>v y. f v = Some y) vs ys"
  by (auto simp: those_Some list_all2_conv_all_nth list_eq_iff_nth_eq)

lemma those_member:
  assumes "those (map f vs) = Some ys" "y \<in> set ys"
  shows "\<exists>v\<in>set vs. f v = Some y"
proof -
  have "Some y \<in> set (map Some ys)" using assms(2) by simp
  then have "Some y \<in> set (map f vs)" using assms(1) by (simp only: those_Some)
  then show ?thesis by auto
qed

text \<open>
  The dynamic values that decoding yields: the types of JSON, finite numbers, and maps with one
  value per key.
\<close>

fun json_any :: "any \<Rightarrow> bool" where
  "json_any (AFloat64 x) \<longleftrightarrow> (case x of Fin r \<Rightarrow> True | _ \<Rightarrow> False)"
| "json_any (AMap es) \<longleftrightarrow> distinct (map fst es) \<and> (\<forall>(k, v)\<in>set es. json_any v)"
| "json_any (ASlice vs) \<longleftrightarrow> (\<forall>v\<in>set vs. json_any v)"
| "json_any (AInt n) \<longleftrightarrow> False"
| "json_any (AInt32 n) \<longleftrightarrow> False"
| "json_any (AInt64 n) \<longleftrightarrow> False"
| "json_any v \<longleftrightarrow> True"

lemma json_any_types: "json_any v \<Longrightarrow> json_types v"
  by (induction v rule: json_any.induct) auto

lemma store_entries_ok:
  assumes "json_any (AMap m)" "\<forall>(k, v)\<in>set es. json_any v"
  shows "json_any (AMap (fold store_entry es m))"
  using assms
proof (induction es arbitrary: m)
  case (Cons p es)
  obtain k v where p: "p = (k, v)" by (cases p)
  have "set (AList.update k v m) \<subseteq> insert (k, v) (set m)"
    by (induction m) auto
  with Cons.prems p have "json_any (AMap (store_entry p m))"
    by (auto simp: store_entry_def distinct_update)
  from Cons.IH [OF this] Cons.prems show ?case by simp
qed simp

lemma parse_float_finite: "parse_float t = Some x \<Longrightarrow> \<exists>r. x = Fin r"
  by (auto simp: parse_float_def Let_def split: prod.splits if_splits)

lemma entries_of_members:
  "those (map (\<lambda>(k, v). map_option (Pair (unquote k)) (to_any v)) ms) = Some es \<Longrightarrow>
     \<forall>(k, y)\<in>set es. \<exists>(k0, v)\<in>set ms. to_any v = Some y"
  by (fastforce dest: those_member)

lemma to_any_ok: "to_any v = Some a \<Longrightarrow> json_any a"
proof (induction v arbitrary: a rule: to_any.induct)
  case (5 vs)
  then obtain ys where ys: "those (map to_any vs) = Some ys" "a = ASlice ys" by auto
  then have "\<forall>y\<in>set ys. \<exists>v\<in>set vs. to_any v = Some y"
    by (blast dest: those_member)
  with 5(1) ys show ?case by auto
next
  case (6 ms)
  then obtain es where es: "those (map (\<lambda>(k, v). map_option (Pair (unquote k)) (to_any v)) ms) = Some es"
    "a = AMap (fold store_entry es [])" by auto
  have "\<forall>(k, y)\<in>set es. json_any y" using entries_of_members [OF es(1)] 6(1) by fastforce
  with es(2) show ?case by (auto intro!: store_entries_ok simp del: json_any.simps(2)) simp
qed (auto dest: parse_float_finite)

text \<open>What a client can make of an event: the fields without a name stay as they are.\<close>

definition client_made :: "event \<Rightarrow> bool" where
  "client_made e \<longleftrightarrow> ev_DocumentID e = [] \<and> ev_ExtraHeaders e = None \<and>
     (\<forall>m\<in>set_option (ev_Payload e). json_any (AMap m)) \<and>
     (\<forall>n\<in>set_option (ev_TimezoneOffsetMinutes e). in_int64 n)"

lemma string_fields_keep:
  "(k, StringField store) \<in> set event_fields \<Longrightarrow>
     ev_DocumentID (store s e) = ev_DocumentID e \<and> ev_ExtraHeaders (store s e) = ev_ExtraHeaders e \<and>
     ev_Payload (store s e) = ev_Payload e \<and> ev_TimezoneOffsetMinutes (store s e) = ev_TimezoneOffsetMinutes e"
  by (auto simp: event_fields_def)

lemma find_field_member: "find_field table key = Some f \<Longrightarrow> \<exists>k. (k, f) \<in> set table"
  by (fastforce simp: find_field_def dest!: map_of_SomeD split: option.splits)

lemma decode_field_ok:
  assumes "(k, f) \<in> set event_fields" "client_made (dc_event d)" "decode_field f v d = Some d'"
  shows "client_made (dc_event d')"
proof (cases f)
  case (StringField store)
  with assms string_fields_keep [of k store] show ?thesis
    by (cases v) (auto simp: decode_field_def on_event_def client_made_def)
next
  case PayloadField
  show ?thesis
  proof (cases v)
    case (JObject ms)
    let ?old = "case ev_Payload (dc_event d) of None \<Rightarrow> [] | Some m \<Rightarrow> m"
    obtain es where es: "those (map (\<lambda>(k, v). map_option (Pair (unquote k)) (to_any v)) ms) = Some es"
      "d' = on_event (\<lambda>e. e\<lparr>ev_Payload := Some (fold store_entry es ?old)\<rparr>) d"
      using assms(3) PayloadField JObject by (auto simp: decode_field_def decode_entries_def)
    have "json_any (AMap ?old)" using assms(2) by (cases "ev_Payload (dc_event d)") (simp_all add: client_made_def)
    moreover have "\<forall>(k, y)\<in>set es. json_any y" using entries_of_members [OF es(1)] to_any_ok by fastforce
    ultimately have "json_any (AMap (fold store_entry es ?old))" by (rule store_entries_ok)
    with assms(2) es(2) show ?thesis by (simp add: client_made_def on_event_def del: json_any.simps(2))
  qed (use assms PayloadField in \<open>auto simp: decode_field_def on_event_def client_made_def\<close>)
next
  case OffsetField
  with assms show ?thesis
    by (cases v) (auto simp: decode_field_def on_event_def client_made_def parse_int64_def Let_def
        split: prod.splits if_splits)
next
  case TagsField
  with assms show ?thesis by (auto simp: decode_field_def on_event_def client_made_def)
next
  case ReasonsField
  with assms show ?thesis by (auto simp: decode_field_def on_event_def client_made_def)
qed (use assms in \<open>cases v; auto simp: decode_field_def on_event_def client_made_def\<close>)+

lemma decode_members_ok:
  "client_made (dc_event d) \<Longrightarrow> decode_members ms d = Some d' \<Longrightarrow> client_made (dc_event d')"
proof (induction ms d rule: decode_members.induct)
  case (2 key v ms d)
  then obtain f d1 where "find_field event_fields (unquote key) = Some f" "decode_field f v d = Some d1"
    "decode_members ms d1 = Some d'" by (auto split: option.splits)
  with 2 find_field_member decode_field_ok show ?case by metis
qed simp

lemma decode_event_ok: "decode_event v = Some e \<Longrightarrow> client_made e"
proof -
  have "client_made zero_event" by (simp add: client_made_def zero_event_def)
  then show "decode_event v = Some e \<Longrightarrow> client_made e"
    using decode_members_ok [of start_decoding]
    by (cases v) (auto simp: decode_event_def start_decoding_def)
qed

text \<open>Every event that is decoded comes from one value of the body.\<close>

lemma DecodeBatch_events:
  assumes "DecodeBatch body = Inr es"
  shows "es \<noteq> [] \<and> (\<forall>e\<in>set es. \<exists>v. decode_event v = Some e)"
proof (cases "decodeBatchRequest body")
  case (Inr batch)
  show ?thesis
  proof (cases batch)
    case None
    with assms Inr show ?thesis
      by (auto simp: DecodeBatch_def decode_single_def split: sum.splits option.splits if_splits)
  next
    case (Some es1)
    with assms Inr have es: "es = es1" "es \<noteq> []" by (auto simp: DecodeBatch_def split: if_splits)
    with Inr Some obtain vs where "those (map decode_event vs) = Some es"
      by (auto simp: decodeBatchRequest_def Let_def split: option.splits json.splits if_splits)
    then have "\<forall>e\<in>set es. \<exists>v. decode_event v = Some e"
      by (blast dest: those_member)
    with es show ?thesis by blast
  qed
qed (use assms in \<open>auto simp: DecodeBatch_def\<close>)

text \<open>A body that is one event, apart from the error.\<close>

lemma decode_single_Inr:
  "decode_single x = Inr e \<longleftrightarrow>
     (\<exists>v r. parse_json x = Some (v, r) \<and> decode_event v = Some e \<and> skip_space r = [])"
  by (auto simp: decode_single_def ensureEOF_def split: option.splits)

definition text_nesting :: "string \<Rightarrow> nat" where
  "text_nesting x = (case parse_json x of Some (v, r) \<Rightarrow> nesting v | None \<Rightarrow> 0)"

lemma parse_single:
  assumes "decode_single x = Inr e" "d + text_nesting x \<le> max_depth" "2 * length x < n" "c \<in> {CHR '','', CHR '']''}"
  shows "\<exists>v r. decode_event v = Some e \<and> parse_value n d (x @ c # t) = Some (v, r) \<and> skip_space r = c # t"
proof -
  obtain v r where v: "parse_json x = Some (v, r)" "decode_event v = Some e" "skip_space r = []"
    using assms(1) by (auto simp: decode_single_Inr)
  have "number_ends (c # t)" using assms(4) by (auto simp: number_ends_def is_num_def byte_def)
  with parse_shift(1) [of "2 * length x + 1" 0 x v r n d "c # t"] assms(2,3) v
  have "parse_value n d (x @ c # t) = Some (v, r @ c # t)" by (simp add: parse_json_def text_nesting_def)
  moreover have "skip_space (r @ c # t) = c # t"
    using v(3) assms(4) by (auto simp: skip_space_append(2)) (auto simp: skip_space_def json_space_def byte_def)
  ultimately show ?thesis using v(2) by blast
qed

lemma parse_singles:
  assumes "xs \<noteq> []" "list_all2 (\<lambda>x e. decode_single x = Inr e) xs es"
    "\<forall>x\<in>set xs. d + text_nesting x \<le> max_depth" "2 * length (join_with CHR '','' xs) + 1 < n"
  shows "\<exists>vs. list_all2 (\<lambda>v e. decode_event v = Some e) vs es \<and>
    parse_elements n d (join_with CHR '','' xs @ CHR '']'' # t) = Some (vs, t)"
  using assms
proof (induction xs arbitrary: es n)
  case (Cons x xs)
  obtain e es1 where es: "es = e # es1" "decode_single x = Inr e" "list_all2 (\<lambda>x e. decode_single x = Inr e) xs es1"
    using Cons.prems(2) by (cases es) auto
  obtain n1 where n: "n = Suc n1" using Cons.prems(4) by (cases n) auto
  have nest: "d + text_nesting x \<le> max_depth" using Cons.prems(3) by simp
  show ?case
  proof (cases "xs = []")
    case True
    then have "2 * length x < n1" using Cons.prems(4) n by (simp add: join_with_def)
    from parse_single [OF es(2) nest this, of "CHR '']''" t] obtain v r where
      "decode_event v = Some e" "parse_value n1 d (x @ CHR '']'' # t) = Some (v, r)" "skip_space r = CHR '']'' # t"
      by auto
    with True es n show ?thesis by (intro exI [of _ "[v]"]) (simp add: parse_elements.simps(2) join_with_def)
  next
    case False
    let ?rest = "join_with CHR '','' xs @ CHR '']'' # t"
    have join: "join_with CHR '','' (x # xs) = x @ CHR '','' # join_with CHR '','' xs" using False by (cases xs) simp_all
    then have "2 * length x < n1" "2 * length (join_with CHR '','' xs) + 1 < n1" using Cons.prems(4) n by simp_all
    with parse_single [OF es(2) nest, of n1 "CHR '',''" ?rest] Cons.IH [OF False es(3), of n1] Cons.prems(3)
    obtain v r vs where "decode_event v = Some e" "parse_value n1 d (x @ CHR '','' # ?rest) = Some (v, r)"
      "skip_space r = CHR '','' # ?rest" "list_all2 (\<lambda>v e. decode_event v = Some e) vs es1"
      "parse_elements n1 d ?rest = Some (vs, t)" by auto
    with join es n show ?thesis by (intro exI [of _ "v # vs"]) (simp add: parse_elements.simps(2))
  qed
qed simp

text \<open>The body of a batch request that holds the texts \<open>xs\<close>.\<close>

definition batch_text :: "string list \<Rightarrow> string" where
  \<open>batch_text xs = ''{"events":['' @ join_with CHR '','' xs @ '']}''\<close>

lemma parse_value_start:
  assumes "parse_value n d s = Some p"
  shows "take 1 (skip_space s) \<noteq> '']''"
proof (cases n)
  case (Suc k)
  obtain v r where "parse_value (Suc k) d s = Some (v, r)" using assms Suc by (cases p) simp
  then show ?thesis
  proof (cases rule: parse_value_cases)
    case (number c s1 x)
    have "scan_number (CHR '']'' # s1) = None"
      by (simp add: scan_number_def scan_sign_def scan_integer_def is_num_def byte_def)
    with number(3) have "c \<noteq> CHR '']''" by fastforce
    with number(1) show ?thesis by simp
  qed auto
qed (use assms in simp)

lemma parse_batch:
  assumes "xs \<noteq> []" "list_all2 (\<lambda>x e. decode_single x = Inr e) xs es" "\<forall>x\<in>set xs. 2 + text_nesting x \<le> max_depth"
  shows "\<exists>vs. list_all2 (\<lambda>v e. decode_event v = Some e) vs es \<and>
    parse_text (batch_text xs) = Some (JObject [(''events'', JArray vs)])"
proof -
  let ?j = "join_with CHR '','' xs"
  define k where "k = 2 * length ?j + 24"
  have deep: "\<forall>x\<in>set xs. Suc (Suc 0) + text_nesting x \<le> max_depth" using assms(3) by simp
  have "2 * length ?j + 1 < k" by (simp add: k_def)
  from parse_singles [OF assms(1,2) deep this, of "''}''"] obtain vs where
    vs: "list_all2 (\<lambda>v e. decode_event v = Some e) vs es" "parse_elements k (Suc (Suc 0)) (?j @ '']}'') = Some (vs, ''}'')"
    by auto
  then obtain k1 where "k = Suc k1" by (cases k) auto
  with vs(2) have start: "take 1 (skip_space (?j @ '']}'')) \<noteq> '']''"
    using parse_value_start by (auto elim: parse_elements_cases)
  have array: "parse_value (Suc k) (Suc 0) (CHR ''['' # ?j @ '']}'') = Some (JArray vs, ''}'')"
    using vs(2) start by (simp add: parse_value.simps(2) skip_space_def json_space_def byte_def max_depth_def)
  have members: "parse_members (Suc (Suc k)) (Suc 0) (drop 1 (batch_text xs)) = Some ([(''events'', JArray vs)], [])"
    using array by (simp add: batch_text_def parse_members.simps(2) skip_space_def json_space_def byte_def
        scan_string.simps(2) literal_def)
  have "parse_value (Suc (Suc (Suc k))) 0 (batch_text xs) = Some (JObject [(''events'', JArray vs)], [])"
    using members by (simp add: batch_text_def parse_value.simps(2) skip_space_def json_space_def byte_def max_depth_def)
  moreover have "Suc (Suc (Suc k)) = 2 * length (batch_text xs) + 1" by (simp add: batch_text_def k_def)
  ultimately have "parse_json (batch_text xs) = Some (JObject [(''events'', JArray vs)], [])"
    unfolding parse_json_def by (simp only:)
  with vs(1) show ?thesis by (auto simp: parse_text_def skip_space_def)
qed

lemma probe_keys:
  "set (map fst (fold (\<lambda>(k, v). AList.update (unquote k) v) ms m)) = set (map fst m) \<union> (unquote \<circ> fst) ` set ms"
proof (induction ms arbitrary: m)
  case (Cons p ms)
  obtain k v where p: "p = (k, v)" by (cases p)
  have "set (map fst (AList.update (unquote k) v m)) = insert (unquote k) (set (map fst m))"
    by (simp only: set_map dom_map_of_conv_image_fst [symmetric] update_conv') simp
  with Cons.IH [of "AList.update (unquote k) v m"] p show ?case by auto
qed simp

lemma decode_members_unknown:
  assumes "(k, v) \<in> set ms" "find_field event_fields (unquote k) = None"
  shows "decode_members ms d = None"
  using assms by (induction ms d rule: decode_members.induct) (auto split: option.splits)

lemma DecodeBatch_batch:
  assumes "xs \<noteq> []" "list_all2 (\<lambda>x e. decode_single x = Inr e) xs es"
    "\<forall>x\<in>set xs. 2 + text_nesting x \<le> max_depth"
  shows "DecodeBatch (batch_text xs) = Inr es"
proof -
  obtain vs where vs: "list_all2 (\<lambda>v e. decode_event v = Some e) vs es"
    "parse_text (batch_text xs) = Some (JObject [(''events'', JArray vs)])"
    using parse_batch [OF assms] by blast
  have "unquote ''events'' = ''events''" by (simp add: is_ascii_def byte_def)
  moreover have "those (map decode_event vs) = Some es" using vs(1) by (simp add: those_map_Some)
  moreover have "es \<noteq> []" using assms(1,2) by auto
  ultimately show ?thesis using vs(2) by (simp add: DecodeBatch_def decodeBatchRequest_def)
qed


text \<open>A value of the types of JSON is never of a type that the payload's checks reject.\<close>

lemma json_types_supported:
  "json_types v \<Longrightarrow> validatePayloadValue v d D mx \<noteq> Inl UnsupportedType"
  "\<forall>(k, v)\<in>set es. json_types v \<Longrightarrow> validate_entries es c d D mx \<noteq> Inl UnsupportedType"
  "\<forall>v\<in>set vs. json_types v \<Longrightarrow> validate_items vs c d D mx \<noteq> Inl UnsupportedType"
proof (induction v d D mx and es c d D mx and vs c d D mx
    rule: validatePayloadValue_validate_entries_validate_items.induct)
  case (1 v depth maxDepth mx)
  then show ?case by (cases v) (auto simp: validatePayloadValue.simps)
qed (auto split: sum.splits)

lemma validatePayload_supported:
  "json_any (AMap m) \<Longrightarrow> validatePayload (Some m) n D mx \<noteq> Some UnsupportedType"
  using json_types_supported(1) [of "AMap m" 1 D mx] json_any_types [of "AMap m"]
  by (auto simp: validatePayload_def split: sum.splits)

text \<open>Evaluation of the parser and the decoder on a given text.\<close>

lemmas scan_eval = parse_json_def parse_text_def parse_value.simps(2) parse_members.simps(2) parse_elements.simps(2)
  skip_space_def json_space_def scan_string.simps(2) literal_def byte_def max_depth_def eval_nat_numeral

lemmas decode_eval = decode_event_def decode_field_def on_event_def start_decoding_def find_field_def
  event_fields_def is_ascii_def byte_def

definition witness_text :: string where
  \<open>witness_text = ''{"type":"a","site_id":"b"}''\<close>

lemma witness_text_parsed:
  "parse_json witness_text = Some (JObject [(''type'', JString ''a''), (''site_id'', JString ''b'')], [])"
  by (simp add: witness_text_def scan_eval)

lemma witness_text_decoded:
  "decode_single witness_text = Inr (zero_event\<lparr>ev_Type := ''a'', ev_SiteID := ''b''\<rparr>)"
  by (simp add: decode_single_def witness_text_parsed ensureEOF_def skip_space_def decode_eval)

lemma witness_text_batch: "DecodeBatch witness_text = Inr [zero_event\<lparr>ev_Type := ''a'', ev_SiteID := ''b''\<rparr>]"
  by (simp add: DecodeBatch_def decodeBatchRequest_def parse_text_def witness_text_parsed skip_space_def
      witness_text_decoded is_ascii_def byte_def)

subsection \<open>Properties\<close>

text \<open>
  C11: A batch is the batch of its events: for texts each of which is accepted as one event, the
  request that lists them in an array decodes to exactly these events, in order; so a client may
  send its events one by one or together. (The two containers around them count for the depth that
  the decoder bounds.)
\<close>

theorem batch_equals_singles:
  assumes "xs \<noteq> []" "list_all2 (\<lambda>x e. decode_single x = Inr e) xs es"
    "\<forall>x\<in>set xs. 2 + text_nesting x \<le> max_depth"
  shows "DecodeBatch (batch_text xs) = Inr es"
  using DecodeBatch_batch [OF assms] .

theorem batch_equals_singles_witness:
  "DecodeBatch (batch_text [witness_text, witness_text]) =
     Inr [zero_event\<lparr>ev_Type := ''a'', ev_SiteID := ''b''\<rparr>, zero_event\<lparr>ev_Type := ''a'', ev_SiteID := ''b''\<rparr>]"
proof (rule batch_equals_singles)
  show "\<forall>x\<in>set [witness_text, witness_text]. 2 + text_nesting x \<le> max_depth"
    by (simp add: text_nesting_def witness_text_parsed nesting.simps max_depth_def)
qed (simp_all add: witness_text_decoded)

text \<open>
  C17: What a payload can contain: every payload that is decoded from a body consists of JSON's types
  with finite numbers and one value per key, so that the check for unsupported types never fires
  on a request, whatever the limits are; a time zone offset is a 64-bit integer.
\<close>

theorem decoded_payloads_are_json:
  assumes "DecodeBatch body = Inr es" "e \<in> set es"
  shows "(case ev_Payload e of None \<Rightarrow> True | Some m \<Rightarrow> json_any (AMap m)) \<and>
    validatePayload (ev_Payload e) maxEntries maxDepth mx \<noteq> Some UnsupportedType \<and>
    (case ev_TimezoneOffsetMinutes e of None \<Rightarrow> True | Some n \<Rightarrow> in_int64 n)"
proof -
  have e: "client_made e" using DecodeBatch_events [OF assms(1)] assms(2) decode_event_ok by blast
  show ?thesis
  proof (cases "ev_Payload e")
    case None
    with e show ?thesis by (simp add: client_made_def validatePayload_def split: option.split)
  next
    case (Some m)
    with e have "json_any (AMap m)" by (simp add: client_made_def)
    with e Some validatePayload_supported [OF this] show ?thesis
      by (simp add: client_made_def split: option.split)
  qed
qed

theorem decoded_payloads_are_json_witness:
  "validatePayload (ev_Payload (zero_event\<lparr>ev_Type := ''a'', ev_SiteID := ''b''\<rparr>)) 9 9 9 \<noteq> Some UnsupportedType"
  using decoded_payloads_are_json [OF witness_text_batch, of "zero_event\<lparr>ev_Type := ''a'', ev_SiteID := ''b''\<rparr>"]
  by simp

text \<open>
  C24: A client cannot choose the identifier an event is stored under, nor extra headers: a body that
  is accepted yields at least one event, and none has a document identifier or headers, whatever
  the names of its members are.
\<close>

theorem internal_fields_are_not_decoded:
  assumes "DecodeBatch body = Inr es"
  shows "es \<noteq> [] \<and> (\<forall>e\<in>set es. ev_DocumentID e = [] \<and> ev_ExtraHeaders e = None)"
  using DecodeBatch_events [OF assms] decode_event_ok unfolding client_made_def by blast

theorem internal_fields_are_not_decoded_witness:
  "ev_DocumentID (zero_event\<lparr>ev_Type := ''a'', ev_SiteID := ''b''\<rparr>) = []"
  using internal_fields_are_not_decoded [OF witness_text_batch] by simp

text \<open>
  C28: Unknown fields are errors: an object with a member that is no field of an event, nor the only
  kind of member, \<open>events\<close>, is rejected as a whole.
\<close>

theorem unknown_field_is_rejected:
  assumes "parse_text body = Some (JObject ms)" "(k, v) \<in> set ms" "find_field event_fields (unquote k) = None"
    "(k', v') \<in> set ms" "unquote k' \<noteq> ''events''"
  shows "DecodeBatch body = Inl InvalidJSON"
proof -
  let ?probe = "fold (\<lambda>(k, v). AList.update (unquote k) v) ms []"
  obtain r where r: "parse_json body = Some (JObject ms, r)"
    using assms(1) by (auto simp: parse_text_def split: option.splits if_splits)
  have single: "decode_single body = Inl InvalidJSON"
    using r decode_members_unknown [OF assms(2,3)] by (simp add: decode_single_def decode_event_def)
  show ?thesis
  proof (cases "map_of ?probe ''events''")
    case None
    with assms(1) single show ?thesis by (simp add: DecodeBatch_def decodeBatchRequest_def)
  next
    case (Some raw)
    have keys: "set (map fst ?probe) = (unquote \<circ> fst) ` set ms" using probe_keys [of ms "[]"] by simp
    have "''events'' \<in> fst ` set ?probe" using Some by (metis domI dom_map_of_conv_image_fst)
    moreover have "unquote k' \<in> (unquote \<circ> fst) ` set ms" using assms(4) by (metis comp_apply fst_conv image_eqI)
    ultimately have "{''events'', unquote k'} \<subseteq> set (map fst ?probe)" using keys by simp
    then have "card {''events'', unquote k'} \<le> card (set (map fst ?probe))" by (intro card_mono) simp_all
    also have "\<dots> \<le> length ?probe" using card_length [of "map fst ?probe"] by simp
    finally have "length ?probe \<noteq> 1" using assms(5) by auto
    with assms(1) Some show ?thesis by (simp add: DecodeBatch_def decodeBatchRequest_def)
  qed
qed

theorem unknown_field_is_rejected_witness:
  \<open>DecodeBatch ''{"x":null}'' = Inl InvalidJSON\<close>
proof -
  have \<open>parse_text ''{"x":null}'' = Some (JObject [(''x'', JNull)])\<close> by (simp add: scan_eval)
  then show \<open>DecodeBatch ''{"x":null}'' = Inl InvalidJSON\<close>
    by (rule unknown_field_is_rejected [where k = "''x''" and v = JNull and k' = "''x''" and v' = JNull])
      (simp_all add: decode_eval fold_name_ascii)
qed

end
