(* ===== verification/Media_Type.thy ===== *)
theory Media_Type
  imports Go_Strings
begin

section \<open>Media types\<close>

text \<open>
  \<open>ParseMediaType\<close> of package \<open>mime\<close>, as far as \<open>isJSONRequest\<close> uses it: whether a content type
  can be parsed, and its media type. A parameter whose name has a star goes to a map of its own in
  the library; as its name tells it from all others, one list of names and values does for both.
\<close>

definition is_tspecial :: "char \<Rightarrow> bool" where
  "is_tspecial c \<longleftrightarrow> c \<in> set ''()<>@,;:/[]?='' \<or> c = CHR 0x22 \<or> c = CHR 0x5C"

definition token_char :: "char \<Rightarrow> bool" where
  "token_char c \<longleftrightarrow> 0x20 < byte c \<and> byte c < 0x7F \<and> \<not> is_tspecial c"

definition consumeToken :: "string \<Rightarrow> string \<times> string" where
  "consumeToken v = (takeWhile token_char v, dropWhile token_char v)"

definition checkMediaTypeDisposition :: "string \<Rightarrow> bool" where
  "checkMediaTypeDisposition s =
     (let (typ, rest) = consumeToken s in
      if typ = [] then False
      else (case rest of
          [] \<Rightarrow> True
        | c # t \<Rightarrow> c = CHR ''/'' \<and> (let (subtype, rest1) = consumeToken t in subtype \<noteq> [] \<and> rest1 = [])))"

text \<open>
  A quoted string behind its opening quote. A backslash is an escape only before a special
  character; a line break, or no closing quote, is an error.
\<close>

fun quoted_value :: "string \<Rightarrow> (string \<times> string) option" where
  "quoted_value [] = None"
| "quoted_value [r] = (if r = CHR 0x22 then Some ([], []) else None)"
| "quoted_value (r # e # u) =
     (if r = CHR 0x22 then Some ([], e # u)
      else if r = CHR 0x5C \<and> is_tspecial e then map_option (apfst (Cons e)) (quoted_value u)
      else if r = CHR 0x0D \<or> r = CHR 0x0A then None
      else map_option (apfst (Cons r)) (quoted_value (e # u)))"

definition consumeValue :: "string \<Rightarrow> string \<times> string" where
  "consumeValue v = (case v of
       [] \<Rightarrow> ([], [])
     | c # t \<Rightarrow> if c \<noteq> CHR 0x22 then consumeToken v
               else (case quoted_value t of Some r \<Rightarrow> r | None \<Rightarrow> ([], v)))"

definition consumeMediaParam :: "host \<Rightarrow> string \<Rightarrow> (string \<times> string \<times> string) option" where
  "consumeMediaParam H v = (case trim_left v of
       [] \<Rightarrow> None
     | semicolon # v1 \<Rightarrow>
         if semicolon \<noteq> CHR '';'' then None
         else (let (name, v2) = consumeToken (trim_left v1); param = ToLower H name in
               if param = [] then None
               else (case trim_left v2 of
                   [] \<Rightarrow> None
                 | equals # v3 \<Rightarrow>
                     if equals \<noteq> CHR ''='' then None
                     else (let rest = trim_left v3; (val, rest2) = consumeValue rest in
                           if val = [] \<and> rest2 = rest then None else Some (param, val, rest2)))))"

lemma trim_left_length: "length (trim_left s) \<le> length s"
proof (induction s rule: trim_left.induct)
  case (1 s)
  then show ?case by (cases "space_width s = 0") (simp_all add: trim_left.simps [of s])
qed

lemma quoted_value_length: "quoted_value s = Some (val, rest) \<Longrightarrow> length rest \<le> length s"
  by (induction s arbitrary: val rule: quoted_value.induct) (fastforce split: if_splits)+

lemma consumeValue_length: "consumeValue s = (val, rest) \<Longrightarrow> length rest \<le> length s"
  by (auto simp: consumeValue_def consumeToken_def le_SucI length_dropWhile_le dest: quoted_value_length
      split: list.splits if_splits option.splits)

lemma consumeMediaParam_length:
  assumes "consumeMediaParam H v = Some (param, val, rest)"
  shows "length rest < length v"
proof -
  obtain v1 v3 where v: "trim_left v = CHR '';'' # v1" "trim_left (dropWhile token_char (trim_left v1)) = CHR ''='' # v3"
    "consumeValue (trim_left v3) = (val, rest)"
    using assms by (auto simp: consumeMediaParam_def consumeToken_def Let_def split: list.splits if_splits prod.splits)
  have "length rest \<le> length v3" using consumeValue_length [OF v(3)] trim_left_length [of v3] by simp
  moreover have "length v3 < length v1"
    using arg_cong [OF v(2), of length] trim_left_length [of "dropWhile token_char (trim_left v1)"]
      length_dropWhile_le [of token_char "trim_left v1"] trim_left_length [of v1] by simp
  moreover have "length v1 < length v" using arg_cong [OF v(1), of length] trim_left_length [of v] by simp
  ultimately show ?thesis by simp
qed

text \<open>The parameters; a semicolon at the end is ignored, a name may occur again with the same value.\<close>

function media_params :: "host \<Rightarrow> string \<Rightarrow> (string \<times> string) list \<Rightarrow> bool" where
  "media_params H v0 params =
     (let v = trim_left v0 in
      if v = [] then True
      else (case consumeMediaParam H v of
          None \<Rightarrow> TrimSpace v = '';''
        | Some (key, val, rest) \<Rightarrow>
            (case map_of params key of
               None \<Rightarrow> media_params H rest ((key, val) # params)
             | Some val' \<Rightarrow> if val' \<noteq> val then False else media_params H rest params)))"
  by pat_completeness auto
termination
proof (relation "measure (\<lambda>(H, v, params). length v)", goal_cases)
  case 1
  show ?case by simp
next
  case (2 H v0 params v p key r val rest)
  then show ?case using consumeMediaParam_length [of H v key val rest] trim_left_length [of v0] by simp
next
  case (3 H v0 params v p key r val rest val')
  then show ?case using consumeMediaParam_length [of H v key val rest] trim_left_length [of v0] by simp
qed

declare media_params.simps [simp del]

definition ParseMediaType :: "host \<Rightarrow> string \<Rightarrow> string option" where
  "ParseMediaType H v =
     (let base = takeWhile (\<lambda>c. c \<noteq> CHR '';'') v; mediatype = TrimSpace (ToLower H base) in
      if checkMediaTypeDisposition mediatype \<and> media_params H (drop (length base) v) [] then Some mediatype
      else None)"


subsection \<open>Lemmas\<close>

lemma token_char_ascii: "token_char c \<Longrightarrow> is_ascii c \<and> \<not> ascii_space c \<and> c \<noteq> CHR ''='' \<and> c \<noteq> CHR '';'' \<and> c \<noteq> CHR 0x22"
  by (auto simp: token_char_def is_tspecial_def is_ascii_def ascii_space_def)

lemma trim_left_front: "is_ascii c \<Longrightarrow> \<not> ascii_space c \<Longrightarrow> trim_left (c # s) = c # s"
  by (subst trim_left.simps) (auto simp: is_ascii_def wide_space2_def wide_space3_def split: list.split)

lemma consumeToken_append:
  "list_all token_char s \<Longrightarrow> \<not> token_char c \<Longrightarrow> consumeToken (s @ c # t) = (s, c # t)"
  by (simp add: consumeToken_def takeWhile_append2 dropWhile_append2 list_all_iff)

text \<open>One parameter that consists of a token and a token or nothing but white space follows the media type.\<close>

lemma ParseMediaType_parameter:
  assumes "list_all token_char name" "name \<noteq> []" "list_all token_char val" "val \<noteq> []"
  shows "ParseMediaType H (''application/json; '' @ name @ ''='' @ val) = Some ''application/json''"
proof -
  obtain n ns v vs where [simp]: "name = n # ns" "val = v # vs" using assms(2,4) by (cases name; cases val) auto
  have n: "token_char n" "token_char v" using assms(1,3) by simp_all
  have base: "takeWhile (\<lambda>c. c \<noteq> CHR '';'') (''application/json; '' @ name @ ''='' @ val) = ''application/json''" by simp
  have json: "TrimSpace (ToLower H ''application/json'') = ''application/json''" by code_simp
  have disposition: "checkMediaTypeDisposition ''application/json''" by code_simp
  have "ToLower H name \<noteq> []"
    using assms(1) token_char_ascii by (simp add: ToLower_def list_all_iff)
  moreover have "trim_left ('' '' @ name @ ''='' @ val) = name @ ''='' @ val"
    using trim_left_front [of n] token_char_ascii [OF n(1)]
    by (subst trim_left.simps) (simp add: ascii_space_def byte_def)
  moreover have "trim_left val = val" using trim_left_front [of v vs] token_char_ascii [OF n(2)] by simp
  moreover have "consumeValue val = (val, [])"
    using token_char_ascii [OF n(2)] assms(3) by (simp add: consumeValue_def consumeToken_def list_all_iff takeWhile_eq_all_conv [THEN iffD2])
  moreover have "\<not> token_char CHR ''=''" by code_simp
  then have "consumeToken (name @ ''='' @ val) = (name, ''='' @ val)"
    using consumeToken_append [OF assms(1)] by simp
  moreover have "trim_left (CHR ''='' # val) = CHR ''='' # val" "trim_left (CHR '';'' # s) = CHR '';'' # s" for s
    by (rule trim_left_front; simp add: is_ascii_def ascii_space_def byte_def)+
  ultimately have "consumeMediaParam H (''; '' @ name @ ''='' @ val) = Some (ToLower H name, val, [])"
    by (simp add: consumeMediaParam_def)
  moreover have "trim_left (''; '' @ name @ ''='' @ val) = ''; '' @ name @ ''='' @ val"
    by (simp add: trim_left_front is_ascii_def ascii_space_def byte_def)
  moreover have "trim_left [] = []" by code_simp
  ultimately have "media_params H (''; '' @ name @ ''='' @ val) []" by (simp add: media_params.simps)
  then show ?thesis unfolding ParseMediaType_def base using json disposition by simp
qed

end
