(* ===== verification/Geo.thy ===== *)
theory Geo
  imports Event_Types
begin

section \<open>The GeoIP resolver\<close>

text \<open>
  \<open>internal/geo/geo.go\<close>. The interface \<open>Resolver\<close> is the locale \<open>geo_resolver\<close>, as far as the
  request handler relies on it. The database library is the record \<open>geo_library\<close>: parsing an
  address, and looking it up in an open database. A reader is a handle; the resolver also keeps
  the list of handles it has closed, to say that it never uses one of them. What \<open>os.Stat\<close> and
  \<open>maxminddb.Open\<close> return at a call is an argument of the operation.
\<close>

record geo_result =
  gr_CountryISOCode :: string
  gr_CountryName :: string
  gr_CityName :: string
  gr_Point :: "point option"

record city_record =
  cr_ISOCode :: string
  cr_CountryNames :: "(string \<times> string) list"
  cr_CityNames :: "(string \<times> string) list"
  cr_Latitude :: "f64 option"
  cr_Longitude :: "f64 option"

record 'r geo_library =
  gl_parseAddr :: "string \<Rightarrow> bool"
  gl_lookup :: "'r \<Rightarrow> string \<Rightarrow> city_record option"

record file_info =
  fi_file :: nat
  fi_modTime :: int
  fi_size :: int

record 'r resolver =
  rv_reader :: 'r
  rv_fileInfo :: file_info
  rv_closed :: "'r list"

datatype geo_error = StatFailed | OpenFailed | ReloadFailed | CloseFailed

definition in_range :: "real \<Rightarrow> f64 \<Rightarrow> bool" where
  "in_range bound x = (case x of Fin r \<Rightarrow> - bound \<le> r \<and> r \<le> bound | _ \<Rightarrow> False)"

text \<open>A missing key of a Go map of strings reads as the empty string.\<close>

definition name_of :: "string \<Rightarrow> (string \<times> string) list \<Rightarrow> string" where
  "name_of k m = (case map_of m k of None \<Rightarrow> [] | Some v \<Rightarrow> v)"

definition validPoint :: "f64 option \<Rightarrow> f64 option \<Rightarrow> point option" where
  "validPoint lat lon = (case (lat, lon) of
       (Some x, Some y) \<Rightarrow>
         if in_range 90 x \<and> in_range 180 y then Some \<lparr>Latitude = x, Longitude = y\<rparr> else None
     | _ \<Rightarrow> None)"

definition new_resolver :: "'r option \<Rightarrow> file_info option \<Rightarrow> geo_error + 'r resolver" where
  "new_resolver opened stat = (case opened of
       None \<Rightarrow> Inl OpenFailed
     | Some reader \<Rightarrow> (case stat of
           None \<Rightarrow> Inl StatFailed
         | Some info \<Rightarrow> Inr \<lparr>rv_reader = reader, rv_fileInfo = info, rv_closed = []\<rparr>))"

definition Lookup :: "'r geo_library \<Rightarrow> 'r resolver \<Rightarrow> string \<Rightarrow> geo_result option" where
  "Lookup L r rawIP =
     (if \<not> gl_parseAddr L rawIP then None
      else (case gl_lookup L (rv_reader r) rawIP of
              None \<Rightarrow> None
            | Some rec \<Rightarrow>
                let result = \<lparr>gr_CountryISOCode = cr_ISOCode rec,
                              gr_CountryName = name_of ''en'' (cr_CountryNames rec),
                              gr_CityName = name_of ''en'' (cr_CityNames rec),
                              gr_Point = validPoint (cr_Latitude rec) (cr_Longitude rec)\<rparr>
                in if gr_CountryISOCode result = [] \<and> gr_CountryName result = [] \<and> gr_CityName result = []
                   then None else Some result))"

text \<open>
  \<open>os.SameFile\<close> compares the identity of the file. The result is the reloaded flag and the error;
  \<open>closeOk\<close> says whether closing the previous reader succeeds.
\<close>

definition ReloadIfChanged :: "file_info option \<Rightarrow> 'r option \<Rightarrow> bool \<Rightarrow> 'r resolver \<Rightarrow>
    (bool \<times> geo_error option) \<times> 'r resolver" where
  "ReloadIfChanged stat opened closeOk r = (case stat of
       None \<Rightarrow> ((False, Some StatFailed), r)
     | Some info \<Rightarrow>
         if fi_file info = fi_file (rv_fileInfo r) \<and> fi_modTime info = fi_modTime (rv_fileInfo r) \<and>
           fi_size info = fi_size (rv_fileInfo r)
         then ((False, None), r)
         else (case opened of
                 None \<Rightarrow> ((False, Some ReloadFailed), r)
               | Some reader \<Rightarrow>
                   ((True, if closeOk then None else Some CloseFailed),
                    r\<lparr>rv_reader := reader, rv_fileInfo := info, rv_closed := rv_reader r # rv_closed r\<rparr>)))"

definition Close :: "'r resolver \<Rightarrow> 'r resolver" where
  "Close r = r\<lparr>rv_closed := rv_reader r # rv_closed r\<rparr>"

subsection \<open>The interface\<close>

definition point_ok :: "point \<Rightarrow> bool" where
  "point_ok p \<longleftrightarrow> in_range 90 (Latitude p) \<and> in_range 180 (Longitude p)"

text \<open>
  What the handler relies on: a result names a place and its point, if there is one, is finite and
  within the ranges of a latitude and a longitude.
\<close>

locale geo_resolver =
  fixes lookup :: "'g \<Rightarrow> string \<Rightarrow> geo_result option"
  assumes names_place: "lookup g ip = Some res \<Longrightarrow>
      gr_CountryISOCode res \<noteq> [] \<or> gr_CountryName res \<noteq> [] \<or> gr_CityName res \<noteq> []"
    and point_in_range: "lookup g ip = Some res \<Longrightarrow> gr_Point res = Some p \<Longrightarrow> point_ok p"
begin

text \<open>The four assignments of the handler for an event with a result.\<close>

lemma located:
  assumes "lookup g ip = Some res"
    "e' = e\<lparr>ev_GeoCountryISO := gr_CountryISOCode res, ev_GeoCountryName := gr_CountryName res,
       ev_GeoCityName := gr_CityName res, ev_GeoLocation := gr_Point res\<rparr>"
  shows "(ev_GeoCountryISO e' \<noteq> [] \<or> ev_GeoCountryName e' \<noteq> [] \<or> ev_GeoCityName e' \<noteq> []) \<and>
    (\<forall>p\<in>set_option (ev_GeoLocation e'). point_ok p)"
  using names_place [OF assms(1)] point_in_range [OF assms(1)] by (simp add: assms(2))

end

lemma validPoint_ok: "validPoint lat lon = Some p \<Longrightarrow> point_ok p"
  by (auto simp: validPoint_def point_ok_def split: option.splits if_splits)

lemma Lookup_names_place:
  "Lookup L r ip = Some res \<Longrightarrow> gr_CountryISOCode res \<noteq> [] \<or> gr_CountryName res \<noteq> [] \<or> gr_CityName res \<noteq> []"
  by (auto simp: Lookup_def Let_def split: if_splits option.splits)

lemma Lookup_point: "Lookup L r ip = Some res \<Longrightarrow> gr_Point res = Some p \<Longrightarrow> point_ok p"
  by (auto simp: Lookup_def Let_def validPoint_ok split: if_splits option.splits)

interpretation mm: geo_resolver "Lookup L" for L
  by unfold_locales (rule Lookup_names_place, assumption, rule Lookup_point)

lemma reload_step:
  assumes "rv_reader r \<notin> set (rv_closed r)" "\<forall>reader\<in>set_option opened. reader \<notin> set (rv_reader r # rv_closed r)"
    "ReloadIfChanged stat opened closeOk r = ((reloaded, err), r')"
  shows "rv_reader r' \<notin> set (rv_closed r') \<and>
    (if reloaded then opened = Some (rv_reader r') \<and> rv_closed r' = rv_reader r # rv_closed r \<and>
       stat = Some (rv_fileInfo r') \<and> ReloadIfChanged stat opened' ok' r' = ((False, None), r')
     else r' = r)"
proof (cases stat)
  case None
  with assms show ?thesis by (simp add: ReloadIfChanged_def)
next
  case (Some info)
  let ?same = "fi_file info = fi_file (rv_fileInfo r) \<and> fi_modTime info = fi_modTime (rv_fileInfo r) \<and>
      fi_size info = fi_size (rv_fileInfo r)"
  show ?thesis
  proof (cases "?same \<or> opened = None")
    case True
    with Some assms show ?thesis by (cases ?same) (simp_all add: ReloadIfChanged_def)
  next
    case False
    then obtain reader where "opened = Some reader" "\<not> ?same" by blast
    with Some assms(3) have "reloaded" "r' = r\<lparr>rv_reader := reader, rv_fileInfo := info,
        rv_closed := rv_reader r # rv_closed r\<rparr>" by (auto simp: ReloadIfChanged_def)
    with Some assms(2) \<open>opened = Some reader\<close> show ?thesis by (simp add: ReloadIfChanged_def)
  qed
qed

subsection \<open>Properties\<close>

text \<open>
  The resolver never serves from a reader it has closed: reloading keeps the reader when the
  file is unchanged, when it cannot be examined and when the new database does not open; otherwise
  it serves from the new reader, has closed exactly the previous one, and does not reload again
  while the file stays as it is.
\<close>

theorem reload_swaps_reader:
  assumes "rv_reader r \<notin> set (rv_closed r)" "\<forall>reader\<in>set_option opened. reader \<notin> set (rv_reader r # rv_closed r)"
    "ReloadIfChanged stat opened closeOk r = ((reloaded, err), r')"
  shows "rv_reader r' \<notin> set (rv_closed r') \<and>
    (if reloaded then opened = Some (rv_reader r') \<and> rv_closed r' = rv_reader r # rv_closed r \<and>
       stat = Some (rv_fileInfo r') \<and> ReloadIfChanged stat opened' ok' r' = ((False, None), r')
     else r' = r)"
  using reload_step [OF assms] .

definition witness_resolver :: "nat resolver" where
  "witness_resolver = \<lparr>rv_reader = 1, rv_fileInfo = \<lparr>fi_file = 7, fi_modTime = 100, fi_size = 10\<rparr>, rv_closed = []\<rparr>"

theorem reload_swaps_reader_witness:
  "\<exists>r'. ReloadIfChanged (Some \<lparr>fi_file = 7, fi_modTime = 200, fi_size = 10\<rparr>) (Some 2) True witness_resolver =
     ((True, None), r') \<and> rv_reader r' = 2 \<and> rv_closed r' = [1]"
proof -
  let ?stat = "Some \<lparr>fi_file = 7, fi_modTime = 200, fi_size = 10\<rparr>"
  obtain r' where run: "ReloadIfChanged ?stat (Some 2) True witness_resolver = ((True, None), r')"
    by (simp add: ReloadIfChanged_def witness_resolver_def)
  have "rv_reader witness_resolver \<notin> set (rv_closed witness_resolver)"
    "\<forall>reader\<in>set_option (Some 2). reader \<notin> set (rv_reader witness_resolver # rv_closed witness_resolver)"
    by (simp_all add: witness_resolver_def)
  from reload_swaps_reader [OF this run, of None True] run show ?thesis
    by (simp add: witness_resolver_def)
qed

end
