(* ===== verification/Rate_Limiter.thy ===== *)
theory Rate_Limiter
  imports Prelude "HOL-Library.AList"
begin

section \<open>The per-client rate limiter\<close>

text \<open>
  \<open>internal/httpapi/ratelimiter.go\<close>. The map of clients is an association list with one entry
  per key (\<open>AList.update\<close> is the map assignment), times are nanoseconds since Go's zero time
  and \<open>Truncate(time.Minute)\<close> rounds down to a multiple of a minute since it. A nil receiver is
  \<open>None\<close>. \<open>Allow\<close> runs under the mutex, so a run of the program is a sequence of calls, with
  the times each caller read before it took the lock.
\<close>

record rateLimitState =
  rs_windowStart :: int
  rs_count :: int

record rateLimiter =
  rl_limit :: int
  rl_maxClients :: int
  rl_clients :: "(string \<times> rateLimitState) list"
  rl_windowStart :: int

definition minute :: int where "minute = 60000000000"

definition truncate_minute :: "int \<Rightarrow> int" where
  "truncate_minute t = t - t mod minute"

definition newRateLimiter :: "int \<Rightarrow> int \<Rightarrow> rateLimiter" where
  "newRateLimiter limit maxClients =
     \<lparr>rl_limit = limit, rl_maxClients = (if maxClients \<le> 0 then 100000 else maxClients),
      rl_clients = [], rl_windowStart = 0\<rparr>"

definition allow_locked :: "rateLimiter \<Rightarrow> string \<Rightarrow> int \<Rightarrow> bool \<times> rateLimiter" where
  "allow_locked r0 clientID windowStart =
     (let r = (if rl_windowStart r0 \<noteq> windowStart
               then r0\<lparr>rl_clients := [], rl_windowStart := windowStart\<rparr> else r0);
          found = map_of (rl_clients r) clientID;
          state0 = (case found of None \<Rightarrow> \<lparr>rs_windowStart = 0, rs_count = 0\<rparr> | Some s \<Rightarrow> s);
          state = (if rs_windowStart state0 \<noteq> windowStart
                   then \<lparr>rs_windowStart = windowStart, rs_count = 0\<rparr> else state0)
      in if found = None \<and> int (length (rl_clients r)) \<ge> rl_maxClients r then (False, r)
         else if rs_count state \<ge> rl_limit r
         then (False, r\<lparr>rl_clients := AList.update clientID state (rl_clients r)\<rparr>)
         else (True, r\<lparr>rl_clients :=
                 AList.update clientID (state\<lparr>rs_count := rs_count state + 1\<rparr>) (rl_clients r)\<rparr>))"

definition Allow :: "rateLimiter option \<Rightarrow> string \<Rightarrow> int \<Rightarrow> bool \<times> rateLimiter option" where
  "Allow r clientID now =
     (case r of None \<Rightarrow> (True, r)
      | Some l \<Rightarrow>
          if rl_limit l = 0 \<or> clientID = [] then (True, r)
          else (case allow_locked l clientID (truncate_minute now) of (ok, l') \<Rightarrow> (ok, Some l')))"

fun run_allow :: "rateLimiter option \<Rightarrow> (string \<times> int) list \<Rightarrow> bool list \<times> rateLimiter option" where
  "run_allow r [] = ([], r)"
| "run_allow r ((clientID, now) # calls) =
     (let (ok, r1) = Allow r clientID now; (oks, r2) = run_allow r1 calls in (ok # oks, r2))"

subsection \<open>The invariant\<close>

definition limiter_inv :: "rateLimiter \<Rightarrow> bool" where
  "limiter_inv r \<longleftrightarrow> 0 < rl_limit r \<and> 0 < rl_maxClients r \<and> distinct (map fst (rl_clients r)) \<and>
     int (length (rl_clients r)) \<le> rl_maxClients r \<and>
     (\<forall>(c, s) \<in> set (rl_clients r). rs_windowStart s = rl_windowStart r \<and>
        0 \<le> rs_count s \<and> rs_count s \<le> rl_limit r)"

definition used :: "rateLimiter \<Rightarrow> string \<Rightarrow> int \<Rightarrow> int" where
  "used r c w = (if rl_windowStart r = w
     then (case map_of (rl_clients r) c of None \<Rightarrow> 0 | Some s \<Rightarrow> rs_count s) else 0)"

lemma newRateLimiter_simps [simp]:
  "rl_limit (newRateLimiter limit maxClients) = limit"
  "rl_windowStart (newRateLimiter limit maxClients) = 0"
  by (simp_all add: newRateLimiter_def)

lemma newRateLimiter_inv: "0 < limit \<Longrightarrow> limiter_inv (newRateLimiter limit maxClients)"
  by (simp add: limiter_inv_def newRateLimiter_def)

lemma length_alist_update:
  "length (AList.update k v xs) = (if map_of xs k = None then Suc (length xs) else length xs)"
  by (induction xs) auto

lemma set_alist_update: "p \<in> set (AList.update k v xs) \<Longrightarrow> p = (k, v) \<or> p \<in> set xs"
  by (induction xs) (auto split: if_splits)

lemma map_of_inv:
  assumes "limiter_inv r" "map_of (rl_clients r) c = Some s"
  shows "rs_windowStart s = rl_windowStart r" "0 \<le> rs_count s" "rs_count s \<le> rl_limit r"
  using assms map_of_SomeD [OF assms(2)] by (auto simp: limiter_inv_def)

lemma used_bounds:
  assumes "limiter_inv r"
  shows "0 \<le> used r c w" "used r c w \<le> rl_limit r"
  using assms map_of_inv [OF assms] by (auto simp: used_def limiter_inv_def split: option.splits)

text \<open>The limiter at the start of the critical section, with the window already moved.\<close>

definition enter_window :: "rateLimiter \<Rightarrow> int \<Rightarrow> rateLimiter" where
  "enter_window r w =
     (if rl_windowStart r \<noteq> w then r\<lparr>rl_clients := [], rl_windowStart := w\<rparr> else r)"

lemma enter_window_inv: "limiter_inv r \<Longrightarrow> limiter_inv (enter_window r w)"
  by (auto simp: enter_window_def limiter_inv_def)

lemma enter_window_simps [simp]:
  "rl_windowStart (enter_window r w) = w" "rl_limit (enter_window r w) = rl_limit r"
  "rl_maxClients (enter_window r w) = rl_maxClients r"
  "used (enter_window r w) c w = used r c w"
  by (auto simp: enter_window_def used_def)

lemma limiter_inv_update:
  assumes "limiter_inv r" "map_of (rl_clients r) c \<noteq> None \<or> int (length (rl_clients r)) < rl_maxClients r"
    "rs_windowStart s = rl_windowStart r" "0 \<le> rs_count s" "rs_count s \<le> rl_limit r"
  shows "limiter_inv (r\<lparr>rl_clients := AList.update c s (rl_clients r)\<rparr>)"
  using assms
  by (auto simp: limiter_inv_def length_alist_update distinct_update dest!: set_alist_update)

text \<open>The whole behaviour of one call, in terms of what the client has used of its window.\<close>

lemma allow_locked_spec:
  assumes inv: "limiter_inv r0" and res: "allow_locked r0 c w = (ok, r')"
  defines "r \<equiv> enter_window r0 w"
  shows "limiter_inv r'" "rl_windowStart r' = w" "rl_limit r' = rl_limit r0"
    "rl_maxClients r' = rl_maxClients r0"
    "ok \<longleftrightarrow> used r c w < rl_limit r0 \<and>
       (map_of (rl_clients r) c \<noteq> None \<or> int (length (rl_clients r)) < rl_maxClients r0)"
    "used r' d w = (if d = c \<and> ok then used r0 d w + 1 else used r0 d w)"
proof -
  have invr: "limiter_inv r" unfolding r_def by (rule enter_window_inv [OF inv])
  have rw: "rl_windowStart r = w" "rl_limit r = rl_limit r0" "rl_maxClients r = rl_maxClients r0"
    "used r e w = used r0 e w" for e by (simp_all add: r_def)
  have lim: "0 < rl_limit r0" using inv by (simp add: limiter_inv_def)
  define s where "s = (case map_of (rl_clients r) c of None \<Rightarrow> \<lparr>rs_windowStart = w, rs_count = 0\<rparr> | Some s \<Rightarrow> s)"
  have s: "rs_windowStart s = w" "rs_count s = used r c w"
    using map_of_inv(1) [OF invr] rw(1) by (auto simp: s_def used_def split: option.splits)
  note b = used_bounds [OF invr, of c w]
  have norm: "(if rs_windowStart (case map_of (rl_clients r) c of None \<Rightarrow> \<lparr>rs_windowStart = 0, rs_count = 0\<rparr> | Some s \<Rightarrow> s) \<noteq> w
      then \<lparr>rs_windowStart = w, rs_count = 0\<rparr>
      else (case map_of (rl_clients r) c of None \<Rightarrow> \<lparr>rs_windowStart = 0, rs_count = 0\<rparr> | Some s \<Rightarrow> s)) = s"
    using s(1) by (auto simp: s_def split: option.splits)
  have res': "(if map_of (rl_clients r) c = None \<and> int (length (rl_clients r)) \<ge> rl_maxClients r0 then (False, r)
     else if rs_count s \<ge> rl_limit r0
     then (False, r\<lparr>rl_clients := AList.update c s (rl_clients r)\<rparr>)
     else (True, r\<lparr>rl_clients := AList.update c (s\<lparr>rs_count := rs_count s + 1\<rparr>) (rl_clients r)\<rparr>)) = (ok, r')"
    using res unfolding allow_locked_def Let_def enter_window_def [symmetric] r_def [symmetric]
    by (simp only: norm rw)
  consider (capped) "map_of (rl_clients r) c = None" "int (length (rl_clients r)) \<ge> rl_maxClients r0"
      "ok = False" "r' = r"
    | (over) "map_of (rl_clients r) c \<noteq> None \<or> int (length (rl_clients r)) < rl_maxClients r0"
      "rl_limit r0 \<le> used r c w" "ok = False"
      "r' = r\<lparr>rl_clients := AList.update c s (rl_clients r)\<rparr>"
    | (pass) "map_of (rl_clients r) c \<noteq> None \<or> int (length (rl_clients r)) < rl_maxClients r0"
      "used r c w < rl_limit r0" "ok = True"
      "r' = r\<lparr>rl_clients := AList.update c (s\<lparr>rs_count := rs_count s + 1\<rparr>) (rl_clients r)\<rparr>"
    using res' s(2) by (auto split: if_splits)
  note cases = this
  show "limiter_inv r'"
    using cases by cases (use invr rw s b in \<open>auto intro!: limiter_inv_update\<close>)
  show "rl_windowStart r' = w" "rl_limit r' = rl_limit r0" "rl_maxClients r' = rl_maxClients r0"
    using cases by (cases; simp add: rw)+
  show "ok \<longleftrightarrow> used r c w < rl_limit r0 \<and>
       (map_of (rl_clients r) c \<noteq> None \<or> int (length (rl_clients r)) < rl_maxClients r0)"
    using cases by cases auto
  show "used r' d w = (if d = c \<and> ok then used r0 d w + 1 else used r0 d w)"
    using cases
  proof cases
    case capped
    then show ?thesis by (simp add: rw)
  next
    case over
    have "used r' d w = used r d w"
      using over(4) s rw(1) by (auto simp: used_def update_conv')
    with over(3) show ?thesis by (simp add: rw)
  next
    case pass
    have "used r' d w = (if d = c then used r d w + 1 else used r d w)"
      using pass(4) s rw(1) by (auto simp: used_def update_conv')
    with pass(3) show ?thesis by (simp add: rw)
  qed
qed

subsection \<open>Sequences of calls\<close>

text \<open>How many of a sequence of calls let client \<open>c\<close> through in the window that starts at \<open>w\<close>.\<close>

fun passes :: "string \<Rightarrow> int \<Rightarrow> (string \<times> int) list \<Rightarrow> bool list \<Rightarrow> int" where
  "passes c w ((d, t) # calls) (ok # oks) =
     (if ok \<and> d = c \<and> truncate_minute t = w then 1 else 0) + passes c w calls oks"
| "passes c w _ _ = 0"

lemma truncate_minute_mono: "s \<le> t \<Longrightarrow> truncate_minute s \<le> truncate_minute t"
proof -
  have "truncate_minute t = minute * (t div minute)" for t
    by (simp add: truncate_minute_def minus_mod_eq_mult_div)
  moreover assume "s \<le> t"
  then have "s div minute \<le> t div minute" by (intro zdiv_mono1) (simp_all add: minute_def)
  ultimately show ?thesis by (simp add: minute_def)
qed

lemma passes_later:
  assumes "\<forall>t\<in>set (map snd calls). w < truncate_minute t"
  shows "passes c w calls oks = 0"
  using assms by (induction c w calls oks rule: passes.induct) auto

lemma Allow_Some:
  assumes "limiter_inv r"
  shows "Allow (Some r) c t = (if c = [] then (True, Some r)
    else map_prod id Some (allow_locked r c (truncate_minute t)))"
  using assms by (auto simp: Allow_def limiter_inv_def split: prod.splits)

lemma run_allow_bound:
  assumes "limiter_inv r" "c \<noteq> []" "sorted (map snd calls)"
    "\<forall>t\<in>set (map snd calls). rl_windowStart r \<le> truncate_minute t"
  shows "passes c w calls (fst (run_allow (Some r) calls)) + used r c w \<le> rl_limit r"
  using assms
proof (induction calls arbitrary: r)
  case Nil
  then show ?case using used_bounds(2) by simp
next
  case (Cons x calls)
  obtain d t where x: "x = (d, t)" by (cases x)
  let ?w = "truncate_minute t"
  have later: "\<forall>u\<in>set (map snd calls). ?w \<le> truncate_minute u"
    using Cons.prems(3) truncate_minute_mono by (auto simp: x)
  show ?case
  proof (cases "d = []")
    case True
    with Cons.prems have "passes c w calls (fst (run_allow (Some r) calls)) + used r c w \<le> rl_limit r"
      by (intro Cons.IH) auto
    with True Cons.prems(1,2) show ?thesis
      by (auto simp: x Allow_Some split: prod.splits)
  next
    case False
    obtain ok r' where step: "allow_locked r d ?w = (ok, r')" by (metis surj_pair)
    note sp = allow_locked_spec [OF Cons.prems(1) step]
    have A: "Allow (Some r) d t = (ok, Some r')"
      using False Cons.prems(1) step by (simp add: Allow_Some)
    have IH: "passes c w calls (fst (run_allow (Some r') calls)) + used r' c w \<le> rl_limit r"
      using Cons.IH [of r'] Cons.prems sp(1-3) later by (simp add: x)
    have run: "passes c w (x # calls) (fst (run_allow (Some r) (x # calls)))
      = (if ok \<and> d = c \<and> ?w = w then 1 else 0) + passes c w calls (fst (run_allow (Some r') calls))"
      by (simp add: x A split: prod.splits)
    show ?thesis
    proof (cases "?w = w")
      case True
      with IH sp(6) [of c] run show ?thesis by (auto split: if_splits)
    next
      case False
      have "passes c w calls (fst (run_allow (Some r') calls)) = 0 \<or> used r c w = 0"
      proof (cases "rl_windowStart r = w")
        case True
        with False Cons.prems(4) later have "\<forall>u\<in>set (map snd calls). w < truncate_minute u"
          by (auto simp: x)
        then show ?thesis by (simp add: passes_later)
      qed (simp add: used_def)
      with IH False run used_bounds [OF Cons.prems(1), of c w] used_bounds(1) [OF sp(1), of c w]
      show ?thesis by auto
    qed
  qed
qed

subsection \<open>Properties\<close>

text \<open>
  C15: The limit holds: from a fresh limiter with a positive limit, over any sequence of calls in
  the order of their clock readings (times from Go's zero time on), no client with an identity is
  let through more than \<open>limit\<close> times in any one-minute window.
\<close>

theorem rate_limit_per_window:
  assumes "0 < limit" "clientID \<noteq> []" "sorted (map snd calls)" "\<forall>t\<in>set (map snd calls). 0 \<le> t"
  shows "passes clientID w calls (fst (run_allow (Some (newRateLimiter limit maxClients)) calls)) \<le> limit"
proof -
  have "0 \<le> truncate_minute t" if "0 \<le> t" for t
    using truncate_minute_mono [OF that] by (simp add: truncate_minute_def)
  then have "\<forall>t\<in>set (map snd calls). rl_windowStart (newRateLimiter limit maxClients) \<le> truncate_minute t"
    using assms(4) by simp
  note bound = run_allow_bound [OF newRateLimiter_inv [OF assms(1)] assms(2,3) this]
  have "0 \<le> used (newRateLimiter limit maxClients) clientID w"
    by (rule used_bounds(1) [OF newRateLimiter_inv [OF assms(1)]])
  with bound [of w] show ?thesis by simp
qed

theorem rate_limit_per_window_witness:
  "passes ''a'' 0 [(''a'', 1), (''a'', 2)]
     (fst (run_allow (Some (newRateLimiter 1 10)) [(''a'', 1), (''a'', 2)])) \<le> 1"
  using rate_limit_per_window [of 1 "''a''" "[(''a'', 1), (''a'', 2)]" 0 10] by simp

text \<open>
  What one call decides: on a limiter in a state the program can reach, a client with an
  identity is let through exactly when it has used less than the limit in the current window and
  is either known in that window or fits under the cap on clients; the call spends one unit of
  that client exactly when it passes, touches no other client, and keeps the invariant (at most
  \<open>maxClients\<close> clients, each with a count between zero and the limit).
\<close>

theorem allow_decision:
  assumes "limiter_inv r" "clientID \<noteq> []" "Allow (Some r) clientID now = (ok, r')"
  defines "w \<equiv> truncate_minute now"
  shows "(ok \<longleftrightarrow> used r clientID w < rl_limit r \<and>
      (map_of (rl_clients (enter_window r w)) clientID \<noteq> None \<or>
       int (length (rl_clients (enter_window r w))) < rl_maxClients r)) \<and>
    (\<exists>l. r' = Some l \<and> limiter_inv l \<and> rl_windowStart l = w \<and> rl_limit l = rl_limit r \<and>
      rl_maxClients l = rl_maxClients r \<and>
      (\<forall>d. used l d w = (if d = clientID \<and> ok then used r d w + 1 else used r d w)))"
proof -
  obtain l where l: "allow_locked r clientID w = (ok, l)" "r' = Some l"
    using assms(2,3) Allow_Some [OF assms(1), of clientID now]
    by (cases "allow_locked r clientID w") (auto simp: w_def)
  note sp = allow_locked_spec [OF assms(1) l(1)]
  show ?thesis using sp l(2) by (simp add: enter_window_simps)
qed

theorem allow_decision_witness:
  "(\<exists>ok r'. Allow (Some (newRateLimiter 1 10)) ''a'' 5 = (ok, r') \<and> ok \<and>
     (\<exists>l. r' = Some l \<and> used l ''a'' 0 = 1))"
proof -
  obtain ok r' where run: "Allow (Some (newRateLimiter 1 10)) ''a'' 5 = (ok, r')"
    by (metis surj_pair)
  have inv: "limiter_inv (newRateLimiter 1 10)" by (simp add: newRateLimiter_inv)
  from allow_decision [OF inv _ run] run show ?thesis
    by (auto simp: newRateLimiter_def used_def enter_window_def truncate_minute_def minute_def)
qed

text \<open>
  The order of the clock readings matters: each caller reads the clock before it takes the
  lock, so a call that read the previous minute can enter after a call of the next one; it moves
  the window back and clears every count, and a client limited to one request per minute is then
  let through twice in the same window.
\<close>

theorem late_call_resets_window:
  "fst (run_allow (Some (newRateLimiter 1 10))
     [(''a'', 60000000000), (''b'', 59999999999), (''a'', 60000000001)]) = [True, True, True] \<and>
   passes ''a'' 60000000000 [(''a'', 60000000000), (''b'', 59999999999), (''a'', 60000000001)]
     [True, True, True] = 2"
  by (simp add: newRateLimiter_def Allow_def allow_locked_def truncate_minute_def minute_def Let_def)

end
