(* ===== verification/Queue_Interface.thy ===== *)
theory Queue_Interface
  imports Prelude
begin

section \<open>The interface of the event queue\<close>

text \<open>
  What the HTTP handler and the batcher rely on when they call the queue, stated without the
  ring buffer. An abstract queue is a capacity and the list of its elements, oldest first;
  \<open>spec_step\<close> is what each method does to it. The locale \<open>event_queue\<close> names the five
  methods, a relation \<open>repr\<close> between states and lists and the laws a queue must obey; inside
  it are the facts its clients use, above all that a provider of the laws answers every
  sequence of calls exactly as the abstract queue does and never panics.
\<close>

datatype 'e qop =
    OpEnqueue "'e list"
  | OpDropNewest "'e list"
  | OpPrepend "'e list"
  | OpDrain int
  | OpLen

datatype 'e qres = RBool bool | RInt int | REvents "'e list"

text \<open>How many events of a batch of length \<open>n\<close> fit beside \<open>m\<close> queued ones.\<close>

definition room :: "int \<Rightarrow> nat \<Rightarrow> nat \<Rightarrow> nat" where
  "room cap m n = min n (nat cap - m)"

definition drain_count :: "int \<Rightarrow> nat \<Rightarrow> nat" where
  "drain_count mx m = (if mx \<le> 0 then m else min (nat mx) m)"

fun spec_step :: "int \<times> 'e list \<Rightarrow> 'e qop \<Rightarrow> 'e qres \<times> int \<times> 'e list" where
  "spec_step (cap, xs) (OpEnqueue b) =
     (if int (length xs + length b) \<le> cap then (RBool True, cap, xs @ b) else (RBool False, cap, xs))"
| "spec_step (cap, xs) (OpDropNewest b) =
     (let k = room cap (length xs) (length b) in (RInt (int (length b - k)), cap, xs @ take k b))"
| "spec_step (cap, xs) (OpPrepend b) =
     (RBool True, max cap (int (length b + length xs)), b @ xs)"
| "spec_step (cap, xs) (OpDrain mx) =
     (let k = drain_count mx (length xs) in (REvents (take k xs), cap, drop k xs))"
| "spec_step (cap, xs) OpLen = (RInt (int (length xs)), cap, xs)"

fun spec_run :: "int \<times> 'e list \<Rightarrow> 'e qop list \<Rightarrow> 'e qres list \<times> int \<times> 'e list" where
  "spec_run s [] = ([], s)"
| "spec_run s (x # xs) =
     (let (r, s1) = spec_step s x; (rs, s2) = spec_run s1 xs in (r # rs, s2))"

text \<open>One call on a provider given by its five methods, and a sequence of calls.\<close>

fun iface_step ::
  "('q \<Rightarrow> 'e list \<Rightarrow> (bool \<times> 'q) go) \<Rightarrow> ('q \<Rightarrow> 'e list \<Rightarrow> (int \<times> 'q) go) \<Rightarrow>
   ('q \<Rightarrow> 'e list \<Rightarrow> (bool \<times> 'q) go) \<Rightarrow> ('q \<Rightarrow> int \<Rightarrow> ('e list \<times> 'q) go) \<Rightarrow>
   ('q \<Rightarrow> int) \<Rightarrow> 'q \<Rightarrow> 'e qop \<Rightarrow> ('e qres \<times> 'q) go" where
  "iface_step enq dropn prep drain len q (OpEnqueue b) = do { (r, q') \<leftarrow> enq q b; Some (RBool r, q') }"
| "iface_step enq dropn prep drain len q (OpDropNewest b) = do { (r, q') \<leftarrow> dropn q b; Some (RInt r, q') }"
| "iface_step enq dropn prep drain len q (OpPrepend b) = do { (r, q') \<leftarrow> prep q b; Some (RBool r, q') }"
| "iface_step enq dropn prep drain len q (OpDrain mx) = do { (r, q') \<leftarrow> drain q mx; Some (REvents r, q') }"
| "iface_step enq dropn prep drain len q OpLen = Some (RInt (len q), q)"

fun run_ops :: "('q \<Rightarrow> 'o \<Rightarrow> ('r \<times> 'q) go) \<Rightarrow> 'q \<Rightarrow> 'o list \<Rightarrow> ('r list \<times> 'q) go" where
  "run_ops step q [] = Some ([], q)"
| "run_ops step q (x # xs) = do {
     (r, q1) \<leftarrow> step q x; (rs, q2) \<leftarrow> run_ops step q1 xs; Some (r # rs, q2) }"

subsection \<open>What a sequence of calls admits and hands out\<close>

fun admitted :: "'e qop \<Rightarrow> 'e qres \<Rightarrow> 'e list" where
  "admitted (OpEnqueue b) (RBool ok) = (if ok then b else [])"
| "admitted (OpDropNewest b) (RInt dropped) = take (nat (int (length b) - dropped)) b"
| "admitted (OpPrepend b) r = b"
| "admitted x r = []"

fun drained :: "'e qres \<Rightarrow> 'e list" where
  "drained (REvents es) = es"
| "drained r = []"

definition all_admitted :: "'e qop list \<Rightarrow> 'e qres list \<Rightarrow> 'e list" where
  "all_admitted ops rs = concat (map2 admitted ops rs)"

definition all_drained :: "'e qres list \<Rightarrow> 'e list" where
  "all_drained rs = concat (map drained rs)"

fun is_prepend :: "'e qop \<Rightarrow> bool" where
  "is_prepend (OpPrepend b) = True"
| "is_prepend x = False"

lemma spec_step_conservation:
  assumes "spec_step (cap, xs) x = (r, cap', ys)"
  shows "mset xs + mset (admitted x r) = mset (drained r) + mset ys"
proof (cases x)
  case (OpDrain mx)
  with assms show ?thesis
    by (auto simp: Let_def simp flip: mset_append)
qed (use assms in \<open>auto simp: Let_def room_def min_def split: if_splits\<close>)

lemma spec_step_fifo:
  assumes "spec_step (cap, xs) x = (r, cap', ys)" "\<not> is_prepend x"
  shows "xs @ admitted x r = drained r @ ys"
  using assms by (cases x) (auto simp: Let_def room_def min_def split: if_splits)

lemma spec_run_fifo:
  assumes "spec_run (cap, xs) ops = (rs, cap', ys)" "\<not> list_ex is_prepend ops"
  shows "xs @ all_admitted ops rs = all_drained rs @ ys"
  using assms
proof (induction ops arbitrary: cap xs rs)
  case Nil
  then show ?case by (simp add: all_admitted_def all_drained_def)
next
  case (Cons x ops)
  obtain r cap1 zs where s: "spec_step (cap, xs) x = (r, cap1, zs)" by (metis prod_cases3)
  obtain rs' where t: "spec_run (cap1, zs) ops = (rs', cap', ys)" "rs = r # rs'"
    using Cons.prems(1) s by (auto split: prod.splits)
  have "zs @ all_admitted ops rs' = all_drained rs' @ ys"
    using Cons.IH [OF t(1)] Cons.prems(2) by simp
  with spec_step_fifo [OF s] Cons.prems(2) t(2) show ?case
    by (simp add: all_admitted_def all_drained_def) (metis append.assoc)
qed

lemma spec_run_conservation:
  assumes "spec_run (cap, xs) ops = (rs, cap', ys)"
  shows "mset xs + mset (all_admitted ops rs) = mset (all_drained rs) + mset ys"
  using assms
proof (induction ops arbitrary: cap xs rs)
  case Nil
  then show ?case by (simp add: all_admitted_def all_drained_def)
next
  case (Cons x ops)
  obtain r cap1 zs where s: "spec_step (cap, xs) x = (r, cap1, zs)" by (metis prod_cases3)
  obtain rs' where t: "spec_run (cap1, zs) ops = (rs', cap', ys)" "rs = r # rs'"
    using Cons.prems s by (auto split: prod.splits)
  have "mset zs + mset (all_admitted ops rs') = mset (all_drained rs') + mset ys"
    by (rule Cons.IH [OF t(1)])
  with spec_step_conservation [OF s] t(2) show ?case
    by (simp add: all_admitted_def all_drained_def union_assoc) (metis union_assoc union_commute)
qed

subsection \<open>The laws of a provider\<close>

locale event_queue =
  fixes enq :: "'q \<Rightarrow> 'e list \<Rightarrow> (bool \<times> 'q) go"
    and dropn :: "'q \<Rightarrow> 'e list \<Rightarrow> (int \<times> 'q) go"
    and prep :: "'q \<Rightarrow> 'e list \<Rightarrow> (bool \<times> 'q) go"
    and drain :: "'q \<Rightarrow> int \<Rightarrow> ('e list \<times> 'q) go"
    and len :: "'q \<Rightarrow> int"
    and repr :: "'q \<Rightarrow> 'e list \<Rightarrow> bool"
    and cap :: "'q \<Rightarrow> int"
  assumes enq_fits: "repr q xs \<Longrightarrow> int (length xs + length b) \<le> cap q \<Longrightarrow>
      \<exists>q'. enq q b = Some (True, q') \<and> repr q' (xs @ b) \<and> cap q' = cap q"
    and enq_full: "repr q xs \<Longrightarrow> cap q < int (length xs + length b) \<Longrightarrow>
      enq q b = Some (False, q)"
    and dropn_room: "repr q xs \<Longrightarrow>
      \<exists>q'. dropn q b = Some (int (length b - room (cap q) (length xs) (length b)), q') \<and>
        repr q' (xs @ take (room (cap q) (length xs) (length b)) b) \<and> cap q' = cap q"
    and prep_grows: "repr q xs \<Longrightarrow>
      \<exists>q'. prep q b = Some (True, q') \<and> repr q' (b @ xs) \<and>
        cap q' = max (cap q) (int (length b + length xs))"
    and drain_takes: "repr q xs \<Longrightarrow>
      \<exists>q'. drain q mx = Some (take (drain_count mx (length xs)) xs, q') \<and>
        repr q' (drop (drain_count mx (length xs)) xs) \<and> cap q' = cap q"
    and len_counts: "repr q xs \<Longrightarrow> len q = int (length xs)"
    and bounded: "repr q xs \<Longrightarrow> int (length xs) \<le> cap q"
begin

lemma step_refines:
  assumes "repr q xs"
  shows "\<exists>r q' ys. iface_step enq dropn prep drain len q x = Some (r, q') \<and>
    spec_step (cap q, xs) x = (r, cap q', ys) \<and> repr q' ys"
proof (cases x)
  case (OpEnqueue b)
  show ?thesis
  proof (cases "int (length xs + length b) \<le> cap q")
    case True
    with enq_fits [OF assms True] OpEnqueue show ?thesis by auto
  next
    case False
    with enq_full [OF assms, of b] OpEnqueue assms show ?thesis by auto
  qed
next
  case (OpDropNewest b)
  with dropn_room [OF assms, of b] show ?thesis by (auto simp: Let_def)
next
  case (OpPrepend b)
  with prep_grows [OF assms, of b] show ?thesis by auto
next
  case (OpDrain mx)
  with drain_takes [OF assms, of mx] show ?thesis by (auto simp: Let_def)
next
  case OpLen
  with len_counts [OF assms] assms show ?thesis by auto
qed

lemma run_refines:
  assumes "repr q xs"
  shows "\<exists>rs q' ys. run_ops (iface_step enq dropn prep drain len) q ops = Some (rs, q') \<and>
    spec_run (cap q, xs) ops = (rs, cap q', ys) \<and> repr q' ys"
  using assms
proof (induction ops arbitrary: q xs)
  case Nil
  then show ?case by simp
next
  case (Cons x ops)
  obtain r q1 zs where 1: "iface_step enq dropn prep drain len q x = Some (r, q1)"
    "spec_step (cap q, xs) x = (r, cap q1, zs)" "repr q1 zs"
    using step_refines [OF Cons.prems] by blast
  from Cons.IH [OF 1(3)] 1(1,2) show ?case by auto
qed

text \<open>
  What an interrupted flush relies on: events drained and then prepended leave the queue with
  the same list and the same capacity.
\<close>

lemma drain_prepend:
  assumes "repr q xs" "drain q mx = Some (es, q1)"
  shows "\<exists>q2. prep q1 es = Some (True, q2) \<and> repr q2 xs \<and> cap q2 = cap q"
proof -
  let ?k = "drain_count mx (length xs)"
  from drain_takes [OF assms(1), of mx] assms(2) have es: "es = take ?k xs"
    and r: "repr q1 (drop ?k xs)" and c: "cap q1 = cap q" by auto
  from prep_grows [OF r, of es] obtain q2 where "prep q1 es = Some (True, q2)"
    "repr q2 (es @ drop ?k xs)" "cap q2 = max (cap q1) (int (length es + length (drop ?k xs)))"
    by blast
  moreover have "length es + length (drop ?k xs) = length xs" by (simp add: es)
  ultimately show ?thesis using bounded [OF assms(1)] c by (auto simp: es max_def)
qed

lemma drain_nonempty:
  assumes "repr q xs" "0 < len q" "0 < mx"
  shows "\<exists>es q'. drain q mx = Some (es, q') \<and> es \<noteq> [] \<and> length es \<le> nat mx \<and>
    xs = es @ drop (length es) xs \<and> repr q' (drop (length es) xs) \<and> cap q' = cap q"
  using drain_takes [OF assms(1), of mx] assms len_counts [OF assms(1)]
  by (auto simp: drain_count_def min_def)

end

end
