(* ===== verification/Queue.thy ===== *)
theory Queue
  imports Event_Types Queue_Interface
begin

section \<open>The bounded event queue\<close>

text \<open>
  \<open>internal/queue/queue.go\<close>. The ring buffer of the source, field by field: \<open>q_items\<close> the
  backing slice, \<open>q_head\<close> the index of the oldest event, \<open>q_size\<close> how many are queued,
  \<open>q_capacity\<close> the modulus of the index arithmetic and \<open>q_notify\<close> whether the one-slot channel
  \<open>notifyCh\<close> holds its token. Every method runs under the mutex, so it is one
  function from the state to the result and the next state, in \<open>go\<close> because each index
  expression and each \<open>%\<close> could panic. \<open>ring q xs\<close> relates a state to the list of its
  events, oldest first; the lemmas show that under it no method panics and each does to the
  list what its name promises.
\<close>

record queue =
  q_items :: "event list"
  q_head :: int
  q_size :: int
  q_capacity :: int
  q_notify :: bool

definition new_queue :: "int \<Rightarrow> queue go" where
  "new_queue capacity = do {
     items \<leftarrow> make_slice capacity zero_event;
     Some \<lparr>q_items = items, q_head = 0, q_size = 0, q_capacity = capacity, q_notify = False\<rparr> }"

text \<open>\<open>select { case q.notifyCh <- struct{}{}: default: }\<close> on a channel of capacity one.\<close>

definition notify :: "queue \<Rightarrow> queue" where
  "notify q = q\<lparr>q_notify := True\<rparr>"

fun append_batch :: "queue \<Rightarrow> event list \<Rightarrow> queue go" where
  "append_batch q [] = Some q"
| "append_batch q (e # es) = do {
     index \<leftarrow> go_rem (q_head q + q_size q) (q_capacity q);
     items \<leftarrow> slice_set (q_items q) index e;
     append_batch (q\<lparr>q_items := items, q_size := q_size q + 1\<rparr>) es }"

definition Enqueue :: "queue \<Rightarrow> event list \<Rightarrow> (bool \<times> queue) go" where
  "Enqueue q batch =
     (if q_size q + int (length batch) > q_capacity q then Some (False, q)
      else do { q' \<leftarrow> append_batch q batch; Some (True, notify q') })"

definition DropNewest :: "queue \<Rightarrow> event list \<Rightarrow> (int \<times> queue) go" where
  "DropNewest q batch =
     (let available = q_capacity q - q_size q in
      if available \<le> 0 then Some (int (length batch), q)
      else if int (length batch) \<le> available then
        do { q' \<leftarrow> append_batch q batch; Some (0, notify q') }
      else do {
        admitted \<leftarrow> slice_to batch available;
        q' \<leftarrow> append_batch q admitted;
        Some (int (length batch) - available, notify q') })"

text \<open>\<open>grow\<close> copies the live events to the front of a new slice, at indices \<open>i = 0..size-1\<close>.\<close>

fun grow_loop :: "queue \<Rightarrow> event list \<Rightarrow> nat \<Rightarrow> nat \<Rightarrow> event list go" where
  "grow_loop q items i 0 = Some items"
| "grow_loop q items i (Suc n) = do {
     index \<leftarrow> go_rem (q_head q + int i) (q_capacity q);
     e \<leftarrow> slice_get (q_items q) index;
     items' \<leftarrow> slice_set items (int i) e;
     grow_loop q items' (Suc i) n }"

definition grow :: "queue \<Rightarrow> int \<Rightarrow> queue go" where
  "grow q capacity = do {
     items \<leftarrow> make_slice capacity zero_event;
     items' \<leftarrow> grow_loop q items 0 (nat (q_size q));
     Some (q\<lparr>q_items := items', q_head := 0, q_capacity := capacity\<rparr>) }"

text \<open>The loop of \<open>Prepend\<close> visits the batch from its last event to its first.\<close>

fun prepend_loop :: "queue \<Rightarrow> event list \<Rightarrow> queue go" where
  "prepend_loop q [] = Some q"
| "prepend_loop q (e # es) = do {
     head \<leftarrow> go_rem (q_head q - 1 + q_capacity q) (q_capacity q);
     items \<leftarrow> slice_set (q_items q) head e;
     prepend_loop (q\<lparr>q_head := head, q_items := items, q_size := q_size q + 1\<rparr>) es }"

definition Prepend :: "queue \<Rightarrow> event list \<Rightarrow> (bool \<times> queue) go" where
  "Prepend q batch = do {
     q1 \<leftarrow> (if q_size q + int (length batch) > q_capacity q
            then grow q (q_size q + int (length batch)) else Some q);
     q2 \<leftarrow> prepend_loop q1 (rev batch);
     Some (True, notify q2) }"

text \<open>\<open>Drain\<close> reads and clears \<open>mx\<close> slots, at indices \<open>i = 0..mx-1\<close> from the head.\<close>

fun drain_loop :: "queue \<Rightarrow> nat \<Rightarrow> nat \<Rightarrow> (event list \<times> queue) go" where
  "drain_loop q i 0 = Some ([], q)"
| "drain_loop q i (Suc n) = do {
     index \<leftarrow> go_rem (q_head q + int i) (q_capacity q);
     e \<leftarrow> slice_get (q_items q) index;
     items \<leftarrow> slice_set (q_items q) index zero_event;
     (es, q') \<leftarrow> drain_loop (q\<lparr>q_items := items\<rparr>) (Suc i) n;
     Some (e # es, q') }"

definition Drain :: "queue \<Rightarrow> int \<Rightarrow> (event list \<times> queue) go" where
  "Drain q mx =
     (if q_size q = 0 then Some ([], q)
      else do {
        let n = (if mx \<le> 0 \<or> mx > q_size q then q_size q else mx);
        (drained, q1) \<leftarrow> drain_loop q 0 (nat n);
        head \<leftarrow> go_rem (q_head q1 + n) (q_capacity q1);
        let q2 = q1\<lparr>q_head := head, q_size := q_size q1 - n\<rparr>;
        Some (drained, if q_size q2 = 0 then q2\<lparr>q_head := 0\<rparr> else q2) })"

definition Len :: "queue \<Rightarrow> int" where
  "Len q = q_size q"

text \<open>A receive from \<open>Notify()\<close>: possible when the token is there, and takes it.\<close>

definition recv_notify :: "queue \<Rightarrow> queue option" where
  "recv_notify q = (if q_notify q then Some (q\<lparr>q_notify := False\<rparr>) else None)"

subsection \<open>The list a state stands for\<close>

definition ring :: "queue \<Rightarrow> event list \<Rightarrow> bool" where
  "ring q xs \<longleftrightarrow>
     q_capacity q = int (length (q_items q)) \<and> q_size q = int (length xs) \<and>
     0 \<le> q_head q \<and> (q_items q = [] \<longrightarrow> q_head q = 0) \<and>
     (q_items q \<noteq> [] \<longrightarrow> q_head q < q_capacity q) \<and>
     length xs \<le> length (q_items q) \<and>
     rotate (nat (q_head q)) (q_items q)
       = xs @ replicate (length (q_items q) - length xs) zero_event"

definition contents :: "queue \<Rightarrow> event list" where
  "contents q = take (nat (q_size q)) (rotate (nat (q_head q)) (q_items q))"

definition wf_queue :: "queue \<Rightarrow> bool" where
  "wf_queue q \<longleftrightarrow> ring q (contents q)"

lemma ring_contents: "ring q xs \<Longrightarrow> contents q = xs"
  by (simp add: ring_def contents_def)

lemma ring_wf: "ring q xs \<Longrightarrow> wf_queue q"
  by (simp add: wf_queue_def ring_contents)

lemma ring_sizes:
  assumes "ring q xs"
  shows "q_size q = int (length xs)" "q_capacity q = int (length (q_items q))"
    "length xs \<le> length (q_items q)"
  using assms by (simp_all add: ring_def)

lemma ring_notify [simp]: "ring (q\<lparr>q_notify := b\<rparr>) xs = ring q xs"
  by (simp add: ring_def)

lemma new_queue_ring:
  assumes "0 \<le> capacity"
  shows "\<exists>q. new_queue capacity = Some q \<and> ring q [] \<and> q_capacity q = capacity"
  using assms by (auto simp: new_queue_def make_slice_def ring_def)

subsection \<open>One slot at a time\<close>

lemma ring_push:
  assumes r: "ring q xs" and free: "length xs < length (q_items q)"
  shows "\<exists>index items. go_rem (q_head q + q_size q) (q_capacity q) = Some index \<and>
    slice_set (q_items q) index e = Some items \<and> length items = length (q_items q) \<and>
    ring (q\<lparr>q_items := items, q_size := q_size q + 1\<rparr>) (xs @ [e])"
proof -
  define h where "h = nat (q_head q)"
  let ?n = "length (q_items q)" and ?k = "length xs"
  have head: "q_head q = int h" and n: "0 < ?n"
    using r free by (auto simp: ring_def h_def)
  let ?i = "(h + ?k) mod ?n"
  have i: "?i < ?n" using n by simp
  have index: "go_rem (q_head q + q_size q) (q_capacity q) = Some (int ?i)"
    using go_rem_int [OF n, of "h + ?k"] by (simp add: head ring_sizes [OF r])
  have "rotate h ((q_items q)[?i := e]) = (rotate h (q_items q))[?k := e]"
    using free by (rule rotate_list_update)
  also have "\<dots> = (xs @ replicate (?n - ?k) zero_event)[?k := e]"
    using r by (simp add: ring_def head)
  also have "\<dots> = (xs @ [e]) @ replicate (?n - Suc ?k) zero_event"
    using free by (simp add: list_update_append Suc_diff_Suc [symmetric])
  finally have "ring (q\<lparr>q_items := (q_items q)[?i := e], q_size := q_size q + 1\<rparr>) (xs @ [e])"
    using r free by (auto simp: ring_def head)
  with index i show ?thesis by simp
qed

lemma ring_unshift:
  assumes r: "ring q xs" and free: "length xs < length (q_items q)"
  shows "\<exists>head items. go_rem (q_head q - 1 + q_capacity q) (q_capacity q) = Some head \<and>
    slice_set (q_items q) head e = Some items \<and> length items = length (q_items q) \<and>
    ring (q\<lparr>q_head := head, q_items := items, q_size := q_size q + 1\<rparr>) (e # xs)"
proof -
  define h where "h = nat (q_head q)"
  let ?n = "length (q_items q)" and ?xs = "q_items q"
  have head: "q_head q = int h" and n: "0 < ?n" and h: "h < ?n"
    using r free by (auto simp: ring_def h_def)
  define g where "g = (h + (?n - 1)) mod ?n"
  have g: "g < ?n" using n by (simp add: g_def)
  have "q_head q - 1 + q_capacity q = int (h + (?n - 1))"
    using n by (simp only: head ring_sizes [OF r])
  moreover have "go_rem (int (h + (?n - 1))) (int ?n) = Some (int g)"
    unfolding g_def by (rule go_rem_int [OF n])
  ultimately have index: "go_rem (q_head q - 1 + q_capacity q) (q_capacity q) = Some (int g)"
    by (simp only: ring_sizes [OF r])
  have rot: "rotate (Suc g) ?xs = rotate h ?xs"
  proof -
    have "Suc (h + (?n - 1)) = h + ?n" using n by arith
    then have "Suc g mod ?n = h mod ?n" by (metis g_def mod_Suc_eq mod_add_self2)
    then show ?thesis by (metis rotate_conv_mod)
  qed
  have full: "rotate h ?xs = xs @ replicate (?n - length xs) zero_event"
    using r by (simp add: ring_def head)
  have tail: "replicate (?n - length xs) zero_event
      = replicate (?n - Suc (length xs)) zero_event @ [zero_event]"
    using free by (metis Suc_diff_Suc replicate_Suc replicate_append_same)
  have "rotate g ?xs = last (rotate h ?xs) # butlast (rotate h ?xs)"
    using n by (intro rotate_Suc_cycle [OF rot]) auto
  then have "rotate g ?xs = zero_event # xs @ replicate (?n - Suc (length xs)) zero_event"
    by (simp add: full tail butlast_append)
  moreover have "rotate g (?xs[g := e]) = (rotate g ?xs)[0 := e]"
    using rotate_list_update [OF n, of g e] g by simp
  ultimately have "ring (q\<lparr>q_head := int g, q_items := ?xs[g := e], q_size := q_size q + 1\<rparr>) (e # xs)"
    using r free g by (auto simp: ring_def)
  with index g show ?thesis by simp
qed

subsection \<open>The loops\<close>

lemma append_batch_ring:
  assumes "ring q xs" "length xs + length es \<le> length (q_items q)"
  shows "\<exists>q'. append_batch q es = Some q' \<and> ring q' (xs @ es) \<and>
    q_capacity q' = q_capacity q \<and> q_notify q' = q_notify q"
  using assms
proof (induction es arbitrary: q xs)
  case Nil
  then show ?case by simp
next
  case (Cons e es)
  from Cons.prems(2) have "length xs < length (q_items q)" by simp
  from ring_push [OF Cons.prems(1) this, of e] obtain index items where
    step: "go_rem (q_head q + q_size q) (q_capacity q) = Some index"
      "slice_set (q_items q) index e = Some items" "length items = length (q_items q)"
    and r: "ring (q\<lparr>q_items := items, q_size := q_size q + 1\<rparr>) (xs @ [e])" by blast
  have "length (xs @ [e]) + length es \<le> length items"
    using Cons.prems(2) step(3) by simp
  with Cons.IH [OF r] show ?case by (simp add: step)
qed

lemma prepend_loop_ring:
  assumes "ring q xs" "length xs + length es \<le> length (q_items q)"
  shows "\<exists>q'. prepend_loop q es = Some q' \<and> ring q' (rev es @ xs) \<and>
    q_capacity q' = q_capacity q \<and> q_notify q' = q_notify q"
  using assms
proof (induction es arbitrary: q xs)
  case Nil
  then show ?case by simp
next
  case (Cons e es)
  from Cons.prems(2) have "length xs < length (q_items q)" by simp
  from ring_unshift [OF Cons.prems(1) this, of e] obtain head items where
    step: "go_rem (q_head q - 1 + q_capacity q) (q_capacity q) = Some head"
      "slice_set (q_items q) head e = Some items" "length items = length (q_items q)"
    and r: "ring (q\<lparr>q_head := head, q_items := items, q_size := q_size q + 1\<rparr>) (e # xs)"
    by blast
  have "length (e # xs) + length es \<le> length items"
    using Cons.prems(2) step(3) by simp
  with Cons.IH [OF r] show ?case by (simp add: step)
qed

lemma ring_slot:
  assumes "q_capacity q = int (length (q_items q))" "q_head q = int h" "i < length (q_items q)"
  shows "go_rem (q_head q + int i) (q_capacity q) = Some (int ((h + i) mod length (q_items q)))"
    "slice_get (q_items q) (int ((h + i) mod length (q_items q))) = Some (rotate h (q_items q) ! i)"
    "(h + i) mod length (q_items q) < length (q_items q)"
proof -
  have "0 < length (q_items q)" using assms(3) by linarith
  note n = this
  then have lt: "(h + i) mod length (q_items q) < length (q_items q)" by (rule mod_less_divisor)
  then show "(h + i) mod length (q_items q) < length (q_items q)" .
  show "go_rem (q_head q + int i) (q_capacity q) = Some (int ((h + i) mod length (q_items q)))"
    using go_rem_int [OF n, of "h + i"] assms by simp
  show "slice_get (q_items q) (int ((h + i) mod length (q_items q))) = Some (rotate h (q_items q) ! i)"
    using assms lt by (simp add: nth_rotate)
qed

lemma drain_loop_spec:
  assumes "q_capacity q = int (length (q_items q))" "q_head q = int h"
    "i + k \<le> length (q_items q)"
  shows "\<exists>items. drain_loop q i k
        = Some (take k (drop i (rotate h (q_items q))), q\<lparr>q_items := items\<rparr>) \<and>
      length items = length (q_items q) \<and>
      rotate h items = take i (rotate h (q_items q)) @ replicate k zero_event
        @ drop (i + k) (rotate h (q_items q))"
  using assms
proof (induction k arbitrary: q i)
  case 0
  then show ?case by (auto intro!: exI [of _ "q_items q"])
next
  case (Suc k)
  let ?R = "rotate h (q_items q)" and ?j = "(h + i) mod length (q_items q)"
  have i: "i < length (q_items q)" using Suc.prems(3) by simp
  note slot = ring_slot [OF Suc.prems(1,2) i]
  define items1 where "items1 = (q_items q)[?j := zero_event]"
  have len1: "length items1 = length (q_items q)" by (simp add: items1_def)
  have rot1: "rotate h items1 = ?R[i := zero_event]"
    unfolding items1_def using i by (rule rotate_list_update)
  obtain items where
    rec: "drain_loop (q\<lparr>q_items := items1\<rparr>) (Suc i) k
      = Some (take k (drop (Suc i) (rotate h items1)), q\<lparr>q_items := items\<rparr>)"
    and len: "length items = length items1"
    and rot: "rotate h items = take (Suc i) (rotate h items1) @ replicate k zero_event
      @ drop (Suc i + k) (rotate h items1)"
    using Suc.IH [of "q\<lparr>q_items := items1\<rparr>" "Suc i"] Suc.prems len1 by auto
  have "take (Suc k) (drop i ?R) = ?R ! i # take k (drop (Suc i) ?R)"
    using i by (simp add: Cons_nth_drop_Suc [symmetric])
  moreover have "take (Suc i) (?R[i := zero_event]) = take i ?R @ [zero_event]"
    using i by (simp add: take_Suc_conv_app_nth)
  ultimately show ?case
    using slot rec len rot len1
    by (intro exI [of _ items]) (simp add: rot1 items1_def [symmetric])
qed

lemma grow_loop_spec:
  assumes "q_capacity q = int (length (q_items q))" "q_head q = int h"
    "i + n \<le> length (q_items q)" "i + n \<le> length items"
  shows "grow_loop q items i n
    = Some (take i items @ take n (drop i (rotate h (q_items q))) @ drop (i + n) items)"
  using assms
proof (induction n arbitrary: items i)
  case 0
  then show ?case by simp
next
  case (Suc n)
  let ?R = "rotate h (q_items q)"
  have i: "i < length (q_items q)" "i < length items" using Suc.prems(3,4) by simp_all
  note slot = ring_slot [OF Suc.prems(1,2) i(1)]
  have "grow_loop q (items[i := ?R ! i]) (Suc i) n
    = Some (take (Suc i) (items[i := ?R ! i]) @ take n (drop (Suc i) ?R)
        @ drop (Suc i + n) (items[i := ?R ! i]))"
    using Suc.prems by (intro Suc.IH) simp_all
  moreover have "take (Suc i) (items[i := ?R ! i]) = take i items @ [?R ! i]"
    using i by (simp add: take_Suc_conv_app_nth)
  moreover have "take (Suc n) (drop i ?R) = ?R ! i # take n (drop (Suc i) ?R)"
    using i by (simp add: Cons_nth_drop_Suc [symmetric])
  ultimately show ?case using slot i by simp
qed

subsection \<open>The methods\<close>

lemma Enqueue_fits:
  assumes "ring q xs" "int (length xs + length batch) \<le> q_capacity q"
  shows "\<exists>q'. Enqueue q batch = Some (True, q') \<and> ring q' (xs @ batch) \<and>
    q_capacity q' = q_capacity q"
proof -
  have "length xs + length batch \<le> length (q_items q)"
    using assms by (simp add: ring_def)
  from append_batch_ring [OF assms(1) this] show ?thesis
    using assms by (auto simp: Enqueue_def notify_def ring_sizes(1))
qed

lemma Enqueue_full:
  assumes "ring q xs" "q_capacity q < int (length xs + length batch)"
  shows "Enqueue q batch = Some (False, q)"
  using assms by (simp add: Enqueue_def ring_sizes(1))

lemma DropNewest_ring:
  fixes batch :: "event list"
  assumes "ring q xs"
  defines "k \<equiv> min (length batch) (nat (q_capacity q) - length xs)"
  shows "\<exists>q'. DropNewest q batch = Some (int (length batch - k), q') \<and>
    ring q' (xs @ take k batch) \<and> q_capacity q' = q_capacity q"
proof -
  let ?n = "length (q_items q)"
  note sz = ring_sizes [OF assms(1)]
  consider (full) "?n = length xs" | (fits) "length xs < ?n" "length batch \<le> ?n - length xs"
    | (partial) "length xs < ?n" "?n - length xs < length batch"
    using sz(3) by linarith
  then show ?thesis
  proof cases
    case full
    with assms(1) sz show ?thesis by (simp add: DropNewest_def k_def)
  next
    case fits
    then have "length xs + length batch \<le> ?n" by simp
    from append_batch_ring [OF assms(1) this] fits sz show ?thesis
      by (auto simp: DropNewest_def k_def notify_def Let_def)
  next
    case partial
    then have "length xs + length (take (?n - length xs) batch) \<le> ?n" by simp
    from append_batch_ring [OF assms(1) this] obtain q' where
      q': "append_batch q (take (?n - length xs) batch) = Some q'"
        "ring q' (xs @ take (?n - length xs) batch)" "q_capacity q' = q_capacity q" by blast
    have "slice_to batch (int ?n - int (length xs)) = Some (take (?n - length xs) batch)"
      using partial by (simp add: slice_to_def nat_diff_distrib)
    with q' partial sz show ?thesis
      by (auto simp: DropNewest_def k_def notify_def Let_def min_def)
  qed
qed

lemma grow_ring:
  assumes r: "ring q xs" and c: "q_capacity q \<le> c"
  shows "\<exists>q'. grow q c = Some q' \<and> ring q' xs \<and> q_capacity q' = c"
proof -
  define h n where "h = nat (q_head q)" and "n = nat c"
  note sz = ring_sizes [OF r]
  have h: "q_head q = int h" and n: "c = int n" "length (q_items q) \<le> n"
    using r c by (auto simp: ring_def h_def n_def)
  have "take (length xs) (rotate h (q_items q)) = xs"
    using r h by (simp add: ring_def)
  moreover have "grow_loop q (replicate n zero_event) 0 (length xs)
    = Some (take (length xs) (rotate h (q_items q)) @ replicate (n - length xs) zero_event)"
    using grow_loop_spec [OF sz(2) h, of 0 "length xs" "replicate n zero_event"] sz(3) n(2)
    by simp
  moreover have "0 < n" if "xs \<noteq> []" using that sz(3) n(2) by (cases xs) auto
  ultimately show ?thesis
    using sz n by (auto simp: grow_def ring_def)
qed

lemma Prepend_ring:
  assumes r: "ring q xs"
  shows "\<exists>q'. Prepend q batch = Some (True, q') \<and> ring q' (batch @ xs) \<and>
    q_capacity q' = max (q_capacity q) (int (length batch + length xs))"
proof -
  note sz = ring_sizes [OF r]
  obtain q1 where q1: "(if q_size q + int (length batch) > q_capacity q
      then grow q (q_size q + int (length batch)) else Some q) = Some q1" "ring q1 xs"
    "q_capacity q1 = max (q_capacity q) (int (length batch + length xs))"
  proof (cases "q_size q + int (length batch) > q_capacity q")
    case True
    with grow_ring [OF r, of "q_size q + int (length batch)"] sz that show ?thesis
      by (auto simp: max_def add.commute)
  next
    case False
    with r sz that show ?thesis by (auto simp: max_def)
  qed
  have "length xs + length (rev batch) \<le> length (q_items q1)"
    using q1(3) ring_sizes(2) [OF q1(2)] by simp
  from prepend_loop_ring [OF q1(2) this] q1 show ?thesis
    by (auto simp: Prepend_def notify_def simp del: if_split)
qed

lemma Drain_ring:
  fixes mx :: int
  assumes r: "ring q xs"
  defines "k \<equiv> (if mx \<le> 0 then length xs else min (nat mx) (length xs))"
  shows "\<exists>q'. Drain q mx = Some (take k xs, q') \<and> ring q' (drop k xs) \<and>
    q_capacity q' = q_capacity q \<and> q_notify q' = q_notify q"
proof (cases "xs = []")
  case True
  with r show ?thesis by (auto simp: Drain_def ring_sizes(1))
next
  case False
  define h where "h = nat (q_head q)"
  let ?n = "length (q_items q)" and ?R = "rotate h (q_items q)"
  note sz = ring_sizes [OF r]
  have h: "q_head q = int h" using r by (simp add: ring_def h_def)
  have k: "k \<le> length xs" "(if mx \<le> 0 \<or> mx > q_size q then q_size q else mx) = int k"
    by (auto simp: k_def sz(1))
  have n: "0 < ?n" "k \<le> ?n" using False sz(3) k(1) by (auto simp: less_le_trans)
  have R: "?R = xs @ replicate (?n - length xs) zero_event"
    using r h by (simp add: ring_def)
  from drain_loop_spec [OF sz(2) h, of 0 k] n obtain items where
    loop: "drain_loop q 0 k = Some (take k ?R, q\<lparr>q_items := items\<rparr>)"
    and len: "length items = ?n" and rot: "rotate h items = replicate k zero_event @ drop k ?R"
    by auto
  let ?g = "(h + k) mod ?n"
  have head: "go_rem (q_head q + int k) (q_capacity q) = Some (int ?g)"
    using go_rem_int [OF n(1), of "h + k"] by (simp add: h sz(2))
  have "rotate ?g items = rotate (k + h) items"
    by (metis add.commute len rotate_conv_mod)
  also have "\<dots> = rotate k (rotate h items)"
    by (simp add: rotate_rotate)
  also have "\<dots> = drop k ?R @ replicate k zero_event"
    by (metis length_replicate rot rotate_append)
  also have "\<dots> = drop k xs @ replicate (?n - length (drop k xs)) zero_event"
    using k(1) sz(3) by (simp add: R replicate_add [symmetric])
  finally have rot': "rotate ?g items = drop k xs @ replicate (?n - length (drop k xs)) zero_event" .
  have "rotate 0 items = replicate ?n zero_event" if "drop k xs = []"
  proof -
    have "set items = set (rotate ?g items)" by simp
    then have "set items \<subseteq> {zero_event}" using rot' that by auto
    then show ?thesis by (simp add: len replicate_eqI subset_iff)
  qed
  with rot' len n k(1) sz head loop k(2) False show ?thesis
    by (auto simp: Drain_def Let_def ring_def R)
qed

subsection \<open>The ring buffer provides the interface\<close>

definition queue_step :: "queue \<Rightarrow> event qop \<Rightarrow> (event qres \<times> queue) go" where
  "queue_step = iface_step Enqueue DropNewest Prepend Drain Len"

interpretation rq: event_queue Enqueue DropNewest Prepend Drain Len ring q_capacity
proof unfold_locales
  fix q :: queue and xs b :: "event list" and mx :: int
  assume r: "ring q xs"
  show "int (length xs + length b) \<le> q_capacity q \<Longrightarrow>
      \<exists>q'. Enqueue q b = Some (True, q') \<and> ring q' (xs @ b) \<and> q_capacity q' = q_capacity q"
    by (rule Enqueue_fits [OF r])
  show "q_capacity q < int (length xs + length b) \<Longrightarrow> Enqueue q b = Some (False, q)"
    by (rule Enqueue_full [OF r])
  show "\<exists>q'. DropNewest q b
        = Some (int (length b - room (q_capacity q) (length xs) (length b)), q') \<and>
      ring q' (xs @ take (room (q_capacity q) (length xs) (length b)) b) \<and>
      q_capacity q' = q_capacity q"
    using DropNewest_ring [OF r, of b] by (simp only: room_def)
  show "\<exists>q'. Prepend q b = Some (True, q') \<and> ring q' (b @ xs) \<and>
      q_capacity q' = max (q_capacity q) (int (length b + length xs))"
    by (rule Prepend_ring [OF r])
  show "\<exists>q'. Drain q mx = Some (take (drain_count mx (length xs)) xs, q') \<and>
      ring q' (drop (drain_count mx (length xs)) xs) \<and> q_capacity q' = q_capacity q"
    using Drain_ring [OF r, of mx] by (auto simp only: drain_count_def)
  show "Len q = int (length xs)" using r by (simp add: Len_def ring_sizes(1))
  show "int (length xs) \<le> q_capacity q" using ring_sizes [OF r] by simp
qed

lemma queue_run_ring:
  assumes "ring q xs"
  shows "\<exists>rs q' ys. run_ops queue_step q ops = Some (rs, q') \<and>
    spec_run (q_capacity q, xs) ops = (rs, q_capacity q', ys) \<and> ring q' ys"
  using rq.run_refines [OF assms, of ops] by (simp only: queue_step_def)

lemma ring_mset:
  assumes "ring q xs"
  shows "mset (q_items q) = mset xs + replicate_mset (length (q_items q) - length xs) zero_event"
proof -
  have "mset (q_items q) = mset (rotate (nat (q_head q)) (q_items q))" by simp
  also have "\<dots> = mset (xs @ replicate (length (q_items q) - length xs) zero_event)"
    using assms by (simp add: ring_def)
  finally show ?thesis by (simp only: mset_append mset_replicate)
qed

subsection \<open>Properties\<close>

text \<open>
  C5: A queue made with \<open>New(capacity)\<close> for any capacity that is not negative answers every
  sequence of calls of \<open>Enqueue\<close>, \<open>DropNewest\<close>, \<open>Prepend\<close>, \<open>Drain\<close> and \<open>Len\<close> exactly as
  a plain list with a capacity does, call by call, and no index expression or modulo of the
  ring buffer ever panics (not even at capacity zero).
\<close>

theorem queue_refines_list:
  assumes "0 \<le> capacity"
  shows "\<exists>q rs q' cap' ys. new_queue capacity = Some q \<and> run_ops queue_step q ops = Some (rs, q') \<and>
    spec_run (capacity, []) ops = (rs, cap', ys) \<and> contents q' = ys \<and> q_capacity q' = cap'"
proof -
  obtain q where q: "new_queue capacity = Some q" "ring q []" "q_capacity q = capacity"
    using new_queue_ring [OF assms] by blast
  from queue_run_ring [OF q(2), of ops] q(1,3) show ?thesis
    by (auto dest: ring_contents)
qed

theorem queue_refines_list_witness:
  "(0::int) \<le> 2 \<and> (\<exists>q rs q' cap' ys. new_queue 2 = Some q \<and>
     run_ops queue_step q [OpEnqueue [zero_event], OpDrain 0] = Some (rs, q') \<and>
     spec_run (2, []) [OpEnqueue [zero_event], OpDrain 0] = (rs, cap', ys) \<and>
     contents q' = ys \<and> q_capacity q' = cap')"
  using queue_refines_list [of 2 "[OpEnqueue [zero_event], OpDrain 0]"] by simp

text \<open>
  C26: First in, first out, and nothing lost or duplicated: over any sequence of calls without
  \<open>Prepend\<close> that starts on a well-formed queue, the events queued at first followed by the ones
  admitted, in order, are the ones drained followed by the ones still queued.
\<close>

theorem queue_fifo:
  assumes "wf_queue q" "\<not> list_ex is_prepend ops" "run_ops queue_step q ops = Some (rs, q')"
  shows "contents q @ all_admitted ops rs = all_drained rs @ contents q'"
  using queue_run_ring [of q "contents q" ops] assms
  by (auto simp: wf_queue_def dest: ring_contents intro: spec_run_fifo)

definition witness_queue :: queue where
  "witness_queue = \<lparr>q_items = [zero_event\<lparr>ev_Type := ''c''\<rparr>, zero_event, zero_event\<lparr>ev_Type := ''b''\<rparr>],
     q_head = 2, q_size = 2, q_capacity = 3, q_notify = True\<rparr>"

lemma witness_queue_wf: "wf_queue witness_queue"
  by (simp add: wf_queue_def ring_def contents_def witness_queue_def numeral_2_eq_2)

theorem queue_fifo_witness:
  "\<exists>rs q'. run_ops queue_step witness_queue [OpDrain 1, OpEnqueue [zero_event, zero_event]] = Some (rs, q') \<and>
     contents witness_queue @ all_admitted [OpDrain 1, OpEnqueue [zero_event, zero_event]] rs
       = all_drained rs @ contents q'"
proof -
  obtain rs q' where run:
    "run_ops queue_step witness_queue [OpDrain 1, OpEnqueue [zero_event, zero_event]] = Some (rs, q')"
    using queue_run_ring [of witness_queue "contents witness_queue"
        "[OpDrain 1, OpEnqueue [zero_event, zero_event]]"] witness_queue_wf
    by (auto simp: wf_queue_def)
  from queue_fifo [OF witness_queue_wf _ run] run show ?thesis by simp
qed

text \<open>
  C27: Restoring an interrupted batch: whatever \<open>Drain\<close> hands out, \<open>Prepend\<close> of the same
  events puts back at the front in their order, so that the queue holds the same events as
  before and its capacity has not grown.
\<close>

theorem drain_prepend_restores:
  assumes "wf_queue q" "Drain q mx = Some (es, q1)"
  shows "\<exists>q2. Prepend q1 es = Some (True, q2) \<and> contents q2 = contents q \<and>
    q_capacity q2 = q_capacity q \<and> wf_queue q2"
proof -
  have "ring q (contents q)" using assms(1) by (simp only: wf_queue_def)
  from rq.drain_prepend [OF this assms(2)] show ?thesis
    by (blast dest: ring_contents ring_wf)
qed

theorem drain_prepend_restores_witness:
  "\<exists>es q1 q2. Drain witness_queue 1 = Some (es, q1) \<and> Prepend q1 es = Some (True, q2) \<and>
     contents q2 = contents witness_queue \<and> q_capacity q2 = q_capacity witness_queue \<and> wf_queue q2"
proof -
  obtain es q1 where d: "Drain witness_queue 1 = Some (es, q1)"
    using rq.drain_takes [of witness_queue "contents witness_queue" 1] witness_queue_wf
    by (auto simp: wf_queue_def)
  from drain_prepend_restores [OF witness_queue_wf d] d show ?thesis by blast
qed

text \<open>
  The queue retains no event it has handed out: after any sequence of calls every slot of
  the backing slice that does not belong to a queued event holds the zero event.
\<close>

theorem queue_clears_slots:
  assumes "wf_queue q" "run_ops queue_step q ops = Some (rs, q')"
  shows "mset (q_items q') = mset (contents q')
    + replicate_mset (nat (q_capacity q' - q_size q')) zero_event"
proof -
  obtain ys where r: "ring q' ys"
    using queue_run_ring [of q "contents q" ops] assms by (auto simp: wf_queue_def)
  from ring_mset [OF r] show ?thesis
    by (simp add: ring_contents [OF r] ring_sizes [OF r] nat_diff_distrib)
qed

theorem queue_clears_slots_witness:
  "\<exists>rs q'. run_ops queue_step witness_queue [OpDrain 1] = Some (rs, q') \<and>
     mset (q_items q') = mset (contents q')
       + replicate_mset (nat (q_capacity q' - q_size q')) zero_event"
proof -
  obtain rs q' where run: "run_ops queue_step witness_queue [OpDrain 1] = Some (rs, q')"
    using queue_run_ring [of witness_queue "contents witness_queue" "[OpDrain 1]"] witness_queue_wf
    by (auto simp: wf_queue_def)
  from queue_clears_slots [OF witness_queue_wf run] run show ?thesis by blast
qed

end
