(* ===== verification/Metrics.thy ===== *)
theory Metrics
  imports Prelude
begin

section \<open>The metrics registry\<close>

text \<open>
  \<open>internal/metrics/metrics.go\<close>. The atomic counters are \<open>64 word\<close>s, so that additions wrap
  as \<open>atomic.Uint64\<close> does; the gauge is the stored \<open>int64\<close>. Each method is one atomic update,
  hence one function on the registry. A value handed to \<open>observe\<close> is the exact real that
  \<open>float64\<close> holds. The text exposition is the list of its sample lines; how \<open>%d\<close> and \<open>%.3f\<close>
  print a number is left out.
\<close>

record bucketCounter =
  upper :: real
  bucket_count :: u64

record histogram =
  h_sum :: u64
  h_count :: u64
  h_items :: "bucketCounter list"

definition newHistogram :: "real list \<Rightarrow> histogram" where
  "newHistogram bounds = \<lparr>h_sum = 0, h_count = 0,
     h_items = map (\<lambda>bound. \<lparr>upper = bound, bucket_count = 0\<rparr>) bounds\<rparr>"

definition bump_bucket :: "real \<Rightarrow> bucketCounter \<Rightarrow> bucketCounter" where
  "bump_bucket v b = (if v \<le> upper b then b\<lparr>bucket_count := bucket_count b + 1\<rparr> else b)"

definition observe :: "real \<Rightarrow> histogram \<Rightarrow> histogram" where
  "observe v h = h\<lparr>h_count := h_count h + 1, h_sum := h_sum h + word_of_int \<lfloor>v * 1000\<rfloor>,
     h_items := map (bump_bucket v) (h_items h)\<rparr>"

record registry =
  startedAt :: int
  acceptedEvents :: u64
  rejectedEvents :: u64
  droppedEvents :: u64
  flushes :: u64
  flushFailures :: u64
  retryAttempts :: u64
  bulkIndexed :: u64
  bulkFailed :: u64
  queueFull :: u64
  queuedCurrent :: int
  batchSizeHistogram :: histogram
  flushLatencySeconds :: histogram

definition new_registry :: "int \<Rightarrow> registry" where
  "new_registry now = \<lparr>startedAt = now, acceptedEvents = 0, rejectedEvents = 0,
     droppedEvents = 0, flushes = 0, flushFailures = 0, retryAttempts = 0, bulkIndexed = 0,
     bulkFailed = 0, queueFull = 0, queuedCurrent = 0,
     batchSizeHistogram = newHistogram [1, 10, 50, 100, 250, 500, 1000, 5000],
     flushLatencySeconds =
       newHistogram [1 / 100, 5 / 100, 1 / 10, 25 / 100, 5 / 10, 1, 25 / 10, 5, 10, 30]\<rparr>"

definition IncAccepted :: "int \<Rightarrow> registry \<Rightarrow> registry" where
  "IncAccepted n r = r\<lparr>acceptedEvents := acceptedEvents r + to_u64 n\<rparr>"

definition IncRejected :: "int \<Rightarrow> registry \<Rightarrow> registry" where
  "IncRejected n r = r\<lparr>rejectedEvents := rejectedEvents r + to_u64 n\<rparr>"

definition IncDropped :: "int \<Rightarrow> registry \<Rightarrow> registry" where
  "IncDropped n r = r\<lparr>droppedEvents := droppedEvents r + to_u64 n\<rparr>"

definition IncFlush :: "registry \<Rightarrow> registry" where
  "IncFlush r = r\<lparr>flushes := flushes r + 1\<rparr>"

definition IncFlushFailure :: "registry \<Rightarrow> registry" where
  "IncFlushFailure r = r\<lparr>flushFailures := flushFailures r + 1\<rparr>"

definition IncRetryAttempt :: "registry \<Rightarrow> registry" where
  "IncRetryAttempt r = r\<lparr>retryAttempts := retryAttempts r + 1\<rparr>"

definition AddBulkIndexed :: "int \<Rightarrow> registry \<Rightarrow> registry" where
  "AddBulkIndexed n r = r\<lparr>bulkIndexed := bulkIndexed r + to_u64 n\<rparr>"

definition AddBulkFailed :: "int \<Rightarrow> registry \<Rightarrow> registry" where
  "AddBulkFailed n r = r\<lparr>bulkFailed := bulkFailed r + to_u64 n\<rparr>"

definition IncQueueFull :: "registry \<Rightarrow> registry" where
  "IncQueueFull r = r\<lparr>queueFull := queueFull r + 1\<rparr>"

definition SetQueueDepth :: "int \<Rightarrow> registry \<Rightarrow> registry" where
  "SetQueueDepth n r = r\<lparr>queuedCurrent := n\<rparr>"

definition ObserveBatchSize :: "int \<Rightarrow> registry \<Rightarrow> registry" where
  "ObserveBatchSize n r = r\<lparr>batchSizeHistogram := observe (real_of_int n) (batchSizeHistogram r)\<rparr>"

text \<open>The argument is a \<open>time.Duration\<close> in nanoseconds.\<close>

definition ObserveFlushLatency :: "int \<Rightarrow> registry \<Rightarrow> registry" where
  "ObserveFlushLatency d r =
     r\<lparr>flushLatencySeconds := observe (real_of_int d / 1000000000) (flushLatencySeconds r)\<rparr>"

lemmas metric_defs = IncAccepted_def IncRejected_def IncDropped_def IncFlush_def
  IncFlushFailure_def IncRetryAttempt_def AddBulkIndexed_def AddBulkFailed_def IncQueueFull_def
  SetQueueDepth_def ObserveBatchSize_def ObserveFlushLatency_def

subsection \<open>The exposition\<close>

datatype sample =
    SType string string
  | SCounter string u64
  | SGauge string int
  | SBucket string real u64
  | SBucketInf string u64
  | SSum string real
  | SCount string u64
  | SUptime string real

definition writeHistogram :: "string \<Rightarrow> histogram \<Rightarrow> sample list" where
  "writeHistogram name h =
     [SType name ''histogram'']
     @ map (\<lambda>b. SBucket name (upper b) (bucket_count b)) (h_items h)
     @ [SBucketInf name (h_count h), SSum name (real (unat (h_sum h)) / 1000), SCount name (h_count h)]"

definition writeCounter :: "string \<Rightarrow> u64 \<Rightarrow> sample list" where
  "writeCounter name v = [SType name ''counter'', SCounter name v]"

definition writeGauge :: "string \<Rightarrow> int \<Rightarrow> sample list" where
  "writeGauge name v = [SType name ''gauge'', SGauge name v]"

text \<open>\<open>now\<close> is the reading of the clock that \<open>time.Since\<close> makes.\<close>

definition render :: "int \<Rightarrow> registry \<Rightarrow> sample list" where
  "render now r =
     writeCounter ''analytics_accepted_events_total'' (acceptedEvents r)
     @ writeCounter ''analytics_rejected_events_total'' (rejectedEvents r)
     @ writeCounter ''analytics_dropped_events_total'' (droppedEvents r)
     @ writeGauge ''analytics_queued_events_current'' (queuedCurrent r)
     @ writeCounter ''analytics_flushes_total'' (flushes r)
     @ writeCounter ''analytics_flush_failures_total'' (flushFailures r)
     @ writeCounter ''analytics_retry_attempts_total'' (retryAttempts r)
     @ writeCounter ''analytics_bulk_items_indexed_total'' (bulkIndexed r)
     @ writeCounter ''analytics_bulk_items_failed_total'' (bulkFailed r)
     @ writeCounter ''analytics_queue_full_occurrences_total'' (queueFull r)
     @ writeHistogram ''analytics_batch_size'' (batchSizeHistogram r)
     @ writeHistogram ''analytics_flush_latency_seconds'' (flushLatencySeconds r)
     @ [SType ''analytics_process_uptime_seconds'' ''gauge'',
        SUptime ''analytics_process_uptime_seconds'' (real_of_int (now - startedAt r) / 1000000000)]"

text \<open>The content type and the text of the answer.\<close>

definition Handler :: "int \<Rightarrow> registry \<Rightarrow> string \<times> sample list" where
  "Handler now r = (''text/plain; version=0.0.4'', render now r)"

subsection \<open>What a histogram counts\<close>

definition counts_obs :: "real list \<Rightarrow> real list \<Rightarrow> histogram \<Rightarrow> bool" where
  "counts_obs bounds vs h \<longleftrightarrow> h_count h = of_nat (length vs) \<and>
     h_items h = map (\<lambda>b. \<lparr>upper = b, bucket_count = of_nat (length (filter (\<lambda>v. v \<le> b) vs))\<rparr>) bounds"

lemma counts_obs_new: "counts_obs bounds [] (newHistogram bounds)"
  by (simp add: counts_obs_def newHistogram_def)

lemma counts_obs_observe: "counts_obs bounds vs h \<Longrightarrow> counts_obs bounds (vs @ [v]) (observe v h)"
  by (auto simp: counts_obs_def observe_def bump_bucket_def)

lemma counts_obs_fold:
  "counts_obs bounds us h \<Longrightarrow> counts_obs bounds (us @ vs) (fold observe vs h)"
proof (induction vs arbitrary: us h)
  case (Cons v vs)
  from Cons.IH [OF counts_obs_observe [OF Cons.prems]] show ?case by simp
qed simp

fun bucket_values :: "sample list \<Rightarrow> u64 list" where
  "bucket_values [] = []"
| "bucket_values (SBucket name b v # ss) = v # bucket_values ss"
| "bucket_values (SBucketInf name v # ss) = v # bucket_values ss"
| "bucket_values (s # ss) = bucket_values ss"

lemma bucket_values_append [simp]: "bucket_values (xs @ ys) = bucket_values xs @ bucket_values ys"
  by (induction xs rule: bucket_values.induct) auto

lemma bucket_values_map [simp]:
  "bucket_values (map (\<lambda>b. SBucket name (f b) (g b)) bs) = map g bs"
  by (induction bs) auto

lemma bucket_values_writeHistogram:
  "bucket_values (writeHistogram name h) = map bucket_count (h_items h) @ [h_count h]"
  by (simp add: writeHistogram_def)

text \<open>
  C37: The exposition is a valid cumulative histogram: after fewer than \<open>2 ^ 64\<close> observations
  (of any values, in any order) a histogram with ascending bounds prints, for each bound, how
  many observed values do not exceed it, so the printed buckets never decrease and end in the
  total count.
\<close>

theorem histogram_cumulative:
  assumes "sorted bounds" "length vs < 2 ^ 64"
  shows "map unat (bucket_values (writeHistogram name (fold observe vs (newHistogram bounds))))
      = map (\<lambda>b. length (filter (\<lambda>v. v \<le> b) vs)) bounds @ [length vs]
    \<and> sorted (map unat (bucket_values (writeHistogram name (fold observe vs (newHistogram bounds)))))"
proof -
  have c: "counts_obs bounds vs (fold observe vs (newHistogram bounds))"
    using counts_obs_fold [OF counts_obs_new, of bounds vs] by simp
  have small: "unat (of_nat (length (filter P vs)) :: u64) = length (filter P vs)" for P
    using le_less_trans [OF length_filter_le assms(2)]
    by (simp add: unat_of_nat)
  have eq: "map unat (bucket_values (writeHistogram name (fold observe vs (newHistogram bounds))))
      = map (\<lambda>b. length (filter (\<lambda>v. v \<le> b) vs)) bounds @ [length vs]"
    using c small [of "\<lambda>_. True"] by (simp add: counts_obs_def bucket_values_writeHistogram small)
  have mono: "length (filter (\<lambda>v. v \<le> b) vs) \<le> length (filter (\<lambda>v. v \<le> c) vs)" if "b \<le> c" for b c
    using that by (induction vs) auto
  have "sorted (map (\<lambda>b. length (filter (\<lambda>v. v \<le> b) vs)) bounds @ [length vs])"
    using assms(1) by (auto simp: sorted_append sorted_map intro: sorted_wrt_mono_rel [OF mono])
  with eq show ?thesis by simp
qed

theorem histogram_cumulative_witness:
  "map unat (bucket_values (writeHistogram ''h'' (fold observe [3, 1] (newHistogram [1, 10]))))
     = [1, 2, 2]"
  using histogram_cumulative [of "[1, 10]" "[3, 1]" "''h''"] by simp

end
