(* ===== verification/Http_Api.thy ===== *)
theory Http_Api
  imports Request_Metadata Decode Media_Type Geo Rate_Limiter Queue Metrics
begin

section \<open>The HTTP API\<close>

text \<open>
  \<open>internal/httpapi/server.go\<close>. The handlers share the queue, the registry, the limiter and the
  time zone cache, the record \<open>server\<close>; each of these is guarded by its own lock, and a handler
  takes them one after the other. What a handler calls outside this repository or asks of other
  components is the record \<open>server_env\<close>: the configuration, the process's surroundings and the
  lookup of the GeoIP resolver. A reply is its status, its headers and the members of its JSON object. A
  body that cannot be read is \<open>None\<close>. \<open>None\<close> as a result is a panic of a queue operation.
\<close>

record server_env =
  se_cfg :: config
  se_host :: host
  se_lookup :: "string \<Rightarrow> geo_result option"

record server =
  sv_queue :: queue
  sv_metrics :: registry
  sv_limiter :: "rateLimiter option"
  sv_zones :: "string set"

record reply =
  rp_status :: int
  rp_headers :: "(string \<times> string) list"
  rp_ok :: bool
  rp_error :: "string option"
  rp_detail :: "validation_error option"

definition new_server :: "config \<Rightarrow> queue \<Rightarrow> registry \<Rightarrow> server" where
  "new_server cfg q registry = \<lparr>sv_queue = q, sv_metrics = registry,
     sv_limiter = Some (newRateLimiter (cfg_RateLimitPerMinute cfg) (cfg_RateLimitMaxClients cfg)),
     sv_zones = {}\<rparr>"

subsection \<open>Checks on a request\<close>

definition isJSONRequest :: "host \<Rightarrow> web_request \<Rightarrow> bool" where
  "isJSONRequest H r =
     (let contentType = wr_header r ''Content-Type'' in
      contentType = [] \<or> ParseMediaType H contentType = Some ''application/json'')"

text \<open>The inner loop of \<open>classifyUserAgent\<close>, over one list of needles.\<close>

fun collect_reasons :: "string \<Rightarrow> string list \<Rightarrow> string list \<Rightarrow> string list" where
  "collect_reasons userAgent [] reasons = reasons"
| "collect_reasons userAgent (needle # needles) reasons =
     (let reason = ''user_agent:'' @ needle in
      collect_reasons userAgent needles
        (if \<not> contains needle userAgent \<or> reason \<in> set reasons then reasons else reasons @ [reason]))"

definition classifyUserAgent :: "host \<Rightarrow> string \<Rightarrow> string list \<Rightarrow> string list \<Rightarrow> bool \<times> string list" where
  "classifyUserAgent H raw flagged suspect =
     (let userAgent = TrimSpace (ToLower H raw);
          reasons = collect_reasons userAgent suspect (collect_reasons userAgent flagged [])
      in if userAgent = [] then (True, [''user_agent:missing''])
         else (reasons \<noteq> [], reasons))"

definition originAllowedForSite :: "host \<Rightarrow> config \<Rightarrow> string \<Rightarrow> string \<Rightarrow> bool" where
  "originAllowedForSite H cfg siteID origin =
     (if cfg_SiteOriginSet cfg = [] then True
      else (case map_of (cfg_SiteOriginSet cfg) siteID of
              None \<Rightarrow> False
            | Some allowedOrigins \<Rightarrow> NormalizeDomain H origin \<in> allowedOrigins))"

definition normalizedURLHost :: "host \<Rightarrow> string \<Rightarrow> string" where
  "normalizedURLHost H raw =
     (case url_Parse H (TrimSpace raw) of
        None \<Rightarrow> []
      | Some parsed \<Rightarrow> NormalizeDomain H (if u_Host parsed = [] then u_Path parsed else u_Host parsed))"

definition urlMatchesOrigin :: "host \<Rightarrow> string \<Rightarrow> string \<Rightarrow> bool" where
  "urlMatchesOrigin H rawURL origin =
     (if TrimSpace rawURL = [] \<or> TrimSpace origin = [] then True
      else let urlHost = normalizedURLHost H rawURL; originHost = normalizedURLHost H origin in
        if urlHost = [] \<or> originHost = [] then False else urlHost = originHost)"

subsection \<open>Replies\<close>

definition json_header :: "(string \<times> string) list" where
  "json_header = [(''Content-Type'', ''application/json'')]"

definition setCORS :: "server_env \<Rightarrow> web_request \<Rightarrow> (string \<times> string) list" where
  "setCORS E r =
     (let origin = wr_header r ''Origin'' in
      if origin = [] \<or> \<not> AllowedDomain (se_host E) (se_cfg E) origin then []
      else [(''Access-Control-Allow-Origin'', origin),
            (''Access-Control-Allow-Methods'', ''POST, OPTIONS''),
            (''Access-Control-Allow-Headers'', ''Content-Type''),
            (''Access-Control-Max-Age'', ''600''), (''Vary'', ''Origin'')])"

definition respondOK :: "(string \<times> string) list \<Rightarrow> reply" where
  "respondOK headers = \<lparr>rp_status = 202, rp_headers = headers, rp_ok = True, rp_error = None, rp_detail = None\<rparr>"

definition respondError :: "(string \<times> string) list \<Rightarrow> int \<Rightarrow> string \<Rightarrow> validation_error option \<Rightarrow> reply" where
  "respondError headers status code detail =
     \<lparr>rp_status = status, rp_headers = headers, rp_ok = False, rp_error = Some code, rp_detail = detail\<rparr>"

subsection \<open>handleCollect\<close>

text \<open>A return before the queue: the status, the code, the detail and what \<open>IncRejected\<close> adds.\<close>

datatype rejection = Rejection (rej_status: int) (rej_code: string) (rej_detail: "validation_error option") (rej_count: int)

text \<open>From the check of the origin to the one of the number of events.\<close>

definition screen_request :: "server_env \<Rightarrow> web_request \<Rightarrow> string option \<Rightarrow> rejection + event list" where
  "screen_request E r body0 =
     (let cfg = se_cfg E in
      if cfg_RequireOrigin cfg \<and> TrimSpace (wr_header r ''Origin'') = []
      then Inl (Rejection 403 ''origin_required'' None 1)
      else if \<not> isJSONRequest (se_host E) r
      then Inl (Rejection 415 ''content_type_must_be_application_json'' None 1)
      else (case body0 of
              None \<Rightarrow> Inl (Rejection 413 ''payload_too_large'' None 1)
            | Some body \<Rightarrow>
                if int (length body) > cfg_MaxPayloadBytes cfg
                then Inl (Rejection 413 ''payload_too_large'' None 1)
                else if body = [] then Inl (Rejection 400 ''empty_body'' None 1)
                else (case DecodeBatch body of
                        Inl EmptyBatch \<Rightarrow> Inl (Rejection 400 ''empty_batch'' None 1)
                      | Inl InvalidJSON \<Rightarrow> Inl (Rejection 400 ''invalid_json'' None 1)
                      | Inr batch \<Rightarrow>
                          if int (length batch) > cfg_MaxEventsPerRequest cfg
                          then Inl (Rejection 413 ''too_many_events'' None (int (length batch)))
                          else Inr batch)))"

definition mark_suspect :: "bool \<times> string list \<Rightarrow> event \<Rightarrow> event" where
  "mark_suspect verdict e =
     (if fst verdict
      then e\<lparr>ev_IsSuspect := True, ev_TrafficQuality := ''suspect'',
             ev_SuspicionReasons := ev_SuspicionReasons e @ snd verdict\<rparr>
      else e)"

definition locate :: "geo_result option \<Rightarrow> event \<Rightarrow> event" where
  "locate found e = (case found of None \<Rightarrow> e | Some g \<Rightarrow>
     e\<lparr>ev_GeoCountryISO := gr_CountryISOCode g, ev_GeoCountryName := gr_CountryName g,
       ev_GeoCityName := gr_CityName g, ev_GeoLocation := gr_Point g\<rparr>)"

text \<open>The body of the loop over the batch: the event that is appended, or the return.\<close>

definition process_event :: "server_env \<Rightarrow> metadata \<Rightarrow> bool \<times> string list \<Rightarrow> int \<Rightarrow> string set \<Rightarrow> event \<Rightarrow>
    (rejection + event) \<times> string set" where
  "process_event E m verdict now zones e0 =
     (let cfg = se_cfg E; H = se_host E;
          e1 = mark_suspect verdict (Enrich H cfg m now e0) in
      if \<not> originAllowedForSite H cfg (ev_SiteID e1) (ev_Origin e1)
      then (Inl (Rejection 403 ''origin_not_allowed_for_site'' None 1), zones)
      else if cfg_RequireURLHostMatch cfg \<and> \<not> urlMatchesOrigin H (ev_URL e1) (ev_Origin e1)
      then (Inl (Rejection 403 ''url_host_mismatch'' None 1), zones)
      else
        let e2 = ApplyFieldLimits H cfg e1 in
        (case Validate H cfg zones e2 of
           (Some err, zones1) \<Rightarrow> (Inl (Rejection 400 ''invalid_event'' (Some err) 1), zones1)
         | (None, zones1) \<Rightarrow> (Inr (locate (se_lookup E (rm_clientIP m)) e2), zones1)))"

fun process_batch :: "server_env \<Rightarrow> metadata \<Rightarrow> bool \<times> string list \<Rightarrow> int \<Rightarrow> string set \<Rightarrow> event list \<Rightarrow>
    (rejection + event list) \<times> string set" where
  "process_batch E m verdict now zones [] = (Inr [], zones)"
| "process_batch E m verdict now zones (e # es) =
     (case process_event E m verdict now zones e of
        (Inl rej, zones1) \<Rightarrow> (Inl rej, zones1)
      | (Inr e1, zones1) \<Rightarrow>
          (case process_batch E m verdict now zones1 es of
             (Inl rej, zones2) \<Rightarrow> (Inl rej, zones2)
           | (Inr es1, zones2) \<Rightarrow> (Inr (e1 # es1), zones2)))"

text \<open>From the metadata to the end of the loop.\<close>

definition screen_batch :: "server_env \<Rightarrow> web_request \<Rightarrow> int \<Rightarrow> string set \<Rightarrow> event list \<Rightarrow>
    (rejection + event list) \<times> string set" where
  "screen_batch E r now zones batch =
     (let cfg = se_cfg E; H = se_host E; m = NewRequestMetadata H r cfg;
          verdict = classifyUserAgent H (wr_header r ''User-Agent'') (cfg_BlockedUserAgents cfg)
                      (cfg_SuspectUserAgents cfg) in
      if \<not> AllowedDomain H cfg (rm_requestDomain m)
      then (Inl (Rejection 403 ''domain_not_allowed'' None (int (length batch))), zones)
      else process_batch E m verdict now zones batch)"

definition sv_metric :: "(registry \<Rightarrow> registry) \<Rightarrow> server \<Rightarrow> server" where
  "sv_metric f sv = sv\<lparr>sv_metrics := f (sv_metrics sv)\<rparr>"

text \<open>The two ways to put the events into the queue.\<close>

definition store_events :: "server_env \<Rightarrow> (string \<times> string) list \<Rightarrow> event list \<Rightarrow> server \<Rightarrow> (reply \<times> server) go" where
  "store_events E headers enriched sv =
     (if cfg_DropPolicy (se_cfg E) = DropPolicyReject then do {
        (ok, q) \<leftarrow> Enqueue (sv_queue sv) enriched;
        let sv1 = sv\<lparr>sv_queue := q\<rparr> in
        if \<not> ok then
          Some (respondError headers 503 ''queue_full'' None,
                sv_metric IncQueueFull (sv_metric (IncRejected (int (length enriched))) sv1))
        else
          Some (respondOK headers,
                sv_metric (SetQueueDepth (Len q)) (sv_metric (IncAccepted (int (length enriched))) sv1)) }
      else do {
        (dropped, q) \<leftarrow> DropNewest (sv_queue sv) enriched;
        let sv1 = sv\<lparr>sv_queue := q\<rparr>;
            sv2 = (if dropped > 0 then sv_metric IncQueueFull (sv_metric (IncDropped dropped) sv1) else sv1) in
        Some (respondOK headers,
              sv_metric (SetQueueDepth (Len q)) (sv_metric (IncAccepted (int (length enriched) - dropped)) sv2)) })"

definition reject_with :: "(string \<times> string) list \<Rightarrow> rejection \<Rightarrow> server \<Rightarrow> (reply \<times> server) go" where
  "reject_with headers rej sv =
     Some (respondError headers (rej_status rej) (rej_code rej) (rej_detail rej),
           sv_metric (IncRejected (rej_count rej)) sv)"

text \<open>\<open>limitNow\<close> and \<open>now\<close> are the two readings of the clock.\<close>

definition handleCollect :: "server_env \<Rightarrow> int \<Rightarrow> int \<Rightarrow> web_request \<Rightarrow> string option \<Rightarrow> server \<Rightarrow> (reply \<times> server) go" where
  "handleCollect E limitNow now r body sv =
     (let headers = json_header @ setCORS E r;
          (ok, limiter) = Allow (sv_limiter sv) (ClientIP r (cfg_TrustProxyHeaders (se_cfg E))) limitNow;
          sv1 = sv\<lparr>sv_limiter := limiter\<rparr> in
      if \<not> ok then reject_with headers (Rejection 429 ''rate_limited'' None 1) sv1
      else (case screen_request E r body of
              Inl rej \<Rightarrow> reject_with headers rej sv1
            | Inr batch \<Rightarrow>
                (case screen_batch E r now (sv_zones sv1) batch of
                   (Inl rej, zones) \<Rightarrow> reject_with headers rej (sv1\<lparr>sv_zones := zones\<rparr>)
                 | (Inr enriched, zones) \<Rightarrow> store_events E headers enriched (sv1\<lparr>sv_zones := zones\<rparr>))))"

subsection \<open>The other handlers\<close>

definition handleOptions :: "server_env \<Rightarrow> web_request \<Rightarrow> reply" where
  "handleOptions E r = \<lparr>rp_status = 204, rp_headers = json_header @ setCORS E r, rp_ok = False, rp_error = None, rp_detail = None\<rparr>"

definition handleHealth :: "server_env \<Rightarrow> web_request \<Rightarrow> reply" where
  "handleHealth E r = \<lparr>rp_status = 200, rp_headers = json_header @ setCORS E r, rp_ok = True, rp_error = None, rp_detail = None\<rparr>"

text \<open>\<open>ready\<close> is \<open>Ready()\<close> of the batcher, \<open>ping\<close> whether \<open>Ping\<close> of the client succeeds in time.\<close>

definition handleReady :: "server_env \<Rightarrow> bool \<Rightarrow> bool \<Rightarrow> web_request \<Rightarrow> reply" where
  "handleReady E ready ping r =
     (let headers = json_header @ setCORS E r in
      if \<not> ready then respondError headers 503 ''batcher_not_ready'' None
      else if cfg_RequireElasticReady (se_cfg E) \<and> \<not> ping
      then respondError headers 503 ''elasticsearch_not_ready'' None
      else \<lparr>rp_status = 200, rp_headers = headers, rp_ok = True, rp_error = None, rp_detail = None\<rparr>)"

text \<open>The replies carry the headers that \<open>Set\<close> leaves: the content type is replaced.\<close>

definition handleOpenAPI :: reply where
  "handleOpenAPI = \<lparr>rp_status = 200,
     rp_headers = [(''Content-Type'', ''application/vnd.oai.openapi+json;version=3.1''),
                   (''Cache-Control'', ''public, max-age=300'')],
     rp_ok = False, rp_error = None, rp_detail = None\<rparr>"

datatype route = RouteOpenAPI | RouteCollect | RouteOptions | RouteHealth | RouteReady | RouteNotFound | RouteNotAllowed

text \<open>The patterns of the mux; a \<open>GET\<close> pattern also matches \<open>HEAD\<close>.\<close>

definition route_of :: "string \<Rightarrow> string \<Rightarrow> route" where
  "route_of method path =
     (let get = method = ''GET'' \<or> method = ''HEAD'' in
      if path = ''/openapi.json'' then (if get then RouteOpenAPI else RouteNotAllowed)
      else if path = ''/healthz'' then (if get then RouteHealth else RouteNotAllowed)
      else if path = ''/readyz'' then (if get then RouteReady else RouteNotAllowed)
      else if path = ''/collect'' \<or> path = ''/batch'' then
        (if method = ''POST'' then RouteCollect else if method = ''OPTIONS'' then RouteOptions else RouteNotAllowed)
      else RouteNotFound)"

subsection \<open>What the loop over a batch lets through\<close>

text \<open>
  What the handler promises of an event it puts into the queue, besides its order: it is valid, its
  origin is one of its site, host, origin and version are the request's and the collector's, and it
  has no identifier yet.
\<close>

definition admissible :: "server_env \<Rightarrow> metadata \<Rightarrow> event \<Rightarrow> bool" where
  "admissible E m e \<longleftrightarrow> event_valid (se_host E) (se_cfg E) e \<and>
     originAllowedForSite (se_host E) (se_cfg E) (ev_SiteID e) (ev_Origin e) \<and>
     ev_RequestDomain e = rm_requestDomain m \<and> ev_Origin e = rm_origin m \<and>
     ev_CollectorVersion e = rm_collectorVersion m \<and> ev_DocumentID e = []"

lemma locate_frame [simp]:
  "ev_SiteID (locate g e) = ev_SiteID e" "ev_Origin (locate g e) = ev_Origin e"
  "ev_DocumentID (locate g e) = ev_DocumentID e"
  "ev_RequestDomain (locate g e) = ev_RequestDomain e" "ev_CollectorVersion (locate g e) = ev_CollectorVersion e"
  "event_valid H cfg (locate g e) = event_valid H cfg e"
  by (simp_all add: locate_def event_valid_def split: option.split)

lemma limits_frame [simp]:
  "ev_SiteID (ApplyFieldLimits H cfg e) = ev_SiteID e" "ev_Origin (ApplyFieldLimits H cfg e) = ev_Origin e"
  "ev_RequestDomain (ApplyFieldLimits H cfg e) = ev_RequestDomain e" "ev_DocumentID (ApplyFieldLimits H cfg e) = ev_DocumentID e"
  "ev_CollectorVersion (ApplyFieldLimits H cfg e) = ev_CollectorVersion e"
  by (simp_all add: ApplyFieldLimits_def Let_def)

lemma enriched_frame [simp]:
  "ev_SiteID (mark_suspect v (Enrich H cfg m now e)) = ev_SiteID e"
  "ev_Origin (mark_suspect v (Enrich H cfg m now e)) = rm_origin m"
  "ev_DocumentID (mark_suspect v (Enrich H cfg m now e)) = ev_DocumentID e"
  "ev_RequestDomain (mark_suspect v (Enrich H cfg m now e)) = rm_requestDomain m"
  "ev_CollectorVersion (mark_suspect v (Enrich H cfg m now e)) = rm_collectorVersion m"
  by (simp_all add: mark_suspect_def enrich_defs Let_def)

lemma process_event_spec:
  assumes "cache_ok (se_host E) zones" "process_event E m verdict now zones e = (res, zones')"
  shows "cache_ok (se_host E) zones'" "res = Inr e' \<Longrightarrow> ev_DocumentID e = [] \<Longrightarrow> admissible E m e'"
    "res = Inl rej \<Longrightarrow> rej_count rej = 1 \<and> rej_status rej \<in> {400, 403}"
proof -
  let ?e2 = "ApplyFieldLimits (se_host E) (se_cfg E) (mark_suspect verdict (Enrich (se_host E) (se_cfg E) m now e))"
  obtain err zones1 where v: "Validate (se_host E) (se_cfg E) zones ?e2 = (err, zones1)" by (metis surj_pair)
  note vs = Validate_spec [OF assms(1) v]
  show "cache_ok (se_host E) zones'" "res = Inl rej \<Longrightarrow> rej_count rej = 1 \<and> rej_status rej \<in> {400, 403}"
    using assms v vs by (auto simp: process_event_def Let_def split: if_splits option.splits)
  show "res = Inr e' \<Longrightarrow> ev_DocumentID e = [] \<Longrightarrow> admissible E m e'"
    using assms(2) v vs
    by (auto simp: process_event_def admissible_def Let_def split: if_splits option.splits)
qed

lemma process_batch_spec:
  assumes "cache_ok (se_host E) zones" "process_batch E m verdict now zones es = (res, zones')"
    "\<forall>e\<in>set es. ev_DocumentID e = []"
  shows "cache_ok (se_host E) zones' \<and>
    (\<forall>es'. res = Inr es' \<longrightarrow> length es' = length es \<and> list_all (admissible E m) es' \<and>
       map ev_SiteID es' = map ev_SiteID es) \<and>
    (\<forall>rej. res = Inl rej \<longrightarrow> rej_count rej = 1 \<and> rej_status rej \<in> {400, 403})"
  using assms
proof (induction es arbitrary: zones res zones')
  case Nil
  then show ?case by auto
next
  case (Cons e es)
  obtain r1 zones1 where one: "process_event E m verdict now zones e = (r1, zones1)" by (metis surj_pair)
  note spec = process_event_spec [OF Cons.prems(1) one]
  show ?case
  proof (cases r1)
    case (Inl rej)
    with spec(1,3) Cons.prems(2) one show ?thesis by auto
  next
    case (Inr e1)
    obtain r2 zones2 where rest: "process_batch E m verdict now zones1 es = (r2, zones2)" by (metis surj_pair)
    have site: "ev_SiteID e1 = ev_SiteID e"
      using one Inr by (auto simp: process_event_def Let_def split: if_splits option.splits prod.splits)
    from Cons.IH [OF spec(1) rest] spec(2) [OF Inr] Inr one rest site Cons.prems(2,3) show ?thesis
      by (auto split: sum.splits)
  qed
qed

lemma screen_batch_spec:
  assumes "cache_ok (se_host E) zones" "screen_batch E r now zones es = (res, zones')"
    "\<forall>e\<in>set es. ev_DocumentID e = []"
  defines "m \<equiv> NewRequestMetadata (se_host E) r (se_cfg E)"
  shows "cache_ok (se_host E) zones' \<and>
    (\<forall>es'. res = Inr es' \<longrightarrow> AllowedDomain (se_host E) (se_cfg E) (rm_requestDomain m) \<and>
       length es' = length es \<and> list_all (admissible E m) es' \<and> map ev_SiteID es' = map ev_SiteID es) \<and>
    (\<forall>rej. res = Inl rej \<longrightarrow> rej_status rej \<in> {400, 403})"
  using assms process_batch_spec [OF assms(1) _ assms(3)]
  by (auto simp: screen_batch_def Let_def split: if_splits)

lemma decoded_without_id: "DecodeBatch body = Inr es \<Longrightarrow> e \<in> set es \<Longrightarrow> ev_DocumentID e = []"
  using DecodeBatch_events decode_event_ok unfolding client_made_def by blast

lemma screen_request_spec:
  assumes "screen_request E r body = res"
  shows "res = Inr es \<Longrightarrow> int (length es) \<le> cfg_MaxEventsPerRequest (se_cfg E) \<and>
      (cfg_RequireOrigin (se_cfg E) \<longrightarrow> TrimSpace (wr_header r ''Origin'') \<noteq> []) \<and>
      (\<forall>e\<in>set es. ev_DocumentID e = []) \<and>
      (\<exists>b. body = Some b \<and> b \<noteq> [] \<and> int (length b) \<le> cfg_MaxPayloadBytes (se_cfg E) \<and> DecodeBatch b = Inr es)"
    "res = Inl rej \<Longrightarrow> rej_status rej \<in> {400, 403, 413, 415}"
  using assms
  by (auto simp: screen_request_def Let_def dest: decoded_without_id split: if_splits option.splits sum.splits decode_error.splits)

subsection \<open>What a handler does to the queue and the counters\<close>

text \<open>
  How many events of a batch that passed the checks are queued under a reply 202: all of them when
  the policy is to reject, and otherwise the first ones, as many as the queue has room for.
\<close>

definition admitted_count :: "config \<Rightarrow> queue \<Rightarrow> event list \<Rightarrow> nat" where
  "admitted_count cfg q batch = (if cfg_DropPolicy cfg = DropPolicyReject then length batch
     else room (q_capacity q) (length (contents q)) (length batch))"

text \<open>
  The outcome of a request: without the status 202 neither the queue nor the counters of accepted
  and dropped events change; with it, the first \<open>admitted_count\<close> events of \<open>batch\<close> are queued behind
  the others and counted as accepted, and the rest as dropped. The status 503 says that the policy is
  to reject and the batch does not fit, and counts all of it as rejected.
\<close>

definition stored :: "server_env \<Rightarrow> event list \<Rightarrow> int \<Rightarrow> server \<Rightarrow> server \<Rightarrow> bool" where
  "stored E batch status sv sv' \<longleftrightarrow> wf_queue (sv_queue sv') \<and> q_capacity (sv_queue sv') = q_capacity (sv_queue sv) \<and>
     (if status \<noteq> 202
      then contents (sv_queue sv') = contents (sv_queue sv) \<and>
        acceptedEvents (sv_metrics sv') = acceptedEvents (sv_metrics sv) \<and>
        droppedEvents (sv_metrics sv') = droppedEvents (sv_metrics sv) \<and>
        (status = 503 \<longrightarrow> cfg_DropPolicy (se_cfg E) = DropPolicyReject \<and>
           q_capacity (sv_queue sv) < int (length (contents (sv_queue sv)) + length batch) \<and>
           rejectedEvents (sv_metrics sv') = rejectedEvents (sv_metrics sv) + of_nat (length batch))
      else let k = admitted_count (se_cfg E) (sv_queue sv) batch in
        contents (sv_queue sv') = contents (sv_queue sv) @ take k batch \<and>
        acceptedEvents (sv_metrics sv') = acceptedEvents (sv_metrics sv) + of_nat k \<and>
        droppedEvents (sv_metrics sv') = droppedEvents (sv_metrics sv) + of_nat (length batch - k) \<and>
        rejectedEvents (sv_metrics sv') = rejectedEvents (sv_metrics sv))"

lemma reject_with_stored:
  assumes "wf_queue (sv_queue sv)" "rej_status rej \<notin> {202, 503}"
  shows "\<exists>rep sv'. reject_with headers rej sv = Some (rep, sv') \<and> rp_status rep = rej_status rej \<and>
    stored E batch (rp_status rep) sv sv' \<and> sv_zones sv' = sv_zones sv \<and> sv_limiter sv' = sv_limiter sv \<and>
    rejectedEvents (sv_metrics sv') = rejectedEvents (sv_metrics sv) + to_u64 (rej_count rej)"
  using assms
  by (simp add: reject_with_def respondError_def stored_def sv_metric_def IncRejected_def)

lemma ring_wf_contents: "ring q xs \<Longrightarrow> wf_queue q \<and> contents q = xs"
  by (simp add: ring_wf ring_contents)

lemma store_events_stored:
  assumes "wf_queue (sv_queue sv)"
  shows "\<exists>rep sv'. store_events E headers batch sv = Some (rep, sv') \<and> rp_status rep \<in> {202, 503} \<and>
    stored E batch (rp_status rep) sv sv' \<and> sv_zones sv' = sv_zones sv \<and> sv_limiter sv' = sv_limiter sv"
proof -
  have r: "ring (sv_queue sv) (contents (sv_queue sv))" using assms by (simp only: wf_queue_def)
  let ?xs = "contents (sv_queue sv)" and ?cap = "q_capacity (sv_queue sv)"
  show ?thesis
  proof (cases "cfg_DropPolicy (se_cfg E) = DropPolicyReject")
    case True
    show ?thesis
    proof (cases "int (length ?xs + length batch) \<le> ?cap")
      case fits: True
      obtain q where q: "Enqueue (sv_queue sv) batch = Some (True, q)" "ring q (?xs @ batch)" "q_capacity q = ?cap"
        using rq.enq_fits [OF r fits] by blast
      with True ring_wf_contents [OF q(2)] show ?thesis
        by (simp add: store_events_def stored_def admitted_count_def sv_metric_def respondOK_def IncAccepted_def
            SetQueueDepth_def to_u64_def)
    next
      case False
      then have "Enqueue (sv_queue sv) batch = Some (False, sv_queue sv)" using rq.enq_full [OF r] by simp
      with False True assms show ?thesis
        by (simp add: store_events_def stored_def sv_metric_def respondError_def IncRejected_def IncQueueFull_def
            to_u64_def)
    qed
  next
    case False
    let ?k = "room ?cap (length ?xs) (length batch)"
    have k: "?k \<le> length batch" by (simp add: room_def)
    obtain q where q: "DropNewest (sv_queue sv) batch = Some (int (length batch - ?k), q)"
      "ring q (?xs @ take ?k batch)" "q_capacity q = ?cap" using rq.dropn_room [OF r, of batch] by blast
    have acc: "to_u64 (int (length batch) - int (length batch - ?k)) = of_nat ?k"
      "to_u64 (int (length batch - ?k)) = of_nat (length batch - ?k)"
      using k by (simp_all add: to_u64_def of_nat_diff)
    from False q ring_wf_contents [OF q(2)] k acc show ?thesis
      by (cases "length batch - ?k = 0")
        (simp_all add: store_events_def stored_def admitted_count_def sv_metric_def respondOK_def IncAccepted_def
          IncDropped_def IncQueueFull_def SetQueueDepth_def Let_def)
  qed
qed

text \<open>The three ways a request ends.\<close>

lemma handleCollect_cases:
  fixes E :: server_env and r :: web_request and sv :: server
  assumes wf: "wf_queue (sv_queue sv)" and cache: "cache_ok (se_host E) (sv_zones sv)"
  defines "m \<equiv> NewRequestMetadata (se_host E) r (se_cfg E)"
  obtains (rejected) rep sv' where "handleCollect E limitNow now r body sv = Some (rep, sv')"
      "rp_status rep \<in> {400, 403, 413, 415, 429}" "stored E [] (rp_status rep) sv sv'"
      "cache_ok (se_host E) (sv_zones sv')"
    | (admitted) rep sv' es batch where "handleCollect E limitNow now r body sv = Some (rep, sv')"
      "rp_status rep \<in> {202, 503}" "stored E batch (rp_status rep) sv sv'" "cache_ok (se_host E) (sv_zones sv')"
      "screen_request E r body = Inr es" "length batch = length es" "map ev_SiteID batch = map ev_SiteID es"
      "list_all (admissible E m) batch" "AllowedDomain (se_host E) (se_cfg E) (rm_requestDomain m)"
proof -
  let ?hd = "json_header @ setCORS E r"
  obtain ok lim where lim: "Allow (sv_limiter sv) (ClientIP r (cfg_TrustProxyHeaders (se_cfg E))) limitNow = (ok, lim)"
    by (metis surj_pair)
  define sv1 where "sv1 = sv\<lparr>sv_limiter := lim\<rparr>"
  have sv1: "sv_zones sv1 = sv_zones sv" "sv_queue sv1 = sv_queue sv" "sv_metrics sv1 = sv_metrics sv"
    by (simp_all add: sv1_def)
  have frame: "stored E b status sv2 sv' \<Longrightarrow> stored E b status sv sv'"
    if "sv_queue sv2 = sv_queue sv" "sv_metrics sv2 = sv_metrics sv" for b status sv2 sv'
    using that unfolding stored_def by auto
  show thesis
  proof (cases ok)
    case False
    obtain rep sv' where "reject_with ?hd (Rejection 429 ''rate_limited'' None 1) sv1 = Some (rep, sv')"
      "rp_status rep = 429" "stored E [] 429 sv1 sv'" "sv_zones sv' = sv_zones sv1"
      using reject_with_stored [of sv1 "Rejection 429 ''rate_limited'' None 1" ?hd E "[]"] wf sv1 by auto
    with False lim sv1 cache frame [of sv1] show thesis
      by (intro rejected [of rep sv']) (simp_all add: handleCollect_def Let_def sv1_def)
  next
    case True
    show thesis
    proof (cases "screen_request E r body")
      case (Inl rej)
      note st = screen_request_spec(2) [OF Inl refl]
      obtain rep sv' where "reject_with ?hd rej sv1 = Some (rep, sv')"
        "rp_status rep = rej_status rej" "stored E [] (rp_status rep) sv1 sv'" "sv_zones sv' = sv_zones sv1"
        using reject_with_stored [of sv1 rej ?hd E "[]"] wf sv1 st by auto
      with True Inl lim sv1 cache frame [of sv1] st show thesis
        by (intro rejected [of rep sv']) (auto simp: handleCollect_def Let_def sv1_def)
    next
      case (Inr es)
      obtain res zones where sb: "screen_batch E r now (sv_zones sv1) es = (res, zones)" by (metis surj_pair)
      have noid: "\<forall>e\<in>set es. ev_DocumentID e = []" using screen_request_spec(1) [OF Inr refl] by blast
      note spec = screen_batch_spec [OF cache [folded sv1(1)] sb noid]
      define sv2 where "sv2 = sv1\<lparr>sv_zones := zones\<rparr>"
      have sv2: "sv_queue sv2 = sv_queue sv" "sv_metrics sv2 = sv_metrics sv" "sv_zones sv2 = zones"
        using sv1 by (simp_all add: sv2_def)
      show thesis
      proof (cases res)
        case rej: (Inl rej)
        with spec have st: "rej_status rej \<in> {400, 403}" by simp
        obtain rep sv' where "reject_with ?hd rej sv2 = Some (rep, sv')"
          "rp_status rep = rej_status rej" "stored E [] (rp_status rep) sv2 sv'" "sv_zones sv' = sv_zones sv2"
          using reject_with_stored [of sv2 rej ?hd E "[]"] wf sv2 st by auto
        with True Inr lim rej sb sv2 spec frame [OF sv2(1,2)] st show thesis
          by (intro rejected [of rep sv']) (auto simp: handleCollect_def Let_def sv2_def sv1_def)
      next
        case batch: (Inr batch)
        obtain rep sv' where "store_events E ?hd batch sv2 = Some (rep, sv')" "rp_status rep \<in> {202, 503}"
          "stored E batch (rp_status rep) sv2 sv'" "sv_zones sv' = sv_zones sv2"
          using store_events_stored [of sv2 E ?hd batch] wf sv2 by auto
        with True Inr lim batch sb sv2 spec frame [OF sv2(1,2)] show thesis
          by (intro admitted [of rep sv' batch es]) (auto simp: handleCollect_def Let_def sv2_def sv1_def m_def)
      qed
    qed
  qed
qed

lemma collect_reasons_spec:
  assumes "distinct reasons"
  shows "distinct (collect_reasons ua needles reasons) \<and>
    set (collect_reasons ua needles reasons) =
      set reasons \<union> (\<lambda>n. ''user_agent:'' @ n) ` {n \<in> set needles. contains n ua}"
  using assms
proof (induction needles arbitrary: reasons)
  case (Cons needle needles)
  let ?reasons = "if \<not> contains needle ua \<or> ''user_agent:'' @ needle \<in> set reasons then reasons
      else reasons @ [''user_agent:'' @ needle]"
  have "distinct ?reasons" using Cons.prems by simp
  from Cons.IH [OF this] show ?case by (auto simp: Let_def)
qed simp

subsection \<open>Properties\<close>

text \<open>
  C4: What becomes of a request: whatever the request, the body and the clock are, the handler answers
  with one of the documented statuses. Validation is all or nothing: only a batch every event of
  which is valid, belongs to a site that allows the request's origin and comes from an allowed
  domain, in a request that keeps within the limits on its size and its number of events, gets a
  202, or a 503 when the policy is to reject and it does not fit; with every other reply, and with
  the 503, the queue and the counters of accepted and dropped events are as before. With a 202 the
  whole batch is queued behind the events that were there when the policy is to reject; when it is to drop
  the newest, exactly the first events that the queue has room for are queued and the rest are
  dropped. What is queued is counted as accepted and what is dropped as dropped.
\<close>

theorem collect_admits_valid_batches:
  assumes "wf_queue (sv_queue sv)" "cache_ok (se_host E) (sv_zones sv)"
  shows "\<exists>rep sv' batch es. handleCollect E limitNow now r body sv = Some (rep, sv') \<and>
    rp_status rep \<in> {202, 400, 403, 413, 415, 429, 503} \<and> stored E batch (rp_status rep) sv sv' \<and>
    cache_ok (se_host E) (sv_zones sv') \<and>
    (rp_status rep \<in> {202, 503} \<longrightarrow> screen_request E r body = Inr es \<and> map ev_SiteID batch = map ev_SiteID es \<and>
       int (length batch) \<le> cfg_MaxEventsPerRequest (se_cfg E) \<and>
       list_all (admissible E (NewRequestMetadata (se_host E) r (se_cfg E))) batch \<and>
       AllowedDomain (se_host E) (se_cfg E) (rm_requestDomain (NewRequestMetadata (se_host E) r (se_cfg E))) \<and>
       (cfg_RequireOrigin (se_cfg E) \<longrightarrow> TrimSpace (wr_header r ''Origin'') \<noteq> []))"
  using assms
proof (cases rule: handleCollect_cases [where E = E and r = r and sv = sv and limitNow = limitNow and now = now and body = body])
  case (rejected rep sv')
  then have "rp_status rep \<notin> {202, 503}" by auto
  with rejected show ?thesis by (intro exI [of _ rep] exI [of _ sv'] exI [of _ "[]"] exI [of _ "[]"]) auto
next
  case (admitted rep sv' es batch)
  note req = screen_request_spec(1) [OF admitted(5) refl]
  from admitted req show ?thesis
    by (intro exI [of _ rep] exI [of _ sv'] exI [of _ batch] exI [of _ es]) auto
qed

definition witness_server_env :: server_env where
  "witness_server_env = \<lparr>se_cfg = witness_config\<lparr>cfg_MaxEventsPerRequest := 5, cfg_MaxPayloadBytes := 100,
       cfg_DropPolicy := DropPolicyReject, cfg_RateLimitPerMinute := 2, cfg_RateLimitMaxClients := 10\<rparr>,
     se_host = plain_host, se_lookup = (\<lambda>_. None)\<rparr>"

definition witness_server :: server where
  "witness_server = new_server (se_cfg witness_server_env) witness_queue (new_registry 0)"

lemma witness_server_ok:
  "wf_queue (sv_queue witness_server)" "cache_ok (se_host E) (sv_zones witness_server)"
  using witness_queue_wf by (simp_all add: witness_server_def new_server_def cache_ok_def)

theorem collect_admits_valid_batches_witness:
  "\<exists>rep sv' batch. handleCollect witness_server_env 5 5 witness_request (Some witness_text) witness_server = Some (rep, sv') \<and>
     stored witness_server_env batch (rp_status rep) witness_server sv'"
  using collect_admits_valid_batches [OF witness_server_ok, of witness_server_env 5 5 witness_request "Some witness_text"]
  by blast

text \<open>
  The rate limit comes before everything else: a client over its limit is answered with 429, and
  the request changes nothing but the limiter and the counter of rejected events, by one.
\<close>

theorem rate_limited_request_is_inert:
  assumes "Allow (sv_limiter sv) (ClientIP r (cfg_TrustProxyHeaders (se_cfg E))) limitNow = (False, limiter)"
  shows "\<exists>rep. handleCollect E limitNow now r body sv =
      Some (rep, sv\<lparr>sv_limiter := limiter, sv_metrics := IncRejected 1 (sv_metrics sv)\<rparr>) \<and>
    rp_status rep = 429 \<and> rp_error rep = Some ''rate_limited''"
  using assms by (simp add: handleCollect_def reject_with_def respondError_def sv_metric_def Let_def)

theorem rate_limited_request_is_inert_witness:
  "\<exists>rep sv'. handleCollect witness_server_env 5 5 witness_request None
       (witness_server\<lparr>sv_limiter := Some ((newRateLimiter 1 1)\<lparr>rl_clients := [(''x'', \<lparr>rs_windowStart = 0, rs_count = 0\<rparr>)]\<rparr>)\<rparr>)
     = Some (rep, sv') \<and> rp_status rep = 429"
proof -
  let ?l = "(newRateLimiter 1 1)\<lparr>rl_clients := [(''x'', \<lparr>rs_windowStart = 0, rs_count = 0\<rparr>)]\<rparr>"
  let ?sv = "witness_server\<lparr>sv_limiter := Some ?l\<rparr>"
  have ip: "ClientIP witness_request (cfg_TrustProxyHeaders (se_cfg witness_server_env)) = ''10.0.0.1''" by code_simp
  have "Allow (sv_limiter ?sv) ''10.0.0.1'' 5 = (False, Some ?l)"
    by (simp add: Allow_def allow_locked_def newRateLimiter_def truncate_minute_def minute_def Let_def)
  from rate_limited_request_is_inert [of ?sv witness_request witness_server_env 5, unfolded ip, OF this]
  show ?thesis by blast
qed

text \<open>
  CORS is granted to allowed origins only: the reply carries the origin of the request exactly
  when there is one and its domain is configured, and never any other origin.
\<close>

theorem cors_only_for_allowed_origins:
  "(''Access-Control-Allow-Origin'', origin) \<in> set (setCORS E r) \<longleftrightarrow>
     origin = wr_header r ''Origin'' \<and> origin \<noteq> [] \<and> AllowedDomain (se_host E) (se_cfg E) origin"
  by (auto simp: setCORS_def Let_def)

text \<open>
  Which user agents are suspect: a blank one, with a reason of its own, and one that contains a
  configured needle after lowering and trimming; each needle that is found gives its reason once.
\<close>

theorem suspect_user_agents:
  "fst (classifyUserAgent H raw flagged suspect) =
     (TrimSpace (ToLower H raw) = [] \<or>
      (\<exists>n\<in>set (flagged @ suspect). contains n (TrimSpace (ToLower H raw)))) \<and>
   distinct (snd (classifyUserAgent H raw flagged suspect)) \<and>
   set (snd (classifyUserAgent H raw flagged suspect)) =
     (if TrimSpace (ToLower H raw) = [] then {''user_agent:missing''}
      else (\<lambda>n. ''user_agent:'' @ n) ` {n \<in> set (flagged @ suspect). contains n (TrimSpace (ToLower H raw))})"
proof -
  let ?ua = "TrimSpace (ToLower H raw)"
  let ?r = "collect_reasons ?ua suspect (collect_reasons ?ua flagged [])"
  have "distinct ?r" "set ?r = (\<lambda>n. ''user_agent:'' @ n) ` {n \<in> set (flagged @ suspect). contains n ?ua}"
    using collect_reasons_spec [of "[]" ?ua flagged] collect_reasons_spec [of "collect_reasons ?ua flagged []" ?ua suspect]
    by auto
  moreover from this(2) have "?r \<noteq> [] \<longleftrightarrow> (\<exists>n\<in>set (flagged @ suspect). contains n ?ua)"
    by (metis (no_types, lifting) empty_Collect_eq image_is_empty set_empty)
  ultimately show ?thesis by (simp add: classifyUserAgent_def Let_def)
qed

text \<open>
  Readiness: the collector reports 200 exactly when the batcher runs and, where the
  configuration asks for it, the service answers; otherwise 503 with the component that is missing.
\<close>

theorem ready_iff_components_ready:
  "rp_status (handleReady E ready ping r) =
     (if ready \<and> (if cfg_RequireElasticReady (se_cfg E) then ping else True) then 200 else 503) \<and>
   rp_error (handleReady E ready ping r) =
     (if \<not> ready then Some ''batcher_not_ready''
      else if cfg_RequireElasticReady (se_cfg E) \<and> \<not> ping then Some ''elasticsearch_not_ready'' else None)"
  by (simp add: handleReady_def respondError_def Let_def)

text \<open>
  A batch that is rejected for one of its events counts as one rejected event, however many
  events it has, while a batch with too many events counts all of them.
\<close>

theorem rejected_batch_counts_one:
  assumes "Allow (sv_limiter sv) (ClientIP r (cfg_TrustProxyHeaders (se_cfg E))) limitNow = (True, limiter)"
    "screen_request E r body = Inr es" "cache_ok (se_host E) (sv_zones sv)"
    "AllowedDomain (se_host E) (se_cfg E) (rm_requestDomain (NewRequestMetadata (se_host E) r (se_cfg E)))"
    "screen_batch E r now (sv_zones sv) es = (Inl rej, zones)"
  shows "\<exists>rep sv'. handleCollect E limitNow now r body sv = Some (rep, sv') \<and>
    rejectedEvents (sv_metrics sv') = rejectedEvents (sv_metrics sv) + 1"
proof -
  have "process_batch E (NewRequestMetadata (se_host E) r (se_cfg E))
      (classifyUserAgent (se_host E) (wr_header r ''User-Agent'') (cfg_BlockedUserAgents (se_cfg E))
        (cfg_SuspectUserAgents (se_cfg E))) now (sv_zones sv) es = (Inl rej, zones)"
    using assms(4,5) by (simp add: screen_batch_def Let_def)
  from process_batch_spec [OF assms(3) this] screen_request_spec(1) [OF assms(2) refl]
  have "rej_count rej = 1" by blast
  with assms show ?thesis
    by (simp add: handleCollect_def reject_with_def sv_metric_def IncRejected_def to_u64_def Let_def)
qed

definition witness_bad_text :: string where
  \<open>witness_bad_text = ''{"type":"a","site_id":"no good"}''\<close>

definition witness_bad_body :: string where
  "witness_bad_body = batch_text [witness_text, witness_bad_text, witness_text]"

definition witness_bad_batch :: "event list" where
  "witness_bad_batch = [zero_event\<lparr>ev_Type := ''a'', ev_SiteID := ''b''\<rparr>,
     zero_event\<lparr>ev_Type := ''a'', ev_SiteID := ''no good''\<rparr>, zero_event\<lparr>ev_Type := ''a'', ev_SiteID := ''b''\<rparr>]"

lemma witness_bad_decoded: "DecodeBatch witness_bad_body = Inr witness_bad_batch"
proof -
  have bad: "parse_json witness_bad_text = Some (JObject [(''type'', JString ''a''), (''site_id'', JString ''no good'')], [])"
    by (simp add: witness_bad_text_def scan_eval)
  then have "decode_single witness_bad_text = Inr (zero_event\<lparr>ev_Type := ''a'', ev_SiteID := ''no good''\<rparr>)"
    by (simp add: decode_single_def ensureEOF_def skip_space_def decode_eval)
  then show ?thesis unfolding witness_bad_body_def witness_bad_batch_def
    by (intro DecodeBatch_batch)
      (simp_all add: witness_text_decoded text_nesting_def bad witness_text_parsed nesting.simps max_depth_def)
qed

theorem rejected_batch_counts_one_witness:
  "\<exists>rep sv'. handleCollect witness_server_env 5 5 witness_request (Some witness_bad_body) witness_server = Some (rep, sv') \<and>
     rejectedEvents (sv_metrics sv') = 1 \<and> length witness_bad_batch = 3"
proof -
  let ?m = "NewRequestMetadata (se_host witness_server_env) witness_request (se_cfg witness_server_env)"
  have "fst (Allow (sv_limiter witness_server) (ClientIP witness_request
      (cfg_TrustProxyHeaders (se_cfg witness_server_env))) 5) = True" by code_simp
  then obtain limiter where allow: "Allow (sv_limiter witness_server) (ClientIP witness_request
      (cfg_TrustProxyHeaders (se_cfg witness_server_env))) 5 = (True, limiter)" by (metis prod.collapse)
  have screen: "screen_request witness_server_env witness_request (Some witness_bad_body) = Inr witness_bad_batch"
    using witness_bad_decoded
    by (simp add: screen_request_def isJSONRequest_def witness_server_env_def witness_config_def zero_config_def
        witness_request_def witness_bad_batch_def) (simp add: witness_bad_body_def batch_text_def witness_text_def witness_bad_text_def)
  have domain: "AllowedDomain (se_host witness_server_env) (se_cfg witness_server_env) (rm_requestDomain ?m)" by code_simp
  have "isl (fst (screen_batch witness_server_env witness_request 5 (sv_zones witness_server) witness_bad_batch))"
    by code_simp
  then obtain rej zones where "screen_batch witness_server_env witness_request 5 (sv_zones witness_server)
      witness_bad_batch = (Inl rej, zones)" by (metis isl_def prod.collapse)
  from rejected_batch_counts_one [OF allow screen witness_server_ok(2) domain this] show ?thesis
    by (auto simp: witness_server_def new_server_def new_registry_def witness_bad_batch_def)
qed

end
