(* ===== verification/Bulk_Sender.thy ===== *)
theory Bulk_Sender
  imports Event_Types
begin

section \<open>The interface between the batcher and its sender\<close>

text \<open>
  \<open>internal/elastic/client.go\<close>, \<open>type BulkSender\<close>, with its errors and results. A sender is a
  function from its state and a batch to a result, an error, the batch as the slice holds it
  after the call (a sender may assign document identifiers in place) and its next state. The
  locale \<open>bulk_sender\<close> states what the batcher relies on, \<open>stable_sender\<close> adds what makes a
  retry idempotent: identifiers once assigned stay.
\<close>

datatype error =
    ErrDocumentID
  | ErrEncode
  | ErrRequest
  | ErrTransport string
  | ErrBulkStatus int string
  | ErrDecode
  | ErrItemCount nat nat
  | ErrItemStatus
  | ErrContext
  | ErrRetryableItems
  | ErrExhausted nat error
  | ErrLoopExit
  | ErrPending "event list" error

text \<open>
  \<open>errors.As(err, &pendingErr)\<close>: the first \<open>pendingRetryError\<close> in the chain of wrapped errors.
\<close>

fun as_pending :: "error \<Rightarrow> event list option" where
  "as_pending (ErrPending pending err) = Some pending"
| "as_pending (ErrExhausted n err) = as_pending err"
| "as_pending _ = None"

fun is_exhausted :: "error \<Rightarrow> bool" where
  "is_exhausted (ErrExhausted n err) = True"
| "is_exhausted _ = False"

record bulk_result =
  br_Indexed :: int
  br_Failed :: int
  br_Retry :: "event list"

definition zero_result :: bulk_result where
  "zero_result = \<lparr>br_Indexed = 0, br_Failed = 0, br_Retry = []\<rparr>"

text \<open>An event without its identifier: what the client submitted and the collector added.\<close>

definition strip :: "event \<Rightarrow> event" where
  "strip e = e\<lparr>ev_DocumentID := []\<rparr>"

definition has_id :: "event \<Rightarrow> bool" where
  "has_id e \<longleftrightarrow> ev_DocumentID e \<noteq> []"

definition accounted :: "bulk_result \<Rightarrow> int" where
  "accounted r = br_Indexed r + br_Failed r + int (length (br_Retry r))"

lemma strip_strip [simp]: "strip (e\<lparr>ev_DocumentID := d\<rparr>) = strip e"
  by (simp add: strip_def)

locale bulk_sender =
  fixes send :: "'s \<Rightarrow> event list \<Rightarrow> (bulk_result \<times> error option) \<times> event list \<times> 's"
  assumes keeps_events: "send s b = ((res, err), b', s') \<Longrightarrow> map strip b' = map strip b"
    and retry_subseq: "send s b = ((res, err), b', s') \<Longrightarrow> subseq (br_Retry res) b'"
    and counts_nonneg: "send s b = ((res, err), b', s') \<Longrightarrow> 0 \<le> br_Indexed res \<and> 0 \<le> br_Failed res"
    and counts_exact: "send s b = ((res, None), b', s') \<Longrightarrow> accounted res = int (length b)"
    and error_all_or_none: "send s b = ((res, Some e), b', s') \<Longrightarrow>
      br_Indexed res = 0 \<and> br_Failed res = 0 \<and> (br_Retry res = [] \<or> br_Retry res = b')"
    and error_plain: "send s b = ((res, Some e), b', s') \<Longrightarrow>
      as_pending e = None \<and> \<not> is_exhausted e"
begin

lemma keeps_length: "send s b = ((res, err), b', s') \<Longrightarrow> length b' = length b"
  using keeps_events by (metis length_map)

lemma retry_length: "send s b = ((res, err), b', s') \<Longrightarrow> length (br_Retry res) \<le> length b"
  using retry_subseq keeps_length by (metis list_emb_length)

lemma counts_bound:
  assumes "send s b = ((res, err), b', s')"
  shows "accounted res \<le> int (length b)"
proof (cases err)
  case None
  with assms counts_exact show ?thesis by auto
next
  case (Some e)
  with assms error_all_or_none [of s b res e b' s'] keeps_length [OF assms] show ?thesis by (auto simp: accounted_def)
qed

text \<open>What is retried is, up to identifiers, part of what was sent.\<close>

lemma retry_mset:
  assumes "send s b = ((res, err), b', s')"
  shows "mset (map strip (br_Retry res)) \<subseteq># mset (map strip b)"
proof -
  have "subseq (map strip (br_Retry res)) (map strip b')"
    using retry_subseq [OF assms] by (rule subseq_map)
  then show ?thesis
    by (metis keeps_events [OF assms] subseq_imp_mset)
qed

end

locale stable_sender = bulk_sender +
  assumes ids_stable: "send s b = ((res, err), b', s') \<Longrightarrow> i < length b \<Longrightarrow> has_id (b ! i) \<Longrightarrow> b' ! i = b ! i"
    and ids_assigned: "send s b = ((res, err), b', s') \<Longrightarrow> br_Retry res \<noteq> [] \<or> err = None \<Longrightarrow> list_all has_id b'"
begin

lemma ids_fixed:
  assumes "send s b = ((res, err), b', s')" "list_all has_id b"
  shows "b' = b"
  using assms keeps_length [OF assms(1)] ids_stable [OF assms(1)]
  by (intro nth_equalityI) (auto simp: list_all_length)

text \<open>Every event handed back for a retry carries the identifier it was sent under.\<close>

lemma retry_has_ids:
  assumes "send s b = ((res, err), b', s')"
  shows "list_all has_id (br_Retry res)"
proof (cases "br_Retry res = []")
  case False
  with ids_assigned [OF assms] have "list_all has_id b'" by simp
  then show ?thesis
    using retry_subseq [OF assms] by (metis subseq_list_all)
qed simp

end

end
