(* ===== verification/Elastic.thy ===== *)
theory Elastic
  imports Bulk_Sender Rfc3339
begin

section \<open>The Elasticsearch client\<close>

text \<open>
  \<open>internal/elastic/client.go\<close>: the backoff, the classification of bulk responses, the
  document built from an event, and \<open>Send\<close>. The service behind \<open>httpClient.Do\<close> is a parameter:
  a function from its state and the request to its next state and either a transport error or a
  response, of which the model keeps the status, the body and what the JSON decoder reads from
  it. The random source is a stream of reads. The payload is the list of the lines that the
  encoder writes, as an action or a document; their JSON text is in \<open>Encode\<close>.
\<close>

subsection \<open>Bulk responses\<close>

text \<open>An item whose \<open>create\<close> object or status is absent decodes to status 0.\<close>

record bulk_item =
  item_status :: int
  item_error :: "string option"

record bulk_response =
  resp_errors :: bool
  resp_items :: "bulk_item list"

subsection \<open>Backoff\<close>

text \<open>\<open>rand.Int63n\<close> panics unless its argument is positive; \<open>rnd\<close> is the number it draws.\<close>

definition Int63n :: "(int \<Rightarrow> int) \<Rightarrow> int \<Rightarrow> int go" where
  "Int63n rnd n = (if n \<le> 0 then None else Some (rnd n))"

fun backoff_loop :: "nat \<Rightarrow> int \<Rightarrow> int \<Rightarrow> int" where
  "backoff_loop 0 maximum backoff = backoff"
| "backoff_loop (Suc n) maximum backoff =
     (if backoff \<ge> maximum \<or> backoff > go_quot maximum 2 then maximum
      else backoff_loop n maximum (wrap64 (backoff * 2)))"

definition Backoff :: "(int \<Rightarrow> int) \<Rightarrow> int \<Rightarrow> int \<Rightarrow> int \<Rightarrow> int go" where
  "Backoff rnd minimum maximum attempt =
     (let minimum1 = (if minimum \<le> 0 then 1 else minimum);
          maximum1 = (if maximum < minimum1 then minimum1 else maximum);
          attempt1 = (if attempt < 0 then 0 else attempt);
          backoff = backoff_loop (nat attempt1) maximum1 minimum1;
          jitterLimit = go_quot backoff 4
      in if jitterLimit \<le> 0 then Some backoff
         else do { jitter \<leftarrow> Int63n rnd jitterLimit; Some (wrap64 (backoff + jitter)) })"

definition draws_below :: "(int \<Rightarrow> int) \<Rightarrow> bool" where
  "draws_below rnd \<longleftrightarrow> (\<forall>n>0. 0 \<le> rnd n \<and> rnd n < n)"

lemma backoff_loop_closed:
  assumes "0 < b" "b \<le> m" "in_int64 m"
  shows "backoff_loop n m b = min m (b * 2 ^ n)"
  using assms
proof (induction n arbitrary: b)
  case 0
  then show ?case by simp
next
  case (Suc n)
  have half: "go_quot m 2 = m div 2" using Suc.prems by (intro go_quot_nonneg) auto
  show ?case
  proof (cases "b \<ge> m \<or> b > m div 2")
    case True
    have "1 \<le> (2::int) ^ n" by simp
    then have "b * 2 \<le> b * 2 ^ Suc n" using Suc.prems(1) by (simp add: mult_left_mono)
    with True Suc.prems have "m \<le> b * 2 ^ Suc n" by linarith
    with True half show ?thesis by (simp add: min_def)
  next
    case False
    then have "b * 2 \<le> m" by linarith
    with Suc.prems have "wrap64 (b * 2) = b * 2" by (intro wrap64_id) (auto simp: in_int64_def)
    with False half Suc.IH [of "b * 2"] \<open>b * 2 \<le> m\<close> Suc.prems show ?thesis
      by (simp add: mult.assoc)
  qed
qed

text \<open>The delay before the jitter: the minimum doubled \<open>attempt\<close> times, capped.\<close>

definition base_delay :: "int \<Rightarrow> int \<Rightarrow> int \<Rightarrow> int" where
  "base_delay minimum maximum attempt =
     (let lo = max 1 minimum in min (max lo maximum) (lo * 2 ^ nat attempt))"

lemma Backoff_base:
  assumes "in_int64 minimum" "in_int64 maximum"
  shows "Backoff rnd minimum maximum attempt =
    (let b = base_delay minimum maximum attempt in
     if b div 4 = 0 then Some b else Some (wrap64 (b + rnd (b div 4))))"
    and "0 < base_delay minimum maximum attempt" "in_int64 (base_delay minimum maximum attempt)"
proof -
  define lo hi where "lo = max 1 minimum" and "hi = max lo maximum"
  have lo: "(if minimum \<le> 0 then 1 else minimum) = lo" "(if maximum < lo then lo else maximum) = hi"
    "0 < lo" "lo \<le> hi" by (auto simp: lo_def hi_def max_def)
  have hi: "in_int64 hi" using assms by (auto simp: lo_def hi_def max_def in_int64_def)
  have att: "nat (if attempt < 0 then 0 else attempt) = nat attempt" by simp
  have base: "base_delay minimum maximum attempt = min hi (lo * 2 ^ nat attempt)"
    by (simp add: base_delay_def lo_def hi_def Let_def)
  have pos: "0 < lo * 2 ^ nat attempt" using lo(3) by simp
  show p: "0 < base_delay minimum maximum attempt" using pos lo by (simp add: base)
  show "in_int64 (base_delay minimum maximum attempt)"
    using hi pos by (auto simp: base in_int64_def min_def)
  have loop: "backoff_loop (nat attempt) hi lo = base_delay minimum maximum attempt"
    using backoff_loop_closed [OF lo(3,4) hi] by (simp add: base)
  have q: "go_quot (base_delay minimum maximum attempt) 4 = base_delay minimum maximum attempt div 4"
    using p by (intro go_quot_nonneg) auto
  have d: "0 \<le> base_delay minimum maximum attempt div 4" using p by simp
  show "Backoff rnd minimum maximum attempt =
    (let b = base_delay minimum maximum attempt in
     if b div 4 = 0 then Some b else Some (wrap64 (b + rnd (b div 4))))"
    using d by (simp add: Backoff_def Let_def lo att loop q Int63n_def)
qed

subsection \<open>Documents\<close>

text \<open>A value of the Go map that the encoder turns into the JSON document.\<close>

datatype docval =
    DString string
  | DBool bool
  | DInt int
  | DStrings "string list"
  | DPayload "go_map option"
  | DPoint f64 f64

type_synonym document = "string \<rightharpoonup> docval"

definition isRetryableStatus :: "int \<Rightarrow> bool" where
  "isRetryableStatus status \<longleftrightarrow> status = 408 \<or> status = 429 \<or> status \<ge> 500"

definition addIfNotEmpty :: "string \<Rightarrow> string \<Rightarrow> document \<Rightarrow> document" where
  "addIfNotEmpty key val doc = (if val \<noteq> [] then doc(key \<mapsto> DString val) else doc)"

definition promoteStringField :: "go_map \<Rightarrow> string \<Rightarrow> document \<Rightarrow> document" where
  "promoteStringField payload key doc =
     (case map_of payload key of
        Some (AString val) \<Rightarrow> if val = [] then doc else doc(key \<mapsto> DString val)
      | _ \<Rightarrow> doc)"

definition promoteBooleanField :: "go_map \<Rightarrow> string \<Rightarrow> document \<Rightarrow> document" where
  "promoteBooleanField payload key doc =
     (case map_of payload key of Some (ABool val) \<Rightarrow> doc(key \<mapsto> DBool val) | _ \<Rightarrow> doc)"

text \<open>
  The test \<open>typed == float64(int64(typed))\<close>. Inside the range of \<open>int64\<close> the conversion
  truncates, so the test is that the number is integral. Outside it the converted value is up to
  the machine, and converting it back can only meet \<open>typed\<close> at \<open>2 ^ 63\<close>, which every \<open>int64\<close>
  from \<open>2 ^ 63 - 512\<close> on rounds to; infinities and NaN never equal a converted integer.
\<close>

definition float_as_int64 :: "host \<Rightarrow> f64 \<Rightarrow> int option" where
  "float_as_int64 H x =
     (case x of
        Fin r \<Rightarrow>
          if - (2 ^ 63) \<le> r \<and> r < 2 ^ 63 then (if r = of_int \<lfloor>r\<rfloor> then Some \<lfloor>r\<rfloor> else None)
          else if r = 2 ^ 63 \<and> 2 ^ 63 - 512 \<le> h_floatToInt64 H r then Some (h_floatToInt64 H r)
          else None
      | _ \<Rightarrow> None)"

definition promoteIntegerField :: "host \<Rightarrow> go_map \<Rightarrow> string \<Rightarrow> document \<Rightarrow> document" where
  "promoteIntegerField H payload key doc =
     (case map_of payload key of
        Some (AInt n) \<Rightarrow> doc(key \<mapsto> DInt n)
      | Some (AInt32 n) \<Rightarrow> doc(key \<mapsto> DInt n)
      | Some (AInt64 n) \<Rightarrow> doc(key \<mapsto> DInt n)
      | Some (AFloat64 x) \<Rightarrow>
          (case float_as_int64 H x of Some n \<Rightarrow> doc(key \<mapsto> DInt n) | None \<Rightarrow> doc)
      | _ \<Rightarrow> doc)"

definition promotePayloadFields :: "host \<Rightarrow> go_map option \<Rightarrow> document \<Rightarrow> document" where
  "promotePayloadFields H payload0 doc0 =
     (let payload = (case payload0 of None \<Rightarrow> [] | Some m \<Rightarrow> m) in
      if payload = [] then doc0
      else let
        doc1 = promoteStringField payload ''conversation_id'' doc0;
        doc2 = promoteIntegerField H payload ''turn_index'' doc1;
        doc3 = promoteStringField payload ''locale'' doc2;
        doc4 = promoteStringField payload ''consent_state'' doc3;
        doc5 = promoteStringField payload ''conversation_stage'' doc4;
        doc6 = promoteStringField payload ''actor'' doc5;
        doc7 = promoteStringField payload ''message_role'' doc6;
        doc8 = promoteStringField payload ''message_format'' doc7;
        doc9 = promoteStringField payload ''response_kind'' doc8;
        doc10 = promoteStringField payload ''source'' doc9;
        doc11 = promoteStringField payload ''action_type'' doc10;
        doc12 = promoteBooleanField payload ''has_read_more'' doc11;
        doc13 = promoteBooleanField payload ''has_suggestions'' doc12;
        doc14 = promoteStringField payload ''initiated_by'' doc13;
        doc15 = promoteStringField payload ''navigation_source'' doc14;
        doc16 = promoteStringField payload ''destination_title'' doc15
      in promoteStringField payload ''destination_href'' doc16)"

text \<open>\<open>math.IsNaN\<close>, \<open>math.IsInf\<close> and Go's comparisons, all false on NaN.\<close>

definition coordinate_ok :: "real \<Rightarrow> f64 \<Rightarrow> bool" where
  "coordinate_ok bound x = (case x of Fin r \<Rightarrow> - bound \<le> r \<and> r \<le> bound | _ \<Rightarrow> False)"

definition geoPointDocument :: "event \<Rightarrow> (f64 \<times> f64) option" where
  "geoPointDocument e =
     (case ev_GeoLocation e of
        None \<Rightarrow> None
      | Some p \<Rightarrow>
          if \<not> coordinate_ok 90 (Latitude p) \<or> \<not> coordinate_ok 180 (Longitude p) then None
          else Some (Latitude p, Longitude p))"

definition TimestampValue :: "event \<Rightarrow> int" where
  "TimestampValue e =
     (case parse_time (ev_Timestamp e) of Some t \<Rightarrow> t | None \<Rightarrow> ev_ReceivedAt e)"

text \<open>The fields that every document has, whatever the event holds.\<close>

definition base_document :: "event \<Rightarrow> document" where
  "base_document e =
     [''@timestamp'' \<mapsto> DString (format_time (TimestampValue e)),
      ''received_at'' \<mapsto> DString (format_time (ev_ReceivedAt e)),
      ''type'' \<mapsto> DString (ev_Type e),
      ''site_id'' \<mapsto> DString (ev_SiteID e),
      ''request_domain'' \<mapsto> DString (ev_RequestDomain e),
      ''request_host'' \<mapsto> DString (ev_RequestHost e),
      ''collector_version'' \<mapsto> DString (ev_CollectorVersion e),
      ''traffic_quality'' \<mapsto> DString (ev_TrafficQuality e),
      ''is_suspect'' \<mapsto> DBool (ev_IsSuspect e),
      ''payload'' \<mapsto> DPayload (ev_Payload e)]"

text \<open>The optional string fields, in the order of the \<open>addIfNotEmpty\<close> calls.\<close>

definition string_fields :: "event \<Rightarrow> (string \<times> string) list" where
  "string_fields e = [
     (''session_id'', ev_SessionID e), (''anonymous_id'', ev_AnonymousID e),
     (''path'', ev_Path e), (''url'', ev_URL e), (''referrer'', ev_Referrer e),
     (''title'', ev_Title e), (''client_ip'', ev_ClientIP e),
     (''geo_country_iso_code'', ev_GeoCountryISO e), (''geo_country_name'', ev_GeoCountryName e),
     (''geo_city_name'', ev_GeoCityName e), (''forwarded_for'', ev_ForwardedFor e),
     (''user_agent'', ev_UserAgent e), (''browser_family'', ev_BrowserFamily e),
     (''browser_version'', ev_BrowserVersion e), (''browser_major'', ev_BrowserMajor e),
     (''browser_engine'', ev_BrowserEngine e), (''os_family'', ev_OSFamily e),
     (''os_version'', ev_OSVersion e), (''device_family'', ev_DeviceFamily e),
     (''device_brand'', ev_DeviceBrand e), (''device_model'', ev_DeviceModel e),
     (''device_type'', ev_DeviceType e), (''accept_language'', ev_AcceptLanguage e),
     (''accept_language_primary_tag'', ev_AcceptLanguagePrimaryTag e),
     (''accept_language_primary_base'', ev_AcceptLanguagePrimaryBase e),
     (''accept_language_primary_region'', ev_AcceptLanguagePrimaryRegion e),
     (''timezone'', ev_Timezone e), (''timezone_area'', ev_TimezoneArea e),
     (''timezone_location'', ev_TimezoneLocation e), (''origin'', ev_Origin e),
     (''referer_header'', ev_RefererHeader e), (''scheme'', ev_Scheme e),
     (''remote_addr'', ev_RemoteAddr e)]"

definition build_document :: "host \<Rightarrow> event \<Rightarrow> document" where
  "build_document H e =
     (let doc1 = fold (\<lambda>(k, v). addIfNotEmpty k v) (string_fields e) (base_document e);
          doc2 = (case ev_UserID e of
                    Some u \<Rightarrow> if u \<noteq> [] then doc1(''user_id'' \<mapsto> DString u) else doc1
                  | None \<Rightarrow> doc1);
          doc3 = (case geoPointDocument e of
                    Some (lat, lon) \<Rightarrow> doc2(''geo_location'' \<mapsto> DPoint lat lon) | None \<Rightarrow> doc2);
          doc4 = (if ev_AcceptLanguageTags e \<noteq> []
                  then doc3(''accept_language_tags'' \<mapsto> DStrings (ev_AcceptLanguageTags e)) else doc3);
          doc5 = (case ev_TimezoneOffsetMinutes e of
                    Some m \<Rightarrow> doc4(''timezone_offset_minutes'' \<mapsto> DInt m) | None \<Rightarrow> doc4);
          doc6 = (if ev_SuspicionReasons e \<noteq> []
                  then doc5(''suspicion_reasons'' \<mapsto> DStrings (ev_SuspicionReasons e)) else doc5)
      in promotePayloadFields H (ev_Payload e) doc6)"

text \<open>The encoder refuses a document whose payload holds NaN or an infinity.\<close>

fun encodable :: "any \<Rightarrow> bool" where
  "encodable (AFloat64 x) = (case x of Fin r \<Rightarrow> True | _ \<Rightarrow> False)"
| "encodable (AMap m) = list_all (\<lambda>(k, v). encodable v) m"
| "encodable (ASlice xs) = list_all encodable xs"
| "encodable _ = True"

definition payload_encodable :: "event \<Rightarrow> bool" where
  "payload_encodable e = (case ev_Payload e of None \<Rightarrow> True | Some m \<Rightarrow> encodable (AMap m))"

subsection \<open>Document identifiers\<close>

definition hex_digit :: "nat \<Rightarrow> char" where
  "hex_digit n = ''0123456789abcdef'' ! n"

definition hexEncode :: "8 word list \<Rightarrow> string" where
  "hexEncode bs = concat (map (\<lambda>b. [hex_digit (unat b div 16), hex_digit (unat b mod 16)]) bs)"

text \<open>
  \<open>rnd k\<close> is what the \<open>k\<close>-th read from \<open>crypto/rand\<close> yields, as a function from the positions
  of the sixteen-byte array to the bytes stored there, \<open>None\<close> being its error; the counter \<open>k\<close>
  is part of the state.
\<close>

definition EnsureDocumentID ::
    "(nat \<Rightarrow> (nat \<Rightarrow> 8 word) option) \<Rightarrow> nat \<Rightarrow> event \<Rightarrow> nat \<times> (error + event)" where
  "EnsureDocumentID rnd k e =
     (if ev_DocumentID e \<noteq> [] then (k, Inr e)
      else (case rnd k of
              None \<Rightarrow> (Suc k, Inl ErrDocumentID)
            | Some bytes \<Rightarrow> (Suc k, Inr (e\<lparr>ev_DocumentID := hexEncode (map bytes [0..<16])\<rparr>))))"

datatype bulk_line =
    ActionLine string string
  | DocLine document

text \<open>
  The loop assigns identifiers in the slots of the caller's slice, so the batch it leaves
  behind is part of the result, also when it stops with an error.
\<close>

fun build_loop :: "host \<Rightarrow> (nat \<Rightarrow> (nat \<Rightarrow> 8 word) option) \<Rightarrow> string \<Rightarrow> nat \<Rightarrow> event list \<Rightarrow>
    nat \<times> event list \<times> (error + bulk_line list)" where
  "build_loop H rnd dataStream k [] = (k, [], Inr [])"
| "build_loop H rnd dataStream k (e # es) =
     (case EnsureDocumentID rnd k e of
        (k1, Inl err) \<Rightarrow> (k1, e # es, Inl err)
      | (k1, Inr e1) \<Rightarrow>
          if \<not> payload_encodable e1 then (k1, e1 # es, Inl ErrEncode)
          else (case build_loop H rnd dataStream k1 es of
                  (k2, es1, Inl err) \<Rightarrow> (k2, e1 # es1, Inl err)
                | (k2, es1, Inr ls) \<Rightarrow>
                    (k2, e1 # es1,
                     Inr (ActionLine dataStream (ev_DocumentID e1) # DocLine (build_document H e1) # ls))))"

definition BuildBulkPayload :: "host \<Rightarrow> (nat \<Rightarrow> (nat \<Rightarrow> 8 word) option) \<Rightarrow> string \<Rightarrow> nat \<Rightarrow> event list \<Rightarrow>
    nat \<times> event list \<times> (error + bulk_line list)" where
  "BuildBulkPayload H rnd dataStream k batch = build_loop H rnd dataStream k batch"

subsection \<open>Send and Ping\<close>

datatype auth = ApiKey string | BasicAuth string string

record http_request =
  rq_method :: string
  rq_url :: string
  rq_headers :: "(string \<times> string) list"
  rq_auth :: auth
  rq_lines :: "bulk_line list"

record http_response =
  hr_status :: int
  hr_body :: string
  hr_bulk :: "bulk_response option"

text \<open>The configuration and the surroundings of a client, and its state.\<close>

record 'w client_env =
  ce_host :: host
  ce_ElasticsearchURL :: string
  ce_APIKey :: string
  ce_Username :: string
  ce_Password :: string
  ce_DataStream :: string
  ce_newRequest :: "string \<Rightarrow> bool"
  ce_random :: "nat \<Rightarrow> (nat \<Rightarrow> 8 word) option"
  ce_do :: "'w \<Rightarrow> http_request \<Rightarrow> (string + http_response) \<times> 'w"

record 'w client_state =
  cs_reads :: nat
  cs_world :: 'w

definition trim_right_slash :: "string \<Rightarrow> string" where
  "trim_right_slash s = rev (dropWhile (\<lambda>c. c = CHR ''/'') (rev s))"

definition applyAuth :: "'w client_env \<Rightarrow> auth" where
  "applyAuth E = (if ce_APIKey E \<noteq> [] then ApiKey (ce_APIKey E)
                  else BasicAuth (ce_Username E) (ce_Password E))"

definition Ping :: "'w client_env \<Rightarrow> 'w \<Rightarrow> error option \<times> 'w" where
  "Ping E w =
     (let url = trim_right_slash (ce_ElasticsearchURL E) in
      if \<not> ce_newRequest E url then (Some ErrRequest, w)
      else (case ce_do E w \<lparr>rq_method = ''GET'', rq_url = url, rq_headers = [], rq_auth = applyAuth E,
                             rq_lines = []\<rparr> of
              (Inl err, w1) \<Rightarrow> (Some (ErrTransport err), w1)
            | (Inr resp, w1) \<Rightarrow>
                if hr_status resp \<ge> 400 then (Some (ErrBulkStatus (hr_status resp) []), w1)
                else (None, w1)))"

text \<open>The loop over the items; the accumulated result, or \<open>None\<close> at an item without status.\<close>

fun classify_items :: "bulk_result \<Rightarrow> bulk_item list \<Rightarrow> event list \<Rightarrow> bulk_result option" where
  "classify_items res (item # items) (e # es) =
     (let status = item_status item in
      if status = 0 then None
      else if status \<ge> 200 \<and> status < 300 \<or> status = 409
      then classify_items (res\<lparr>br_Indexed := br_Indexed res + 1\<rparr>) items es
      else if isRetryableStatus status
      then classify_items (res\<lparr>br_Retry := br_Retry res @ [e]\<rparr>) items es
      else classify_items (res\<lparr>br_Failed := br_Failed res + 1\<rparr>) items es)"
| "classify_items res _ _ = Some res"

definition interpret_response :: "event list \<Rightarrow> http_response \<Rightarrow> bulk_result \<times> error option" where
  "interpret_response batch resp =
     (if isRetryableStatus (hr_status resp)
      then (zero_result\<lparr>br_Retry := batch\<rparr>, Some (ErrBulkStatus (hr_status resp) []))
      else if hr_status resp \<ge> 400
      then (zero_result, Some (ErrBulkStatus (hr_status resp) (TrimSpace (take 4096 (hr_body resp)))))
      else (case hr_bulk resp of
              None \<Rightarrow> (zero_result\<lparr>br_Retry := batch\<rparr>, Some ErrDecode)
            | Some parsed \<Rightarrow>
                if \<not> resp_errors parsed
                then (zero_result\<lparr>br_Indexed := int (length batch)\<rparr>, None)
                else if length (resp_items parsed) \<noteq> length batch
                then (zero_result\<lparr>br_Retry := batch\<rparr>,
                      Some (ErrItemCount (length (resp_items parsed)) (length batch)))
                else (case classify_items zero_result (resp_items parsed) batch of
                        None \<Rightarrow> (zero_result\<lparr>br_Retry := batch\<rparr>, Some ErrItemStatus)
                      | Some res \<Rightarrow> (res, None))))"

text \<open>
  \<open>Send\<close> returns its result and error, the batch as its slice holds it afterwards and the next
  state. Writing to the in-memory buffer through the compressor cannot fail.
\<close>

definition Send :: "'w client_env \<Rightarrow> 'w client_state \<Rightarrow> event list \<Rightarrow>
    (bulk_result \<times> error option) \<times> event list \<times> 'w client_state" where
  "Send E s batch0 =
     (case BuildBulkPayload (ce_host E) (ce_random E) (ce_DataStream E) (cs_reads s) batch0 of
        (k, batch, Inl err) \<Rightarrow> ((zero_result, Some err), batch, s\<lparr>cs_reads := k\<rparr>)
      | (k, batch, Inr payload) \<Rightarrow>
          let url = trim_right_slash (ce_ElasticsearchURL E) @ ''/_bulk''; s1 = s\<lparr>cs_reads := k\<rparr> in
          if \<not> ce_newRequest E url then ((zero_result, Some ErrRequest), batch, s1)
          else (case ce_do E (cs_world s1)
                     \<lparr>rq_method = ''POST'', rq_url = url,
                      rq_headers = [(''Content-Type'', ''application/x-ndjson''),
                                    (''Content-Encoding'', ''gzip'')],
                      rq_auth = applyAuth E, rq_lines = payload\<rparr> of
                  (Inl err, w) \<Rightarrow>
                    ((zero_result\<lparr>br_Retry := batch\<rparr>, Some (ErrTransport err)), batch, s1\<lparr>cs_world := w\<rparr>)
                | (Inr resp, w) \<Rightarrow> (interpret_response batch resp, batch, s1\<lparr>cs_world := w\<rparr>)))"

subsection \<open>What the payload builder does to a batch\<close>

definition event_lines :: "host \<Rightarrow> string \<Rightarrow> event \<Rightarrow> bulk_line list" where
  "event_lines H dataStream e =
     [ActionLine dataStream (ev_DocumentID e), DocLine (build_document H e)]"

lemma length_hexEncode [simp]: "length (hexEncode bs) = 2 * length bs"
  by (induction bs) (simp_all add: hexEncode_def)

lemma hexEncode_eq_Nil [simp]: "hexEncode bs = [] \<longleftrightarrow> bs = []"
  by (metis length_0_conv length_hexEncode mult_eq_0_iff zero_neq_numeral)

lemma EnsureDocumentID_ok:
  assumes "EnsureDocumentID rnd k e = (k1, Inr e1)"
  shows "strip e1 = strip e" "has_id e1" "has_id e \<Longrightarrow> e1 = e \<and> k1 = k"
  using assms
  by (auto simp: EnsureDocumentID_def has_id_def split: if_splits option.splits)

lemma EnsureDocumentID_has_id [simp]: "has_id e \<Longrightarrow> EnsureDocumentID rnd k e = (k, Inr e)"
  by (simp add: EnsureDocumentID_def has_id_def)

lemma build_loop_keeps:
  assumes "build_loop H rnd ds k es = (k', es', r)"
  shows "map strip es' = map strip es \<and> (\<forall>i<length es. has_id (es ! i) \<longrightarrow> es' ! i = es ! i) \<and>
    (\<forall>ls. r = Inr ls \<longrightarrow> list_all has_id es' \<and> list_all payload_encodable es' \<and>
       ls = concat (map (event_lines H ds) es'))"
  using assms
proof (induction es arbitrary: k k' es' r)
  case Nil
  then show ?case by auto
next
  case (Cons e es)
  obtain k1 ir where id: "EnsureDocumentID rnd k e = (k1, ir)" by (metis surj_pair)
  show ?case
  proof (cases ir)
    case (Inl err)
    with Cons.prems id show ?thesis by auto
  next
    case (Inr e1)
    note ok = EnsureDocumentID_ok [OF id [unfolded Inr]]
    show ?thesis
    proof (cases "payload_encodable e1")
      case False
      with Cons.prems id Inr ok show ?thesis by (auto simp: nth_Cons split: nat.split)
    next
      case True
      obtain k2 es1 r1 where rec: "build_loop H rnd ds k1 es = (k2, es1, r1)" by (metis prod_cases3)
      from Cons.IH [OF rec] Cons.prems id Inr ok True rec show ?thesis
        by (auto simp: nth_Cons event_lines_def split: nat.split sum.splits)
    qed
  qed
qed

lemma build_loop_again:
  assumes "list_all has_id es" "list_all payload_encodable es"
  shows "build_loop H rnd ds k es = (k, es, Inr (concat (map (event_lines H ds) es)))"
  using assms by (induction es) (auto simp: event_lines_def)

subsection \<open>What the response classifier does\<close>

definition item_done :: "bulk_item \<Rightarrow> bool" where
  "item_done it \<longleftrightarrow> 200 \<le> item_status it \<and> item_status it < 300 \<or> item_status it = 409"

lemma item_done_not_retryable: "item_done it \<Longrightarrow> \<not> isRetryableStatus (item_status it)"
  by (auto simp: item_done_def isRetryableStatus_def)

lemma classify_items_Cons:
  "classify_items res (it # items) (e # es) =
    (if item_status it = 0 then None
     else if item_done it
     then classify_items (res\<lparr>br_Indexed := br_Indexed res + 1\<rparr>) items es
     else if isRetryableStatus (item_status it)
     then classify_items (res\<lparr>br_Retry := br_Retry res @ [e]\<rparr>) items es
     else classify_items (res\<lparr>br_Failed := br_Failed res + 1\<rparr>) items es)"
  by (simp add: item_done_def Let_def)

lemma classify_items_spec:
  assumes "length items = length es"
  shows "classify_items res items es =
    (if \<exists>it\<in>set items. item_status it = 0 then None
     else Some \<lparr>br_Indexed = br_Indexed res + int (length (filter item_done items)),
       br_Failed = br_Failed res +
         int (length (filter (\<lambda>it. \<not> item_done it \<and> \<not> isRetryableStatus (item_status it)) items)),
       br_Retry = br_Retry res @
         map snd (filter (\<lambda>(it, e). isRetryableStatus (item_status it)) (zip items es))\<rparr>)"
  using assms
proof (induction items es arbitrary: res rule: list_induct2)
  case Nil
  then show ?case by simp
next
  case (Cons it items e es)
  then show ?case
    by (simp add: classify_items_Cons item_done_not_retryable del: classify_items.simps(1))
qed

lemma classify_items_accounted:
  assumes "length items = length es" "classify_items zero_result items es = Some res"
  shows "accounted res = int (length es)" "subseq (br_Retry res) es"
    "0 \<le> br_Indexed res" "0 \<le> br_Failed res"
proof -
  let ?R = "\<lambda>it. isRetryableStatus (item_status it)"
  have "length (filter item_done items) + length (filter (\<lambda>it. \<not> item_done it \<and> \<not> ?R it) items)
      + length (filter (\<lambda>(it, e). ?R it) (zip items es)) = length es"
    using assms(1)
    by (induction items es rule: list_induct2) (auto dest: item_done_not_retryable)
  moreover have res: "res = \<lparr>br_Indexed = int (length (filter item_done items)),
      br_Failed = int (length (filter (\<lambda>it. \<not> item_done it \<and> \<not> ?R it) items)),
      br_Retry = map snd (filter (\<lambda>(it, e). ?R it) (zip items es))\<rparr>"
    using assms by (auto simp: classify_items_spec zero_result_def split: if_splits)
  ultimately show "accounted res = int (length es)" by (simp add: accounted_def)
  have "subseq (map snd (filter (\<lambda>(it, e). ?R it) (zip items es))) (map snd (zip items es))"
    by (intro subseq_map) simp
  then show "subseq (br_Retry res) es" using assms(1) by (simp add: res)
  show "0 \<le> br_Indexed res" "0 \<le> br_Failed res" by (simp_all add: res)
qed

lemma interpret_response_laws:
  assumes "interpret_response batch resp = (res, err)"
  shows "subseq (br_Retry res) batch" "0 \<le> br_Indexed res \<and> 0 \<le> br_Failed res"
    "accounted res \<le> int (length batch)" "err = None \<Longrightarrow> accounted res = int (length batch)"
  using assms classify_items_accounted [of _ batch]
  by (auto simp: interpret_response_def zero_result_def accounted_def
      split: if_splits option.splits)

lemma interpret_response_error:
  assumes "interpret_response batch resp = (res, Some e)"
  shows "br_Indexed res = 0 \<and> br_Failed res = 0 \<and> (br_Retry res = [] \<or> br_Retry res = batch)"
    "as_pending e = None \<and> \<not> is_exhausted e"
  using assms
  by (auto simp: interpret_response_def zero_result_def split: if_splits option.splits)

subsection \<open>The client is a sender\<close>

lemma EnsureDocumentID_error: "EnsureDocumentID rnd k e = (k1, Inl err) \<Longrightarrow> as_pending err = None \<and> \<not> is_exhausted err"
  by (auto simp: EnsureDocumentID_def split: if_splits option.splits)

lemma build_loop_error: "build_loop H rnd ds k es = (k', es', Inl err) \<Longrightarrow> as_pending err = None \<and> \<not> is_exhausted err"
  by (induction es arbitrary: k k' es')
    (auto split: prod.splits sum.splits if_splits dest: EnsureDocumentID_error)

lemma Send_cases:
  assumes "Send E s b = ((res, err), b', s')"
  obtains (failed) k e where
      "build_loop (ce_host E) (ce_random E) (ce_DataStream E) (cs_reads s) b = (k, b', Inl e)"
      "res = zero_result" "err \<noteq> None"
    | (built) k ls where
      "build_loop (ce_host E) (ce_random E) (ce_DataStream E) (cs_reads s) b = (k, b', Inr ls)"
      "(res = zero_result \<and> err \<noteq> None) \<or> (res = zero_result\<lparr>br_Retry := b'\<rparr> \<and> err \<noteq> None) \<or>
       (\<exists>resp. interpret_response b' resp = (res, err))"
  using assms
  by (auto simp: Send_def BuildBulkPayload_def Let_def split: prod.splits sum.splits if_splits)

lemma Send_laws:
  assumes "Send E s b = ((res, err), b', s')"
  shows "map strip b' = map strip b" "subseq (br_Retry res) b'"
    "0 \<le> br_Indexed res \<and> 0 \<le> br_Failed res" "accounted res \<le> int (length b)"
    "err = None \<Longrightarrow> accounted res = int (length b)"
    "i < length b \<Longrightarrow> has_id (b ! i) \<Longrightarrow> b' ! i = b ! i"
    "br_Retry res \<noteq> [] \<or> err = None \<Longrightarrow> list_all has_id b'"
proof -
  obtain k r where build:
    "build_loop (ce_host E) (ce_random E) (ce_DataStream E) (cs_reads s) b = (k, b', r)"
    using assms by (cases rule: Send_cases) auto
  note keeps = build_loop_keeps [OF build]
  then show strip: "map strip b' = map strip b" by simp
  have len: "length b' = length b" using strip by (metis length_map)
  show "i < length b \<Longrightarrow> has_id (b ! i) \<Longrightarrow> b' ! i = b ! i" using keeps by simp
  have res: "(res = zero_result \<and> err \<noteq> None) \<or> (res = zero_result\<lparr>br_Retry := b'\<rparr> \<and> err \<noteq> None) \<or>
      (\<exists>resp. interpret_response b' resp = (res, err))"
    using assms by (cases rule: Send_cases) auto
  then show "subseq (br_Retry res) b'" "0 \<le> br_Indexed res \<and> 0 \<le> br_Failed res"
    "accounted res \<le> int (length b)" "err = None \<Longrightarrow> accounted res = int (length b)"
    by (auto dest: interpret_response_laws simp: zero_result_def accounted_def len)
  show "br_Retry res \<noteq> [] \<or> err = None \<Longrightarrow> list_all has_id b'"
    using assms
  proof (cases rule: Send_cases)
    case (built k ls)
    with build_loop_keeps [OF built(1)] show ?thesis by simp
  qed (simp add: zero_result_def)
qed

lemma Send_error:
  assumes "Send E s b = ((res, Some e), b', s')"
  shows "br_Indexed res = 0 \<and> br_Failed res = 0 \<and> (br_Retry res = [] \<or> br_Retry res = b')"
    "as_pending e = None \<and> \<not> is_exhausted e"
  using assms
  by (auto simp: Send_def BuildBulkPayload_def Let_def zero_result_def
      split: prod.splits sum.splits if_splits dest: interpret_response_error build_loop_error)

interpretation es: stable_sender "Send E" for E
proof unfold_locales
  fix s b res b' s' i and err :: "error option"
  assume run: "Send E s b = ((res, err), b', s')"
  note laws = Send_laws [OF run]
  show "map strip b' = map strip b" "subseq (br_Retry res) b'"
    "0 \<le> br_Indexed res \<and> 0 \<le> br_Failed res" by (fact laws)+
  show "i < length b \<Longrightarrow> has_id (b ! i) \<Longrightarrow> b' ! i = b ! i" by (rule laws(6))
  show "br_Retry res \<noteq> [] \<or> err = None \<Longrightarrow> list_all has_id b'" by (rule laws(7))
next
  fix s b res b' s'
  assume "Send E s b = ((res, None), b', s')"
  from Send_laws(5) [OF this refl] show "accounted res = int (length b)" .
next
  fix s b res b' s' e
  assume run: "Send E s b = ((res, Some e), b', s')"
  show "br_Indexed res = 0 \<and> br_Failed res = 0 \<and> (br_Retry res = [] \<or> br_Retry res = b')"
    "as_pending e = None \<and> \<not> is_exhausted e" by (rule Send_error [OF run])+
qed

subsection \<open>Properties\<close>

text \<open>
  C8: The result of a bulk request: when the service answers below 400 with item errors, one
  item per event and a status on every item, the indexed count is the number of items created
  (2xx) or already present (409), exactly the events with status 408, 429 or 5xx are handed back
  for a retry, in their order, and the rest are counted as failed.
\<close>

theorem send_classifies_items:
  assumes "hr_status resp < 400" "hr_bulk resp = Some parsed" "resp_errors parsed"
    "length (resp_items parsed) = length batch" "\<forall>it\<in>set (resp_items parsed). item_status it \<noteq> 0"
  shows "interpret_response batch resp = (\<lparr>
    br_Indexed = int (length (filter item_done (resp_items parsed))),
    br_Failed = int (length (filter (\<lambda>it. \<not> item_done it \<and> \<not> isRetryableStatus (item_status it))
      (resp_items parsed))),
    br_Retry = map snd (filter (\<lambda>(it, e). isRetryableStatus (item_status it))
      (zip (resp_items parsed) batch))\<rparr>, None)"
proof -
  have "hr_status resp = 408 \<Longrightarrow> False" if "hr_status resp < 400" using that by simp
  with assms show ?thesis
    by (auto simp: interpret_response_def isRetryableStatus_def [of "hr_status resp"]
        classify_items_spec zero_result_def)
qed

definition witness_response :: http_response where
  "witness_response = \<lparr>hr_status = 200, hr_body = [], hr_bulk = Some \<lparr>resp_errors = True,
     resp_items = [\<lparr>item_status = 201, item_error = None\<rparr>, \<lparr>item_status = 429, item_error = None\<rparr>,
       \<lparr>item_status = 400, item_error = Some ''mapper''\<rparr>, \<lparr>item_status = 409, item_error = None\<rparr>]\<rparr>\<rparr>"

definition witness_batch :: "event list" where
  "witness_batch = map (\<lambda>d. zero_event\<lparr>ev_DocumentID := d\<rparr>) [''1'', ''2'', ''3'', ''4'']"

theorem send_classifies_items_witness:
  "interpret_response witness_batch witness_response =
     (\<lparr>br_Indexed = 2, br_Failed = 1, br_Retry = [zero_event\<lparr>ev_DocumentID := ''2''\<rparr>]\<rparr>, None)"
  using send_classifies_items [of witness_response "the (hr_bulk witness_response)" witness_batch]
  by (simp add: witness_response_def witness_batch_def item_done_def isRetryableStatus_def)

text \<open>
  C21: Accounting of \<open>Send\<close>: whatever the service does, the call neither invents nor reorders
  events (what it hands back for a retry is a subsequence of the batch it was given, which only
  gains identifiers), its counts never exceed the batch, and without an error they add up to it.
\<close>

theorem send_accounts_for_batch:
  assumes "Send E s b = ((res, err), b', s')"
  shows "map strip b' = map strip b \<and> subseq (br_Retry res) b' \<and> 0 \<le> br_Indexed res \<and>
    0 \<le> br_Failed res \<and> accounted res \<le> int (length b) \<and>
    (err = None \<longrightarrow> accounted res = int (length b))"
  using es.keeps_events [OF assms] es.retry_subseq [OF assms] es.counts_nonneg [OF assms]
    es.counts_bound [OF assms] es.counts_exact [of E s b res b' s'] assms by auto

definition witness_client :: "nat client_env" where
  "witness_client = \<lparr>ce_host = \<lparr>h_lowerRune = id, h_upperRune = id, h_loadLocation = (\<lambda>_. True), h_parseHost = (\<lambda>_ _. None),
     h_floatToInt64 = (\<lambda>_. 0), h_newParser = False,
       h_parseUA = (\<lambda>_. None)\<rparr>,
     ce_ElasticsearchURL = ''http://es/'', ce_APIKey = ''k'', ce_Username = [], ce_Password = [],
     ce_DataStream = ''web-analytics'', ce_newRequest = (\<lambda>_. True), ce_random = (\<lambda>_. Some (\<lambda>_. 0)),
     ce_do = (\<lambda>w rq. (if w = 0 then Inl ''refused'' else Inr witness_response, Suc w))\<rparr>"

theorem send_accounts_for_batch_witness:
  "\<exists>res err b' s'. Send witness_client \<lparr>cs_reads = 0, cs_world = 0\<rparr> witness_batch
       = ((res, err), b', s') \<and> map strip b' = map strip witness_batch"
proof -
  obtain res err b' s' where run: "Send witness_client \<lparr>cs_reads = 0, cs_world = 0\<rparr> witness_batch
       = ((res, err), b', s')" by (metis surj_pair)
  from send_accounts_for_batch [OF run] run show ?thesis by blast
qed

text \<open>
  C18: Retries are idempotent requests: once a payload has been built, building it again from
  the batch the first attempt left behind (whatever has been drawn from the random source in
  between) draws no new identifier, changes no event and yields the same lines, so a retried
  event is always sent under the identifier of its first attempt.
\<close>

theorem rebuilt_payload_is_stable:
  assumes "BuildBulkPayload H rnd dataStream k batch = (k1, batch1, Inr ls)"
  shows "BuildBulkPayload H rnd' dataStream k2 batch1 = (k2, batch1, Inr ls) \<and>
    list_all has_id batch1 \<and> map strip batch1 = map strip batch"
  using build_loop_keeps [OF assms [unfolded BuildBulkPayload_def]]
  by (simp add: BuildBulkPayload_def build_loop_again)

theorem rebuilt_payload_is_stable_witness:
  "\<exists>k1 batch1 ls. BuildBulkPayload (ce_host witness_client) (\<lambda>_. Some (\<lambda>_. 255)) ''d'' 0 [zero_event] = (k1, batch1, Inr ls) \<and>
     BuildBulkPayload (ce_host witness_client) (\<lambda>_. None) ''d'' 7 batch1 = (7, batch1, Inr ls)"
proof -
  have "\<exists>k1 batch1 ls. BuildBulkPayload (ce_host witness_client) (\<lambda>_. Some (\<lambda>_. 255)) ''d'' 0 [zero_event] = (k1, batch1, Inr ls)"
    by (simp add: BuildBulkPayload_def EnsureDocumentID_def zero_event_def payload_encodable_def)
  then obtain k1 batch1 ls where
    "BuildBulkPayload (ce_host witness_client) (\<lambda>_. Some (\<lambda>_. 255)) ''d'' 0 [zero_event] = (k1, batch1, Inr ls)" by blast
  from rebuilt_payload_is_stable [OF this, of "\<lambda>_. None" 7] this show ?thesis by blast
qed

subsection \<open>What a document says\<close>

lemma addIfNotEmpty_other [simp]: "k \<noteq> key \<Longrightarrow> addIfNotEmpty key v doc k = doc k"
  by (simp add: addIfNotEmpty_def)

lemma fold_addIfNotEmpty_other:
  "k \<notin> fst ` set fs \<Longrightarrow> fold (\<lambda>(k, v). addIfNotEmpty k v) fs doc k = doc k"
  by (induction fs arbitrary: doc) auto

lemma fold_addIfNotEmpty_in:
  assumes "distinct (map fst fs)" "(k, v) \<in> set fs"
  shows "fold (\<lambda>(k, v). addIfNotEmpty k v) fs doc k = (if v = [] then doc k else Some (DString v))"
  using assms
proof (induction fs arbitrary: doc)
  case (Cons f fs)
  show ?case
  proof (cases "f = (k, v)")
    case True
    with Cons.prems(1) have "k \<notin> fst ` set fs" by auto
    moreover have "addIfNotEmpty k v doc k = (if v = [] then doc k else Some (DString v))"
      by (simp add: addIfNotEmpty_def)
    ultimately show ?thesis using True by (simp add: fold_addIfNotEmpty_other)
  next
    case False
    with Cons.prems have in_fs: "(k, v) \<in> set fs" "distinct (map fst fs)" "k \<noteq> fst f"
      by (auto simp: rev_image_eqI)
    with Cons.IH show ?thesis by (cases f) simp
  qed
qed simp

definition promoted_keys :: "string list" where
  "promoted_keys = [''conversation_id'', ''turn_index'', ''locale'', ''consent_state'',
     ''conversation_stage'', ''actor'', ''message_role'', ''message_format'', ''response_kind'',
     ''source'', ''action_type'', ''has_read_more'', ''has_suggestions'', ''initiated_by'',
     ''navigation_source'', ''destination_title'', ''destination_href'']"

lemma promote_other [simp]:
  assumes "k \<noteq> key"
  shows "promoteStringField payload key doc k = doc k"
    "promoteBooleanField payload key doc k = doc k"
    "promoteIntegerField H payload key doc k = doc k"
  using assms
  by (auto simp: promoteStringField_def promoteBooleanField_def promoteIntegerField_def
      split: option.splits any.splits)

lemma promotePayloadFields_other:
  "k \<notin> set promoted_keys \<Longrightarrow> promotePayloadFields H payload doc k = doc k"
  by (simp add: promotePayloadFields_def promoted_keys_def Let_def)

lemma string_fields_keys:
  "map fst (string_fields e) = map fst (string_fields zero_event)"
  "distinct (map fst (string_fields e))"
  "set (map fst (string_fields e)) \<inter> set promoted_keys = {}"
  by (simp_all add: string_fields_def promoted_keys_def)

definition base_keys :: "string list" where
  "base_keys = [''@timestamp'', ''received_at'', ''type'', ''site_id'', ''request_domain'',
     ''request_host'', ''collector_version'', ''traffic_quality'', ''is_suspect'', ''payload'']"

lemma dom_base_document: "dom (base_document e) = set base_keys"
  by (auto simp: base_document_def base_keys_def)

definition extra_keys :: "string list" where
  "extra_keys = [''user_id'', ''geo_location'', ''accept_language_tags'',
     ''timezone_offset_minutes'', ''suspicion_reasons'']"

lemma disjoint_keys:
  "set (map fst (string_fields e)) \<inter> set extra_keys = {}"
  "set (map fst (string_fields e)) \<inter> set base_keys = {}"
  "set base_keys \<inter> set promoted_keys = {}" "set base_keys \<inter> set extra_keys = {}"
  by (simp_all add: string_fields_def promoted_keys_def extra_keys_def base_keys_def)

lemma build_document_other:
  assumes "k \<notin> set promoted_keys" "k \<notin> set extra_keys"
  shows "build_document H e k = fold (\<lambda>(k, v). addIfNotEmpty k v) (string_fields e) (base_document e) k"
  using assms(2)
  by (simp add: build_document_def Let_def promotePayloadFields_other [OF assms(1)] extra_keys_def
      split: option.splits prod.splits)

lemma build_document_envelope:
  assumes "k \<in> dom (base_document e)"
  shows "build_document H e k = base_document e k"
proof -
  have k: "k \<in> set base_keys" using assms by (simp only: dom_base_document)
  have "k \<notin> set promoted_keys" "k \<notin> set extra_keys" "k \<notin> fst ` set (string_fields e)"
    using k disjoint_keys(2) [of e] disjoint_keys(3,4) by (auto simp only: set_map)
  then show ?thesis by (simp add: build_document_other fold_addIfNotEmpty_other)
qed

text \<open>
  C25: The payload a client sends cannot overwrite what the collector decided: in the document
  of any event each of the ten envelope fields (type, site, request domain and host, times,
  version, traffic quality, suspicion and the payload itself) has the event's own value, and
  every optional string field is present exactly when the event's field is not empty, with that
  value, whatever the payload's promoted keys are.
\<close>

theorem document_envelope:
  "(\<forall>k\<in>dom (base_document e). build_document H e k = base_document e k) \<and>
   (\<forall>(k, v)\<in>set (string_fields e). build_document H e k = (if v = [] then None else Some (DString v)))"
proof (intro conjI ballI)
  fix k assume "k \<in> dom (base_document e)"
  then show "build_document H e k = base_document e k" by (rule build_document_envelope)
next
  fix kv assume kv: "kv \<in> set (string_fields e)"
  obtain k v where [simp]: "kv = (k, v)" by (cases kv)
  have key: "k \<in> set (map fst (string_fields e))" using kv by force
  then have 1: "k \<notin> set promoted_keys" using string_fields_keys(3) [of e] by blast
  have 2: "k \<notin> set extra_keys" using key disjoint_keys(1) [of e] by blast
  have "k \<notin> dom (base_document e)"
    using key disjoint_keys(2) [of e] by (simp only: dom_base_document) blast
  then have 3: "base_document e k = None" by blast
  show "case kv of (k, v) \<Rightarrow> build_document H e k = (if v = [] then None else Some (DString v))"
    using build_document_other [OF 1 2] kv 3
    by (simp add: fold_addIfNotEmpty_in [OF string_fields_keys(2)])
qed

lemma base_document_site: "base_document e ''site_id'' = Some (DString (ev_SiteID e))"
  by (simp add: base_document_def)

definition witness_payload_event :: event where
  "witness_payload_event = zero_event\<lparr>ev_SiteID := ''shop'',
     ev_Payload := Some [(''site_id'', AString ''other''), (''actor'', AString ''a'')]\<rparr>"

theorem document_envelope_witness:
  "build_document (ce_host witness_client) witness_payload_event ''site_id'' = Some (DString ''shop'')"
proof -
  let ?H = "ce_host witness_client" and ?e = witness_payload_event
  have base: "base_document ?e ''site_id'' = Some (DString ''shop'')"
    unfolding base_document_site by (simp add: witness_payload_event_def)
  then have "''site_id'' \<in> dom (base_document ?e)" by blast
  with document_envelope [of ?e ?H] have
    "build_document ?H ?e ''site_id'' = base_document ?e ''site_id''" by blast
  with base show ?thesis by simp
qed

subsection \<open>Properties of the backoff\<close>

text \<open>
  C36: The delay before retry \<open>attempt\<close>: for any configured bounds (zero, negative and
  reversed ones included) and any attempt number, \<open>Backoff\<close> never panics in the random source. The
  delay is the minimum doubled \<open>attempt\<close> times and capped at the maximum, plus a jitter that is
  not negative and below a quarter of it, added with the wrap-around of \<open>int64\<close>; if the capped
  delay and a quarter of it fit in an \<open>int64\<close> nothing wraps, so the delay is at least the capped
  one and exceeds it by less than a quarter. (Without that, see \<open>backoff_overflow\<close>.)
\<close>

theorem backoff_bounds:
  assumes "draws_below rnd" "in_int64 minimum" "in_int64 maximum"
  shows "\<exists>jitter. Backoff rnd minimum maximum attempt = Some (wrap64 (base_delay minimum maximum attempt + jitter)) \<and>
    0 \<le> jitter \<and> (jitter = 0 \<or> jitter < base_delay minimum maximum attempt div 4) \<and>
    (base_delay minimum maximum attempt + base_delay minimum maximum attempt div 4 \<le> max_int64 \<longrightarrow>
      wrap64 (base_delay minimum maximum attempt + jitter) = base_delay minimum maximum attempt + jitter)"
proof -
  note b = Backoff_base [OF assms(2,3)]
  let ?b = "base_delay minimum maximum attempt"
  let ?j = "if ?b div 4 = 0 then 0 else rnd (?b div 4)"
  have j: "0 \<le> ?j \<and> (?j = 0 \<or> ?j < ?b div 4)"
    using assms(1) b(2) [of attempt] by (auto simp: draws_below_def pos_imp_zdiv_pos_iff zdiv_eq_0_iff)
  moreover from this have "wrap64 (?b + ?j) = ?b + ?j" if "?b + ?b div 4 \<le> max_int64"
    using that b(2) [of attempt] by (intro wrap64_id) (auto simp: in_int64_def max_int64_def)
  moreover have "wrap64 ?b = ?b" by (rule wrap64_id [OF b(3)])
  then have "Backoff rnd minimum maximum attempt = Some (wrap64 (?b + ?j))"
    by (simp add: b(1) Let_def)
  ultimately show ?thesis by blast
qed

theorem backoff_bounds_witness:
  "draws_below (\<lambda>n. n - 1) \<and> (\<exists>d. Backoff (\<lambda>n. n - 1) 1000000000 5000000000 10 = Some d \<and>
     5000000000 \<le> d \<and> d < 6250000000)"
proof -
  have r: "draws_below (\<lambda>n. n - 1)" by (simp add: draws_below_def)
  have b: "base_delay 1000000000 5000000000 10 = 5000000000" by (simp add: base_delay_def Let_def)
  from backoff_bounds [OF r, of 1000000000 5000000000 10] r show ?thesis
    by (auto simp: b in_int64_def max_int64_def)
qed

text \<open>
  The jitter can overflow: with a maximum near the largest duration, which the
  configuration accepts, the delay comes out negative, and a timer with a negative delay fires
  at once instead of waiting.
\<close>

theorem backoff_overflow:
  "Backoff (\<lambda>n. n - 1) 1 max_int64 63 = Some (wrap64 (max_int64 + (max_int64 div 4 - 1))) \<and>
   wrap64 (max_int64 + (max_int64 div 4 - 1)) < 0"
proof -
  have "base_delay 1 max_int64 63 = max_int64" by (simp add: base_delay_def max_int64_def Let_def)
  moreover have "in_int64 1" "in_int64 max_int64" by (simp_all add: in_int64_def max_int64_def)
  ultimately show ?thesis by (simp add: Backoff_base max_int64_def wrap64_def Let_def)
qed

end
