(* ===== verification/Batcher.thy ===== *)
theory Batcher
  imports Elastic Config Queue Metrics
begin

section \<open>The batcher\<close>

text \<open>
  \<open>internal/batcher/batcher.go\<close>. The batcher is one goroutine, so its methods are functions of
  its state. What runs beside it enters as follows. Requests put events into the queue while the
  batcher is blocked, in \<open>Send\<close> or in the pause before a retry: \<open>b_arrivals\<close> lists, for each
  such pause, the batches the requests offer. The context is cancelled at some moment: the
  batcher counts its pauses and its readings of \<open>ctx.Err()\<close> in \<open>b_now\<close>, and \<open>be_cancelled\<close> says
  at which moments the context is done. A request that does not reach the queue only counts its
  rejection, which is left out here. \<open>None\<close> is a panic. A sender may assign identifiers in the
  slice it is given, so each function also returns that slice as it is afterwards; by the laws of
  the sender later attempts do not change it any more.
\<close>

record batch_env =
  be_cfg :: config
  be_cancelled :: "nat \<Rightarrow> bool"
  be_timer_first :: "nat \<Rightarrow> bool"
  be_rand :: "nat \<Rightarrow> int \<Rightarrow> int"
  be_latency :: "nat \<Rightarrow> int"

record 's batcher =
  b_queue :: queue
  b_metrics :: registry
  b_sender :: 's
  b_ready :: bool
  b_done :: bool
  b_now :: nat
  b_arrivals :: "event list list list"

type_synonym 's sender = "'s \<Rightarrow> event list \<Rightarrow> (bulk_result \<times> error option) \<times> event list \<times> 's"

definition new_batcher :: "queue \<Rightarrow> 's \<Rightarrow> registry \<Rightarrow> event list list list \<Rightarrow> 's batcher" where
  "new_batcher q sender registry arrivals = \<lparr>b_queue = q, b_metrics = registry, b_sender = sender,
     b_ready = False, b_done = False, b_now = 0, b_arrivals = arrivals\<rparr>"

definition Ready :: "'s batcher \<Rightarrow> bool" where "Ready b = b_ready b"

definition Done :: "'s batcher \<Rightarrow> bool" where "Done b = b_done b"

definition metric :: "(registry \<Rightarrow> registry) \<Rightarrow> 's batcher \<Rightarrow> 's batcher" where
  "metric f b = b\<lparr>b_metrics := f (b_metrics b)\<rparr>"

subsection \<open>What happens beside the batcher\<close>

text \<open>
  What a request does once its batch has passed the checks, as \<open>handleCollect\<close> does it, on the queue
  and the registry.
\<close>

definition offer :: "config \<Rightarrow> event list \<Rightarrow> queue \<times> registry \<Rightarrow> (queue \<times> registry) go" where
  "offer cfg batch qm =
     (let (q, m) = qm in
      if cfg_DropPolicy cfg = DropPolicyReject then do {
        (ok, q1) \<leftarrow> Enqueue q batch;
        if \<not> ok then Some (q1, IncQueueFull (IncRejected (int (length batch)) m))
        else Some (q1, SetQueueDepth (Len q1) (IncAccepted (int (length batch)) m)) }
      else do {
        (dropped, q1) \<leftarrow> DropNewest q batch;
        let m1 = (if dropped > 0 then IncQueueFull (IncDropped dropped m) else m);
        Some (q1, SetQueueDepth (Len q1) (IncAccepted (int (length batch) - dropped) m1)) })"

fun offer_all :: "config \<Rightarrow> event list list \<Rightarrow> queue \<times> registry \<Rightarrow> (queue \<times> registry) go" where
  "offer_all cfg [] qm = Some qm"
| "offer_all cfg (batch # batches) qm = do { qm1 \<leftarrow> offer cfg batch qm; offer_all cfg batches qm1 }"

text \<open>A pause of the batcher: requests run and time passes.\<close>

definition pause :: "batch_env \<Rightarrow> 's batcher \<Rightarrow> 's batcher go" where
  "pause B b = (case b_arrivals b of
       [] \<Rightarrow> Some (b\<lparr>b_now := Suc (b_now b)\<rparr>)
     | batches # rest \<Rightarrow> do {
         (q, m) \<leftarrow> offer_all (be_cfg B) batches (b_queue b, b_metrics b);
         Some (b\<lparr>b_queue := q, b_metrics := m, b_arrivals := rest, b_now := Suc (b_now b)\<rparr>) })"

text \<open>\<open>ctx.Err() != nil\<close>\<close>

definition ctx_err :: "batch_env \<Rightarrow> 's batcher \<Rightarrow> bool \<times> 's batcher" where
  "ctx_err B b = (be_cancelled B (b_now b), b\<lparr>b_now := Suc (b_now b)\<rparr>)"

subsection \<open>Sending a batch\<close>

datatype attempt_result = Stop "error option" | Again "event list"

text \<open>The body of the loop of \<open>sendWithRetry\<close>; \<open>Again\<close> goes on with what is to be retried.\<close>

definition send_attempt :: "batch_env \<Rightarrow> 's sender \<Rightarrow> 's batcher \<Rightarrow> event list \<Rightarrow> int \<Rightarrow>
    (attempt_result \<times> event list \<times> 's batcher) go" where
  "send_attempt B send b pending0 attempt =
     (let ((result, err), pending, s1) = send (b_sender b) pending0 in do {
        b1 \<leftarrow> pause B (b\<lparr>b_sender := s1\<rparr>);
        let b2 = metric (AddBulkFailed (br_Failed result)) (metric (AddBulkIndexed (br_Indexed result)) b1) in
        if br_Retry result = [] then
          (case err of
             None \<Rightarrow> Some (Stop None, pending, b2)
           | Some e \<Rightarrow>
               let (cancelled, b3) = ctx_err B b2 in
               Some (Stop (Some (if cancelled then ErrPending pending e else e)), pending, b3))
        else
          let e = (case err of None \<Rightarrow> ErrRetryableItems | Some e \<Rightarrow> e) in
          if attempt = cfg_MaxRetries (be_cfg B) then
            let (cancelled, b3) = ctx_err B b2 in
            if cancelled then Some (Stop (Some (ErrPending (br_Retry result) ErrContext)), pending, b3)
            else Some (Stop (Some (ErrExhausted (length (br_Retry result)) e)), pending,
                       metric (AddBulkFailed (int (length (br_Retry result)))) b3)
          else do {
            delay \<leftarrow> Backoff (be_rand B (b_now b2)) (cfg_RetryMinBackoff (be_cfg B))
                       (cfg_RetryMaxBackoff (be_cfg B)) attempt;
            b4 \<leftarrow> pause B (metric IncRetryAttempt b2);
            let (cancelled, b5) = ctx_err B b4 in
            if cancelled \<and> \<not> be_timer_first B (b_now b4)
            then Some (Stop (Some (ErrPending (br_Retry result) ErrContext)), pending, b5)
            else Some (Again (br_Retry result), pending, b5) } })"

function retry_loop :: "batch_env \<Rightarrow> 's sender \<Rightarrow> 's batcher \<Rightarrow> event list \<Rightarrow> int \<Rightarrow>
    (error option \<times> event list \<times> 's batcher) go" where
  "retry_loop B send b pending attempt =
     (if attempt \<le> cfg_MaxRetries (be_cfg B) then do {
        (r, pending1, b1) \<leftarrow> send_attempt B send b pending attempt;
        case r of
          Stop err \<Rightarrow> Some (err, pending1, b1)
        | Again again \<Rightarrow> do {
            (err, _, b2) \<leftarrow> retry_loop B send b1 again (attempt + 1);
            Some (err, pending1, b2) } }
      else Some (Some ErrLoopExit, pending, b))"
  by pat_completeness auto
termination
  by (relation "measure (\<lambda>(B, send, b, pending, attempt). nat (cfg_MaxRetries (be_cfg B) + 1 - attempt))") auto

declare retry_loop.simps [simp del]

definition sendWithRetry :: "batch_env \<Rightarrow> 's sender \<Rightarrow> 's batcher \<Rightarrow> event list \<Rightarrow>
    (error option \<times> event list \<times> 's batcher) go" where
  "sendWithRetry B send b batch = retry_loop B send b batch 0"

subsection \<open>Flushing\<close>

text \<open>The two observations that end \<open>flush\<close>.\<close>

definition observe_flush :: "batch_env \<Rightarrow> 's batcher \<Rightarrow> 's batcher" where
  "observe_flush B b =
     metric (ObserveFlushLatency (be_latency B (b_now b))) (metric (SetQueueDepth (Len (b_queue b))) b)"

definition restore_pending :: "error \<Rightarrow> event list \<Rightarrow> 's batcher \<Rightarrow> 's batcher go" where
  "restore_pending e batch b = (let restore = (case as_pending e of Some pending \<Rightarrow> pending | None \<Rightarrow> batch) in do {
     (_, q) \<leftarrow> Prepend (b_queue b) restore; Some (b\<lparr>b_queue := q\<rparr>) })"

definition flush :: "batch_env \<Rightarrow> 's sender \<Rightarrow> 's batcher \<Rightarrow> (error option \<times> 's batcher) go" where
  "flush B send b =
     (if Len (b_queue b) = 0 then Some (None, b)
      else do {
        (batch0, q) \<leftarrow> Drain (b_queue b) (cfg_MaxBatchSize (be_cfg B));
        let b1 = b\<lparr>b_queue := q\<rparr> in
        if batch0 = [] then Some (None, b1)
        else do {
          (err, batch, b2) \<leftarrow> sendWithRetry B send
             (metric (ObserveBatchSize (int (length batch0))) (metric IncFlush b1)) batch0;
          case err of
            None \<Rightarrow> Some (None, observe_flush B b2)
          | Some e \<Rightarrow>
              let (cancelled, b3) = ctx_err B (metric IncFlushFailure b2) in do {
                b4 \<leftarrow> (if cancelled then restore_pending e batch b3 else Some b3);
                Some (Some e, observe_flush B b4) } } })"

text \<open>
  The loops \<open>flushAll\<close> and \<open>flushFullBatches\<close> share their body and differ in the condition on the
  length of the queue. \<open>Running\<close> is the value of a loop that has used up its fuel.
\<close>

datatype loop_result = Ended "error option" | Running

fun flush_loop :: "nat \<Rightarrow> (int \<Rightarrow> bool) \<Rightarrow> batch_env \<Rightarrow> 's sender \<Rightarrow> 's batcher \<Rightarrow> (loop_result \<times> 's batcher) go" where
  "flush_loop 0 going B send b = Some (Running, b)"
| "flush_loop (Suc n) going B send b =
     (if \<not> going (Len (b_queue b)) then Some (Ended None, b)
      else let (cancelled, b1) = ctx_err B b in
        if cancelled then Some (Ended (Some ErrContext), b1)
        else do {
          (err, b2) \<leftarrow> flush B send b1;
          case err of Some e \<Rightarrow> Some (Ended (Some e), b2) | None \<Rightarrow> flush_loop n going B send b2 })"

definition flushAll :: "nat \<Rightarrow> batch_env \<Rightarrow> 's sender \<Rightarrow> 's batcher \<Rightarrow> (loop_result \<times> 's batcher) go" where
  "flushAll n B = flush_loop n (\<lambda>len. len > 0) B"

definition flushFullBatches :: "nat \<Rightarrow> batch_env \<Rightarrow> 's sender \<Rightarrow> 's batcher \<Rightarrow> (loop_result \<times> 's batcher) go" where
  "flushFullBatches n B = flush_loop n (\<lambda>len. len \<ge> cfg_MaxBatchSize (be_cfg B)) B"

definition Batcher_Drain :: "nat \<Rightarrow> batch_env \<Rightarrow> 's sender \<Rightarrow> 's batcher \<Rightarrow> (loop_result \<times> 's batcher) go" where
  "Batcher_Drain n B send b = flushAll n B send b"

subsection \<open>What a pause does\<close>

definition offered :: "'s batcher \<Rightarrow> event list" where
  "offered b = concat (concat (b_arrivals b))"

text \<open>What admitting \<open>n\<close> events does to the counters.\<close>

definition admits :: "registry \<Rightarrow> nat \<Rightarrow> registry \<Rightarrow> bool" where
  "admits m n m' \<longleftrightarrow> acceptedEvents m' = acceptedEvents m + of_nat n \<and> bulkIndexed m' = bulkIndexed m \<and>
     bulkFailed m' = bulkFailed m \<and> flushFailures m' = flushFailures m"

lemma admits_refl: "admits m 0 m"
  by (simp add: admits_def)

lemma admits_trans: "admits m k m1 \<Longrightarrow> admits m1 n m2 \<Longrightarrow> admits m (k + n) m2"
  by (simp add: admits_def add.assoc)

lemma offer_ring:
  assumes "ring q xs"
  shows "\<exists>q' m' ys. offer cfg batch (q, m) = Some (q', m') \<and> ring q' (xs @ ys) \<and> q_capacity q' = q_capacity q \<and>
    subseq ys batch \<and> admits m (length ys) m'"
proof (cases "cfg_DropPolicy cfg = DropPolicyReject")
  case True
  show ?thesis
  proof (cases "int (length xs + length batch) \<le> q_capacity q")
    case True
    from rq.enq_fits [OF assms this] obtain q' where "Enqueue q batch = Some (True, q')" "ring q' (xs @ batch)"
      "q_capacity q' = q_capacity q" by blast
    with \<open>cfg_DropPolicy cfg = _\<close> show ?thesis
      by (auto simp: offer_def admits_def IncAccepted_def SetQueueDepth_def to_u64_def intro!: exI [of _ batch])
  next
    case False
    then have "Enqueue q batch = Some (False, q)" using rq.enq_full [OF assms, of batch] by simp
    with \<open>cfg_DropPolicy cfg = _\<close> have
      "offer cfg batch (q, m) = Some (q, IncQueueFull (IncRejected (int (length batch)) m))" by (simp add: offer_def)
    moreover have "ring q (xs @ [])" "admits m (length []) (IncQueueFull (IncRejected (int (length batch)) m))"
      using assms by (simp_all add: admits_def IncQueueFull_def IncRejected_def)
    ultimately show ?thesis by (metis list_emb_Nil)
  qed
next
  case False
  let ?k = "room (q_capacity q) (length xs) (length batch)"
  have "subseq (take k batch) batch" for k
    by (metis append_take_drop_id list_emb_append2 subseq_append' subseq_order.order_refl subseq_rev_drop_many)
  moreover obtain q' where "DropNewest q batch = Some (int (length batch - ?k), q')" "ring q' (xs @ take ?k batch)"
    "q_capacity q' = q_capacity q" using rq.dropn_room [OF assms, of batch] by blast
  moreover have "int (length batch) - int (length batch - ?k) = int (length (take ?k batch))" by simp
  ultimately show ?thesis using False
    by (auto simp: offer_def admits_def Let_def IncAccepted_def IncDropped_def IncQueueFull_def SetQueueDepth_def
        to_u64_def intro!: exI [of _ "take ?k batch"])
qed

lemma offer_all_ring:
  assumes "ring q xs"
  shows "\<exists>q' m' ys. offer_all cfg batches (q, m) = Some (q', m') \<and> ring q' (xs @ ys) \<and>
    q_capacity q' = q_capacity q \<and> subseq ys (concat batches) \<and> admits m (length ys) m'"
  using assms
proof (induction batches arbitrary: q xs m)
  case Nil
  moreover have "admits m (length ([] :: event list)) m" by (simp add: admits_refl)
  ultimately show ?case by (metis append_Nil2 concat.simps(1) offer_all.simps(1) list_emb_Nil)
next
  case (Cons batch batches)
  obtain q1 m1 ys where 1: "offer cfg batch (q, m) = Some (q1, m1)" "ring q1 (xs @ ys)" "q_capacity q1 = q_capacity q"
    "subseq ys batch" "admits m (length ys) m1" using offer_ring [OF Cons.prems] by blast
  obtain q2 m2 zs where 2: "offer_all cfg batches (q1, m1) = Some (q2, m2)" "ring q2 ((xs @ ys) @ zs)"
    "q_capacity q2 = q_capacity q1" "subseq zs (concat batches)" "admits m1 (length zs) m2"
    using Cons.IH [OF 1(2)] by blast
  have "subseq (ys @ zs) (concat (batch # batches))"
    using list_emb_append_mono [OF 1(4) 2(4)] by simp
  with 1 2 admits_trans [OF 1(5) 2(5)] show ?case by (auto intro!: exI [of _ "ys @ zs"])
qed

text \<open>
  A step of the batcher that leaves what is queued alone: the queue only gains, at its back,
  \<open>ys\<close> from what was offered meanwhile, which is counted as accepted, and \<open>i\<close> and \<open>f\<close> events are
  counted as indexed and failed.
\<close>

definition moves :: "'s batcher \<Rightarrow> event list \<Rightarrow> nat \<Rightarrow> nat \<Rightarrow> 's batcher \<Rightarrow> bool" where
  "moves b ys i f b' \<longleftrightarrow>
     (\<forall>xs. ring (b_queue b) xs \<longrightarrow> ring (b_queue b') (xs @ ys)) \<and>
     q_capacity (b_queue b') = q_capacity (b_queue b) \<and>
     (\<exists>pre. offered b = pre @ offered b' \<and> subseq ys pre) \<and>
     b_ready b' = b_ready b \<and> b_done b' = b_done b \<and> b_now b \<le> b_now b' \<and>
     acceptedEvents (b_metrics b') = acceptedEvents (b_metrics b) + of_nat (length ys) \<and>
     bulkIndexed (b_metrics b') = bulkIndexed (b_metrics b) + of_nat i \<and>
     bulkFailed (b_metrics b') = bulkFailed (b_metrics b) + of_nat f"

lemma moves_refl: "moves b [] 0 0 b"
  by (simp add: moves_def)

lemma moves_trans:
  assumes "moves b ys i f b1" "moves b1 zs j g b2"
  shows "moves b (ys @ zs) (i + j) (f + g) b2"
proof -
  obtain p1 p2 where "offered b = p1 @ offered b1" "subseq ys p1" "offered b1 = p2 @ offered b2"
    "subseq zs p2" using assms unfolding moves_def by blast
  then have "offered b = (p1 @ p2) @ offered b2 \<and> subseq (ys @ zs) (p1 @ p2)"
    by (simp add: list_emb_append_mono)
  moreover have "ring (b_queue b) xs \<Longrightarrow> ring (b_queue b2) (xs @ ys @ zs)" for xs
    using assms unfolding moves_def by (metis append.assoc)
  ultimately show ?thesis using assms unfolding moves_def by (auto simp: algebra_simps)
qed

lemma moves_ring: "moves b ys i f b' \<Longrightarrow> ring (b_queue b) xs \<Longrightarrow> ring (b_queue b') (xs @ ys)"
  by (simp add: moves_def)

lemma moves_metric:
  assumes "acceptedEvents (g (b_metrics b)) = acceptedEvents (b_metrics b)"
    "bulkIndexed (g (b_metrics b)) = bulkIndexed (b_metrics b) + of_nat i"
    "bulkFailed (g (b_metrics b)) = bulkFailed (b_metrics b) + of_nat f"
  shows "moves b [] i f (metric g b)"
  using assms by (simp add: moves_def metric_def offered_def)

lemma moves_ctx_err: "ctx_err B b = (c, b') \<Longrightarrow> moves b [] 0 0 b' \<and> c = be_cancelled B (b_now b) \<and> b_now b' = Suc (b_now b)"
  by (auto simp: ctx_err_def moves_def offered_def)

lemma ctx_err_running: "\<forall>n. \<not> be_cancelled B n \<Longrightarrow> \<exists>b'. ctx_err B b = (False, b') \<and> moves b [] 0 0 b'"
  by (simp add: ctx_err_def moves_def offered_def)

lemma moves_pause:
  assumes "ring (b_queue b) xs"
  shows "\<exists>b' ys. pause B b = Some b' \<and> moves b ys 0 0 b' \<and> b_sender b' = b_sender b \<and>
    flushFailures (b_metrics b') = flushFailures (b_metrics b) \<and> b_now b' = Suc (b_now b)"
proof (cases "b_arrivals b")
  case Nil
  have "moves b [] 0 0 (b\<lparr>b_now := Suc (b_now b)\<rparr>)" by (simp add: moves_def offered_def)
  with Nil show ?thesis by (auto simp: pause_def)
next
  case (Cons batches rest)
  obtain q m ys where q: "offer_all (be_cfg B) batches (b_queue b, b_metrics b) = Some (q, m)" "ring q (xs @ ys)"
    "q_capacity q = q_capacity (b_queue b)" "subseq ys (concat batches)" "admits (b_metrics b) (length ys) m"
    using offer_all_ring [OF assms] by blast
  have "zs = xs" if "ring (b_queue b) zs" for zs
    using that assms by (metis ring_contents)
  with q Cons have "moves b ys 0 0 (b\<lparr>b_queue := q, b_metrics := m, b_arrivals := rest, b_now := Suc (b_now b)\<rparr>)"
    by (auto simp: moves_def offered_def admits_def)
  with q Cons show ?thesis by (auto simp: pause_def admits_def)
qed

subsection \<open>What sending a batch accounts for\<close>

text \<open>
  What the attempts of a batch leave open, read off the sender alone. After one attempt it is what
  the sender hands back for a retry, or everything sent when the request failed as a whole and
  hands nothing back. \<open>sends n\<close> makes \<open>n\<close> attempts, each with what the one before left open; it
  yields the sender's state, what is open in the end, and how many events were indexed and failed.
\<close>

definition left_open :: "bulk_result \<Rightarrow> error option \<Rightarrow> event list \<Rightarrow> event list" where
  "left_open res err sent = (if br_Retry res = [] \<and> err \<noteq> None then sent else br_Retry res)"

fun sends :: "nat \<Rightarrow> 's sender \<Rightarrow> 's \<Rightarrow> event list \<Rightarrow> 's \<times> event list \<times> int \<times> int" where
  "sends 0 send s p = (s, p, 0, 0)"
| "sends (Suc n) send s p =
     (let ((res, err), p1, s1) = send s p; (s2, rest, i, f) = sends n send s1 (left_open res err p1)
      in (s2, rest, br_Indexed res + i, br_Failed res + f))"

text \<open>
  How \<open>sendWithRetry\<close> ends when its attempts counted \<open>n\<close> events of the batch \<open>p\<close> and left \<open>rest\<close>
  open: without an error nothing is left open, and an error that carries events carries exactly
  these. When the retries are exhausted, \<open>given_up\<close> is counted as failed on top.
\<close>

definition settled :: "error option \<Rightarrow> event list \<Rightarrow> event list \<Rightarrow> nat \<Rightarrow> bool" where
  "settled err p rest n \<longleftrightarrow> n + length rest = length p \<and> subseq (map strip rest) (map strip p) \<and>
     (case err of None \<Rightarrow> rest = [] | Some e \<Rightarrow> as_pending e = None \<or> as_pending e = Some rest)"

definition exhausted :: "error option \<Rightarrow> bool" where
  "exhausted err \<longleftrightarrow> (case err of None \<Rightarrow> False | Some e \<Rightarrow> is_exhausted e)"

definition given_up :: "error option \<Rightarrow> event list \<Rightarrow> nat" where
  "given_up err rest = (if exhausted err then length rest else 0)"

fun leaves :: "attempt_result \<Rightarrow> event list \<Rightarrow> event list \<Rightarrow> nat \<Rightarrow> bool" where
  "leaves (Stop err) p rest n = settled err p rest n"
| "leaves (Again again) p rest n \<longleftrightarrow>
     again = rest \<and> n + length rest = length p \<and> subseq (map strip rest) (map strip p)"

fun attempt_gives_up :: "attempt_result \<Rightarrow> event list \<Rightarrow> nat" where
  "attempt_gives_up (Stop err) rest = given_up err rest"
| "attempt_gives_up (Again again) rest = 0"

definition seen_cancelled :: "batch_env \<Rightarrow> error option \<Rightarrow> nat \<Rightarrow> bool" where
  "seen_cancelled B err now \<longleftrightarrow>
     (\<forall>e. err = Some e \<longrightarrow> as_pending e \<noteq> None \<longrightarrow> (\<exists>k<now. be_cancelled B k))"

lemma settled_after:
  assumes "n + length rest = length p" "subseq (map strip rest) (map strip p)" "settled err rest rest' m"
  shows "settled err p rest' (n + m)"
  using assms
  by (auto simp: settled_def split: option.splits if_splits intro: subseq_order.order_trans)

lemma exhausted_simps [simp]:
  "\<not> exhausted None" "exhausted (Some (ErrExhausted n e))" "\<not> exhausted (Some (ErrPending p e))"
  "\<not> exhausted (Some ErrLoopExit)" "exhausted (Some e) = is_exhausted e"
  by (simp_all add: exhausted_def)

lemma Backoff_total:
  assumes "in_int64 minimum" "in_int64 maximum"
  shows "\<exists>d. Backoff rnd minimum maximum attempt = Some d"
  by (simp add: Backoff_base(1) [OF assms] Let_def)

text \<open>Instances for the existential statements below.\<close>

lemma ex7I: "P a b c d e f g \<Longrightarrow> \<exists>a b c d e f g. P a b c d e f g"
  by blast

lemma ex8I: "P a b c d e f g h \<Longrightarrow> \<exists>a b c d e f g h. P a b c d e f g h"
  by blast

context bulk_sender begin

lemma send_counts:
  assumes "send s p = ((res, err), p1, s1)"
  obtains i f where "br_Indexed res = int i" "br_Failed res = int f"
    "err = None \<Longrightarrow> i + f + length (br_Retry res) = length p"
    "err \<noteq> None \<Longrightarrow> i = 0 \<and> f = 0 \<and> (br_Retry res = [] \<or> br_Retry res = p1)"
proof
  have n: "0 \<le> br_Indexed res" "0 \<le> br_Failed res" using counts_nonneg [OF assms] by auto
  show "br_Indexed res = int (nat (br_Indexed res))" "br_Failed res = int (nat (br_Failed res))"
    using n by simp_all
  show "nat (br_Indexed res) + nat (br_Failed res) + length (br_Retry res) = length p" if "err = None"
    using counts_exact [of s p res p1 s1] assms that n by (simp add: accounted_def)
  show "nat (br_Indexed res) = 0 \<and> nat (br_Failed res) = 0 \<and> (br_Retry res = [] \<or> br_Retry res = p1)"
    if "err \<noteq> None" using error_all_or_none assms that by fastforce
qed

lemma retry_subseq_strip:
  "send s p = ((res, err), p1, s1) \<Longrightarrow> subseq (map strip (br_Retry res)) (map strip p)"
  using retry_subseq keeps_events by (metis subseq_map)

lemma send_attempt_spec:
  assumes r: "ring (b_queue b) xs"
    and "in_int64 (cfg_RetryMinBackoff (be_cfg B))" "in_int64 (cfg_RetryMaxBackoff (be_cfg B))"
  shows "\<exists>r p1 b1 ys i f rest. send_attempt B send b p a = Some (r, p1, b1) \<and>
    moves b ys i (f + attempt_gives_up r rest) b1 \<and> map strip p1 = map strip p \<and> leaves r p rest (i + f) \<and>
    sends 1 send (b_sender b) p = (b_sender b1, rest, int i, int f) \<and>
    (\<forall>err. r = Stop err \<longrightarrow> seen_cancelled B err (b_now b1) \<and> (exhausted err \<longrightarrow> a = cfg_MaxRetries (be_cfg B)))"
proof -
  obtain res err p1 s1 where snd: "send (b_sender b) p = ((res, err), p1, s1)" by (metis surj_pair)
  obtain i f where cnt: "br_Indexed res = int i" "br_Failed res = int f"
    "err = None \<Longrightarrow> i + f + length (br_Retry res) = length p"
    "err \<noteq> None \<Longrightarrow> i = 0 \<and> f = 0 \<and> (br_Retry res = [] \<or> br_Retry res = p1)"
    using send_counts [OF snd] by blast
  define rest where "rest = left_open res err p1"
  have strip: "map strip p1 = map strip p" and len: "length p1 = length p"
    using keeps_events [OF snd] keeps_length [OF snd] by auto
  have plain: "as_pending e = None \<and> \<not> is_exhausted e" if "err = Some e" for e
    using error_plain snd that by blast
  have all: "i + f + length rest = length p" and sub: "subseq (map strip rest) (map strip p)"
    using cnt(3,4) len strip retry_subseq_strip [OF snd] by (cases err; auto simp: rest_def left_open_def)+
  have one: "sends 1 send (b_sender b) p = (s1, rest, int i, int f)"
    by (simp add: snd cnt(1,2) rest_def)
  have "ring (b_queue (b\<lparr>b_sender := s1\<rparr>)) xs" using r by simp
  then obtain b1 ys where b1: "pause B (b\<lparr>b_sender := s1\<rparr>) = Some b1" "moves (b\<lparr>b_sender := s1\<rparr>) ys 0 0 b1"
    "b_sender b1 = s1" using moves_pause by fastforce
  define b2 where "b2 = metric (AddBulkFailed (br_Failed res)) (metric (AddBulkIndexed (br_Indexed res)) b1)"
  have "moves b1 [] i f b2"
    by (auto simp: b2_def metric_def moves_def offered_def AddBulkFailed_def AddBulkIndexed_def cnt(1,2) to_u64_def)
  moreover have "moves b ys 0 0 b1" using b1(2) by (simp add: moves_def offered_def)
  ultimately have m2: "moves b ys i f b2" using moves_trans by fastforce
  have s2: "b_sender b2 = s1" by (simp add: b2_def metric_def b1(3))
  obtain c b3 where c: "ctx_err B b2 = (c, b3)" by (metis surj_pair)
  note c' = moves_ctx_err [OF c]
  have s3: "b_sender b3 = s1" using c s2 by (auto simp: ctx_err_def)
  have m3: "moves b ys i f b3" using moves_trans [OF m2] c' by fastforce
  have sc: "\<exists>k<b_now b3. be_cancelled B k" if c using that c' by auto
  show ?thesis
  proof (cases "br_Retry res = []")
    case True
    show ?thesis
    proof (cases err)
      case None
      with True have "rest = []" by (simp add: rest_def left_open_def)
      moreover have "send_attempt B send b p a = Some (Stop None, p1, b2)"
        using True None snd b1(1) by (simp add: send_attempt_def flip: b2_def)
      ultimately show ?thesis using m2 s2 strip all sub one
        by (intro ex7I [of _ "Stop None" p1 b2 ys i f rest]) (simp add: settled_def seen_cancelled_def given_up_def)
    next
      case (Some e)
      let ?err = "Some (if c then ErrPending p1 e else e)"
      have "rest = p1" using True Some by (simp add: rest_def left_open_def)
      then have "settled ?err p rest (i + f)" using all sub plain [OF Some] by (simp add: settled_def)
      moreover have "seen_cancelled B ?err (b_now b3)" "\<not> exhausted ?err"
        using sc plain [OF Some] by (auto simp: seen_cancelled_def)
      moreover have "send_attempt B send b p a = Some (Stop ?err, p1, b3)"
        using True Some snd b1(1) c by (simp add: send_attempt_def flip: b2_def)
      ultimately show ?thesis using m3 s3 strip one
        by (intro ex7I [of _ "Stop ?err" p1 b3 ys i f rest]) (simp add: given_up_def)
    qed
  next
    case again: False
    then have rest: "br_Retry res = rest" by (simp add: rest_def left_open_def)
    define e where "e = (case err of None \<Rightarrow> ErrRetryableItems | Some e \<Rightarrow> e)"
    have e: "as_pending e = None" using plain by (auto simp: e_def split: option.split)
    show ?thesis
    proof (cases "a = cfg_MaxRetries (be_cfg B)")
      case True
      show ?thesis
      proof (cases c)
        case True
        have "send_attempt B send b p a = Some (Stop (Some (ErrPending rest ErrContext)), p1, b3)"
          using True \<open>a = _\<close> again snd b1(1) c by (simp add: send_attempt_def rest flip: b2_def)
        with True sc m3 s3 strip all sub one show ?thesis
          by (intro ex7I [of _ "Stop (Some (ErrPending rest ErrContext))" p1 b3 ys i f rest]) (simp add: settled_def seen_cancelled_def given_up_def)
      next
        case False
        let ?err = "Some (ErrExhausted (length rest) e)" and ?b4 = "metric (AddBulkFailed (int (length rest))) b3"
        have "moves b3 [] 0 (length rest) ?b4"
          by (rule moves_metric) (simp_all add: AddBulkFailed_def to_u64_def)
        from moves_trans [OF m3 this] have "moves b ys i (f + length rest) ?b4" by simp
        moreover have "settled ?err p rest (i + f)" using e all sub by (simp add: settled_def)
        moreover have "send_attempt B send b p a = Some (Stop ?err, p1, ?b4)"
          using False \<open>a = _\<close> again snd b1(1) c by (simp add: send_attempt_def e_def rest flip: b2_def)
        moreover have "seen_cancelled B ?err (b_now ?b4)"
          using e by (simp add: seen_cancelled_def)
        moreover have "b_sender ?b4 = s1" by (simp add: metric_def s3)
        ultimately show ?thesis using strip one \<open>a = _\<close>
          by (intro ex7I [of _ "Stop ?err" p1 ?b4 ys i f rest]) (simp add: given_up_def)
      qed
    next
      case False
      obtain d where d: "Backoff (be_rand B (b_now b2)) (cfg_RetryMinBackoff (be_cfg B))
          (cfg_RetryMaxBackoff (be_cfg B)) a = Some d"
        using Backoff_total [OF assms(2,3)] by blast
      have mr: "moves b2 [] 0 0 (metric IncRetryAttempt b2)"
        by (rule moves_metric) (simp_all add: IncRetryAttempt_def)
      have "ring (b_queue (metric IncRetryAttempt b2)) (xs @ ys)"
        using moves_ring [OF m2 r] by (simp add: metric_def)
      then obtain b4 zs where b4: "pause B (metric IncRetryAttempt b2) = Some b4"
        "moves (metric IncRetryAttempt b2) zs 0 0 b4" "b_sender b4 = b_sender (metric IncRetryAttempt b2)"
        using moves_pause by fastforce
      obtain c5 b5 where c5: "ctx_err B b4 = (c5, b5)" by (metis surj_pair)
      note c5' = moves_ctx_err [OF c5]
      have s5: "b_sender b5 = s1" using c5 b4(3) s2 by (auto simp: ctx_err_def metric_def)
      have m5: "moves b (ys @ zs) i f b5"
        using moves_trans [OF moves_trans [OF m2 mr] moves_trans [OF b4(2)]] c5' by fastforce
      define r where "r = (if c5 \<and> \<not> be_timer_first B (b_now b4) then Stop (Some (ErrPending rest ErrContext)) else Again rest)"
      have "send_attempt B send b p a = Some (r, p1, b5)"
        using False again snd b1(1) d b4(1) c5 by (simp add: send_attempt_def r_def rest flip: b2_def)
      moreover have "\<exists>k<b_now b5. be_cancelled B k" if c5 using that c5' by auto
      then have "leaves r p rest (i + f) \<and> attempt_gives_up r rest = 0 \<and>
          (\<forall>err. r = Stop err \<longrightarrow> seen_cancelled B err (b_now b5) \<and> \<not> exhausted err)"
        using all sub by (auto simp: r_def settled_def seen_cancelled_def given_up_def)
      ultimately show ?thesis using m5 s5 strip one
        by (intro ex7I [of _ r p1 b5 "ys @ zs" i f rest]) simp
    qed
  qed
qed

lemma sends_Suc:
  assumes "sends 1 send s p = (s1, rest, i, f)" "sends k send s1 rest = (s2, rest', j, g)"
  shows "sends (Suc k) send s p = (s2, rest', i + j, f + g)"
  using assms by (auto split: prod.splits)

lemma retry_loop_spec:
  assumes "ring (b_queue b) xs"
    and ms: "in_int64 (cfg_RetryMinBackoff (be_cfg B))" "in_int64 (cfg_RetryMaxBackoff (be_cfg B))"
  shows "\<exists>err p1 b1 ys i f rest k. retry_loop B send b p a = Some (err, p1, b1) \<and>
    moves b ys i (f + given_up err rest) b1 \<and>
    map strip p1 = map strip p \<and> settled err p rest (i + f) \<and> seen_cancelled B err (b_now b1) \<and>
    sends k send (b_sender b) p = (b_sender b1, rest, int i, int f) \<and>
    k \<le> nat (cfg_MaxRetries (be_cfg B) + 1 - a) \<and> (a \<le> cfg_MaxRetries (be_cfg B) \<longrightarrow> 0 < k) \<and>
    (exhausted err \<longrightarrow> int k = cfg_MaxRetries (be_cfg B) + 1 - a)"
  using assms(1)
proof (induction "nat (cfg_MaxRetries (be_cfg B) + 1 - a)" arbitrary: a b p xs rule: less_induct)
  case less
  show ?case
  proof (cases "a \<le> cfg_MaxRetries (be_cfg B)")
    case False
    then show ?thesis
      using moves_refl [of b]
      by (intro ex8I [of _ "Some ErrLoopExit" p b "[]" "0::nat" "0::nat" p "0::nat"])
        (simp add: retry_loop.simps [of B send b p a] settled_def seen_cancelled_def given_up_def)
  next
    case True
    obtain r p1 b1 ys i f rest where att: "send_attempt B send b p a = Some (r, p1, b1)"
      "moves b ys i (f + attempt_gives_up r rest) b1" "map strip p1 = map strip p" "leaves r p rest (i + f)"
      "sends 1 send (b_sender b) p = (b_sender b1, rest, int i, int f)"
      "\<forall>err. r = Stop err \<longrightarrow> seen_cancelled B err (b_now b1) \<and> (exhausted err \<longrightarrow> a = cfg_MaxRetries (be_cfg B))"
      using send_attempt_spec [OF less.prems ms] by blast
    show ?thesis
    proof (cases r)
      case (Stop err)
      with att True show ?thesis
        by (intro ex8I [of _ err p1 b1 ys i f rest "1::nat"]) (auto simp: retry_loop.simps [of B send b p a])
    next
      case (Again again)
      with att have again: "again = rest" "moves b ys i f b1" by auto
      have "nat (cfg_MaxRetries (be_cfg B) + 1 - (a + 1)) < nat (cfg_MaxRetries (be_cfg B) + 1 - a)"
        using True by simp
      from less.hyps [OF this moves_ring [OF att(2) less.prems]]
      obtain err p2 b2 zs j g rest' k where rec: "retry_loop B send b1 rest (a + 1) = Some (err, p2, b2)"
        "moves b1 zs j (g + given_up err rest') b2" "settled err rest rest' (j + g)" "seen_cancelled B err (b_now b2)"
        "sends k send (b_sender b1) rest = (b_sender b2, rest', int j, int g)"
        "k \<le> nat (cfg_MaxRetries (be_cfg B) + 1 - (a + 1))"
        "exhausted err \<longrightarrow> int k = cfg_MaxRetries (be_cfg B) + 1 - (a + 1)" by blast
      have "settled err p rest' (i + f + (j + g))"
        using att(4) Again rec(3) by (auto intro: settled_after)
      then have "settled err p rest' ((i + j) + (f + g))" by (simp add: algebra_simps)
      moreover have "moves b (ys @ zs) (i + j) (f + g + given_up err rest') b2"
        using moves_trans [OF again(2) rec(2)] by (simp add: algebra_simps)
      moreover have "sends (Suc k) send (b_sender b) p = (b_sender b2, rest', int (i + j), int (f + g))"
        using sends_Suc [OF att(5) rec(5)] by simp
      moreover have "retry_loop B send b p a = Some (err, p1, b2)"
        using att(1) Again again(1) rec(1) True by (simp add: retry_loop.simps [of B send b p a])
      moreover have "Suc k \<le> nat (cfg_MaxRetries (be_cfg B) + 1 - a)" using rec(6) True by linarith
      moreover have "a \<le> cfg_MaxRetries (be_cfg B) \<longrightarrow> 0 < Suc k" by simp
      moreover have "exhausted err \<longrightarrow> int (Suc k) = cfg_MaxRetries (be_cfg B) + 1 - a" using rec(7) by auto
      ultimately show ?thesis using att(3) rec(4)
        by (intro ex8I [of _ err p1 b2 "ys @ zs" "i + j" "f + g" rest' "Suc k"] conjI)
    qed
  qed
qed

end

subsection \<open>How often a batch is sent\<close>

text \<open>A sender that counts its calls.\<close>

definition counting :: "'s sender \<Rightarrow> (nat \<times> 's) sender" where
  "counting send = (\<lambda>(n, s) p. let (r, p1, s1) = send s p in (r, p1, (Suc n, s1)))"

lemma pause_sender: "pause B b = Some b' \<Longrightarrow> b_sender b' = b_sender b"
  by (auto simp: pause_def split: list.splits Option.bind_splits)

lemma send_attempt_calls:
  assumes "send_attempt B (counting send) b p a = Some (r, p1, b1)"
  shows "fst (b_sender b1) = Suc (fst (b_sender b))"
    "\<exists>rest. r = Again rest \<Longrightarrow> a \<noteq> cfg_MaxRetries (be_cfg B)"
proof -
  obtain n s where ns: "b_sender b = (n, s)" by (metis surj_pair)
  obtain res err p' s1 where snd: "send s p = ((res, err), p', s1)" by (metis surj_pair)
  show "fst (b_sender b1) = Suc (fst (b_sender b))"
    using assms
    by (auto simp: send_attempt_def counting_def ns snd metric_def ctx_err_def Let_def dest!: pause_sender
        split: Option.bind_splits option.splits if_splits)
  show "\<exists>rest. r = Again rest \<Longrightarrow> a \<noteq> cfg_MaxRetries (be_cfg B)"
    using assms
    by (auto simp: send_attempt_def counting_def ns snd metric_def ctx_err_def Let_def
        split: Option.bind_splits option.splits if_splits)
qed

lemma retry_loop_calls:
  assumes "retry_loop B (counting send) b p a = Some (err, p1, b1)"
  shows "fst (b_sender b1) \<le> fst (b_sender b) + nat (cfg_MaxRetries (be_cfg B) + 1 - a)"
  using assms
proof (induction "nat (cfg_MaxRetries (be_cfg B) + 1 - a)" arbitrary: a b p err p1 rule: less_induct)
  case less
  show ?case
  proof (cases "a \<le> cfg_MaxRetries (be_cfg B)")
    case False
    with less.prems show ?thesis by (simp add: retry_loop.simps [of B _ b p a])
  next
    case True
    with less.prems obtain r p2 b2 where att: "send_attempt B (counting send) b p a = Some (r, p2, b2)"
      by (auto simp: retry_loop.simps [of B _ b p a] split: Option.bind_splits)
    note calls = send_attempt_calls(1) [OF att]
    show ?thesis
    proof (cases r)
      case (Stop e)
      with less.prems att calls True show ?thesis by (auto simp: retry_loop.simps [of B _ b p a])
    next
      case (Again rest)
      with less.prems att True obtain e p3 where
        "retry_loop B (counting send) b2 rest (a + 1) = Some (e, p3, b1)"
        by (auto simp: retry_loop.simps [of B _ b p a] split: Option.bind_splits)
      from less.hyps [OF _ this] True calls show ?thesis by simp
    qed
  qed
qed

subsection \<open>Which flushes fail\<close>

lemma offer_failures: "offer cfg batch (q, m) = Some (q', m') \<Longrightarrow> flushFailures m' = flushFailures m"
  by (auto simp: offer_def metric_defs Let_def split: if_splits Option.bind_splits)

lemma offer_all_failures: "offer_all cfg batches (q, m) = Some (q', m') \<Longrightarrow> flushFailures m' = flushFailures m"
proof (induction batches arbitrary: q m)
  case (Cons batch batches)
  then obtain q1 m1 where "offer cfg batch (q, m) = Some (q1, m1)" "offer_all cfg batches (q1, m1) = Some (q', m')"
    by (auto split: Option.bind_splits)
  with Cons.IH offer_failures show ?case by metis
qed simp

lemma pause_failures: "pause B b = Some b' \<Longrightarrow> flushFailures (b_metrics b') = flushFailures (b_metrics b)"
  by (auto simp: pause_def dest: offer_all_failures split: list.splits Option.bind_splits)

lemma send_attempt_failures:
  "send_attempt B send b p a = Some (r, p1, b1) \<Longrightarrow> flushFailures (b_metrics b1) = flushFailures (b_metrics b)"
  by (auto simp: send_attempt_def metric_def ctx_err_def Let_def metric_defs dest!: pause_failures
      split: prod.splits Option.bind_splits option.splits if_splits)

lemma retry_loop_failures:
  "retry_loop B send b p a = Some (err, p1, b1) \<Longrightarrow> flushFailures (b_metrics b1) = flushFailures (b_metrics b)"
proof (induction B send b p a arbitrary: err p1 rule: retry_loop.induct)
  case (1 B send b p a)
  then show ?case
    by (subst (asm) (2) retry_loop.simps)
      (auto dest!: send_attempt_failures split: if_splits Option.bind_splits attempt_result.splits)
qed

lemma observe_flush_failures [simp]:
  "flushFailures (b_metrics (observe_flush B b)) = flushFailures (b_metrics b)"
  by (simp add: observe_flush_def metric_def metric_defs)

lemma flush_failures:
  assumes "flush B send b = Some (err, b')"
  shows "flushFailures (b_metrics b') = flushFailures (b_metrics b) + (if err = None then 0 else 1)"
  using assms
  by (auto simp: flush_def sendWithRetry_def restore_pending_def metric_def ctx_err_def Let_def metric_defs
      dest!: retry_loop_failures split: prod.splits Option.bind_splits option.splits if_splits)

subsection \<open>What a flush does to the queue\<close>

text \<open>
  The result of a flush of \<open>batch\<close> whose attempts left \<open>rest\<close> open, that counted \<open>n\<close> events and put
  \<open>restored\<close> back at the front of the queue. \<open>cancelled\<close> says whether the context was done after a
  failure. Without an error nothing is left open and all of the batch is counted. With an error
  all but \<open>rest\<close> is counted, or all of it when the retries are exhausted; if the context is done,
  exactly \<open>rest\<close> is put back when the error carries events, and the whole batch when it does not;
  otherwise nothing is put back.
\<close>

definition flush_outcome ::
    "bool \<Rightarrow> error option \<Rightarrow> event list \<Rightarrow> event list \<Rightarrow> event list \<Rightarrow> nat \<Rightarrow> bool" where
  "flush_outcome cancelled err batch rest restored n \<longleftrightarrow>
     subseq (map strip rest) (map strip batch) \<and>
     n + (if exhausted err then 0 else length rest) = length batch \<and>
     (case err of
        None \<Rightarrow> rest = [] \<and> restored = []
      | Some e \<Rightarrow>
          (case as_pending e of
             None \<Rightarrow> if cancelled then map strip restored = map strip batch else restored = []
           | Some pending \<Rightarrow> cancelled \<and> pending = rest \<and> restored = rest))"

lemma flush_outcome_none:
  "flush_outcome c None batch rest restored n \<longleftrightarrow> rest = [] \<and> restored = [] \<and> n = length batch"
  by (auto simp: flush_outcome_def)

lemma flush_outcome_bounds:
  assumes "flush_outcome c err batch rest restored n"
  shows "subseq (map strip restored) (map strip batch)" "n \<le> length batch"
    "err \<noteq> None \<Longrightarrow> c \<Longrightarrow> length batch \<le> n + length restored"
proof -
  show "subseq (map strip restored) (map strip batch)" "n \<le> length batch"
    using assms by (auto simp: flush_outcome_def split: option.splits if_splits)
  show "length batch \<le> n + length restored" if "err \<noteq> None" "c"
  proof -
    have "restored = rest \<or> length restored = length batch"
      using assms that by (auto simp: flush_outcome_def split: option.splits dest: map_eq_imp_length_eq)
    then show ?thesis using assms by (auto simp: flush_outcome_def split: if_splits)
  qed
qed

lemma moves_observe: "moves b [] 0 0 (observe_flush B b)"
  by (simp add: observe_flush_def metric_def moves_def offered_def SetQueueDepth_def ObserveFlushLatency_def)

lemma restore_pending_ring:
  assumes "ring (b_queue b) xs"
  shows "\<exists>q. restore_pending e batch b = Some (b\<lparr>b_queue := q\<rparr>) \<and>
    ring q ((case as_pending e of Some pending \<Rightarrow> pending | None \<Rightarrow> batch) @ xs)"
proof -
  let ?re = "case as_pending e of Some pending \<Rightarrow> pending | None \<Rightarrow> batch"
  obtain q where "Prepend (b_queue b) ?re = Some (True, q)" "ring q (?re @ xs)"
    using rq.prep_grows [OF assms] by blast
  then show ?thesis by (auto simp: restore_pending_def Let_def)
qed

text \<open>How the counters and the offered events of two states compare.\<close>

definition counted :: "'s batcher \<Rightarrow> event list \<Rightarrow> nat \<Rightarrow> nat \<Rightarrow> 's batcher \<Rightarrow> bool" where
  "counted b ys i f b' \<longleftrightarrow>
     (\<exists>pre. offered b = pre @ offered b' \<and> subseq ys pre) \<and>
     b_ready b' = b_ready b \<and> b_done b' = b_done b \<and> b_now b \<le> b_now b' \<and>
     acceptedEvents (b_metrics b') = acceptedEvents (b_metrics b) + of_nat (length ys) \<and>
     bulkIndexed (b_metrics b') = bulkIndexed (b_metrics b) + of_nat i \<and>
     bulkFailed (b_metrics b') = bulkFailed (b_metrics b) + of_nat f"

lemma counted_moves:
  "moves b ys i f b' \<Longrightarrow> counted b ys i f b'"
  "counted b ys i f (b'\<lparr>b_queue := q\<rparr>) = counted b ys i f b'"
  "counted (b\<lparr>b_queue := q\<rparr>) ys i f b' = counted b ys i f b'"
  by (auto simp: moves_def counted_def offered_def)

lemma counted_observe: "counted b ys i f (observe_flush B b') = counted b ys i f b'"
  by (simp add: observe_flush_def metric_def counted_def offered_def SetQueueDepth_def ObserveFlushLatency_def)

lemma moves_start:
  "moves b [] 0 0 (metric (ObserveBatchSize n) (metric IncFlush b))"
  "moves b [] 0 0 (metric IncFlushFailure b)"
  by (simp_all add: metric_def moves_def offered_def ObserveBatchSize_def IncFlush_def IncFlushFailure_def)

lemma observe_flush_frame [simp]:
  "b_queue (observe_flush B b) = b_queue b" "b_now (observe_flush B b) = b_now b"
  "b_sender (observe_flush B b) = b_sender b"
  by (simp_all add: observe_flush_def metric_def)

definition batch_of :: "batch_env \<Rightarrow> event list \<Rightarrow> event list" where
  "batch_of B xs = take (nat (cfg_MaxBatchSize (be_cfg B))) xs"

definition rest_of :: "batch_env \<Rightarrow> event list \<Rightarrow> event list" where
  "rest_of B xs = drop (nat (cfg_MaxBatchSize (be_cfg B))) xs"

lemma Drain_batch:
  assumes "ring q xs" "0 < cfg_MaxBatchSize (be_cfg B)"
  obtains q1 where "Drain q (cfg_MaxBatchSize (be_cfg B)) = Some (batch_of B xs, q1)"
    "ring q1 (rest_of B xs)"
  using rq.drain_takes [OF assms(1), of "cfg_MaxBatchSize (be_cfg B)"] assms(2)
  by (auto simp: drain_count_def batch_of_def rest_of_def min_def split: if_splits)

lemma batch_rest: "batch_of B xs @ rest_of B xs = xs"
  by (simp add: batch_of_def rest_of_def)

lemma counted_trans:
  assumes "counted b ys i f b1" "counted b1 zs j g b2"
  shows "counted b (ys @ zs) (i + j) (f + g) b2"
proof -
  obtain p1 p2 where "offered b = p1 @ offered b1" "subseq ys p1" "offered b1 = p2 @ offered b2"
    "subseq zs p2" using assms unfolding counted_def by blast
  then have "offered b = (p1 @ p2) @ offered b2 \<and> subseq (ys @ zs) (p1 @ p2)"
    by (simp add: list_emb_append_mono)
  then show ?thesis using assms unfolding counted_def by (auto simp: algebra_simps)
qed

lemma counted_less:
  "counted b ys i f b' \<Longrightarrow> length ys + length (offered b') \<le> length (offered b)"
  by (auto simp: counted_def dest: list_emb_length)

lemma flush_outcome_subset:
  assumes "flush_outcome c err (batch_of B xs) rest restored n"
  shows "mset (map strip (restored @ rest_of B xs @ ys)) \<subseteq># mset (map strip (xs @ ys))"
proof -
  note flush_outcome_bounds(1) [OF assms]
  then have "mset (map strip restored) \<subseteq># mset (map strip (batch_of B xs))" by (rule subseq_imp_mset)
  moreover have "mset (map strip (xs @ ys)) =
      mset (map strip (batch_of B xs)) + mset (map strip (rest_of B xs @ ys))"
    by (metis append.assoc batch_rest map_append mset_append)
  ultimately show ?thesis by (simp add: subset_mset.add_right_mono add.assoc)
qed

text \<open>
  What a loop of flushes guarantees when it starts with \<open>xs\<close> queued and ends with \<open>zs\<close> queued:
  \<open>ys\<close> was admitted meanwhile, \<open>n\<close> events were counted.
\<close>

definition loop_outcome :: "bool \<Rightarrow> loop_result \<Rightarrow> event list \<Rightarrow> event list \<Rightarrow> nat \<Rightarrow> event list \<Rightarrow> bool" where
  "loop_outcome cancelled res xs ys n zs \<longleftrightarrow>
     mset (map strip zs) \<subseteq># mset (map strip (xs @ ys)) \<and>
     (case res of
        Ended (Some e) \<Rightarrow> (cancelled \<longrightarrow> length xs + length ys \<le> length zs + n)
      | _ \<Rightarrow> length zs + n = length xs + length ys)"

lemma loop_outcome_trans:
  assumes "length xs' + m = length xs + length us" "mset (map strip xs') \<subseteq># mset (map strip (xs @ us))"
    "loop_outcome c res xs' ys n zs"
  shows "loop_outcome c res xs (us @ ys) (m + n) zs"
proof -
  have "mset (map strip (xs' @ ys)) \<subseteq># mset (map strip (xs @ us @ ys))"
    using subset_mset.add_right_mono [OF assms(2)] by (simp add: add.assoc)
  with assms(1,3) show ?thesis
    by (auto simp: loop_outcome_def intro: subset_mset.order_trans split: loop_result.splits option.splits)
qed

text \<open>
  How many attempts a flush makes: at least one when there is something to send, no more than the
  configured retries allow, and all of these before it gives up.
\<close>

definition attempts_ok :: "batch_env \<Rightarrow> error option \<Rightarrow> event list \<Rightarrow> nat \<Rightarrow> bool" where
  "attempts_ok B err batch k \<longleftrightarrow> k \<le> nat (cfg_MaxRetries (be_cfg B) + 1) \<and>
     (batch \<noteq> [] \<and> 0 \<le> cfg_MaxRetries (be_cfg B) \<longrightarrow> 0 < k) \<and>
     (exhausted err \<longrightarrow> int k = cfg_MaxRetries (be_cfg B) + 1)"

context bulk_sender begin

lemma flush_spec:
  assumes r: "ring (b_queue b) xs" and mx: "0 < cfg_MaxBatchSize (be_cfg B)"
    and ms: "in_int64 (cfg_RetryMinBackoff (be_cfg B))" "in_int64 (cfg_RetryMaxBackoff (be_cfg B))"
    and mono: "mono (be_cancelled B)"
  shows "\<exists>err b' restored ys i f rest k. flush B send b = Some (err, b') \<and>
    ring (b_queue b') (restored @ rest_of B xs @ ys) \<and>
    sends k send (b_sender b) (batch_of B xs) = (b_sender b', rest, int i, int f) \<and>
    attempts_ok B err (batch_of B xs) k \<and>
    flush_outcome (be_cancelled B (b_now b' - 1)) err (batch_of B xs) rest restored (i + f + given_up err rest) \<and>
    counted b ys i (f + given_up err rest) b'"
proof (cases "xs = []")
  case True
  then have "flush B send b = Some (None, b)" using rq.len_counts [OF r] by (simp add: flush_def)
  with True r show ?thesis
    by (intro ex8I [of _ None b "[]" "[]" 0 0 "[]" 0])
      (simp add: batch_of_def rest_of_def flush_outcome_none counted_def attempts_ok_def given_up_def)
next
  case False
  let ?batch = "batch_of B xs"
  obtain q1 where q1: "Drain (b_queue b) (cfg_MaxBatchSize (be_cfg B)) = Some (?batch, q1)"
    "ring q1 (rest_of B xs)" using Drain_batch [OF r mx] by blast
  have ne: "?batch \<noteq> []" "Len (b_queue b) \<noteq> 0"
    using False mx rq.len_counts [OF r] by (auto simp: batch_of_def)
  define b1 where "b1 = metric (ObserveBatchSize (int (length ?batch))) (metric IncFlush (b\<lparr>b_queue := q1\<rparr>))"
  note mv1 = moves_start(1) [of "b\<lparr>b_queue := q1\<rparr>" "int (length ?batch)", folded b1_def]
  have r1: "ring (b_queue b1) (rest_of B xs)" using q1(2) by (simp add: b1_def metric_def)
  have s1: "b_sender b1 = b_sender b" by (simp add: b1_def metric_def)
  obtain err p b2 ys i f rest k where send: "retry_loop B send b1 ?batch 0 = Some (err, p, b2)"
    "moves b1 ys i (f + given_up err rest) b2" "map strip p = map strip ?batch" "settled err ?batch rest (i + f)"
    "seen_cancelled B err (b_now b2)" "sends k send (b_sender b1) ?batch = (b_sender b2, rest, int i, int f)"
    "k \<le> nat (cfg_MaxRetries (be_cfg B) + 1)" "0 \<le> cfg_MaxRetries (be_cfg B) \<longrightarrow> 0 < k"
    "exhausted err \<longrightarrow> int k = cfg_MaxRetries (be_cfg B) + 1"
    using retry_loop_spec [OF r1 ms, of ?batch 0] by (simp only: diff_zero) blast
  have mv: "moves (b\<lparr>b_queue := q1\<rparr>) ys i (f + given_up err rest) b2" using moves_trans [OF mv1 send(2)] by simp
  have att: "attempts_ok B err ?batch k" using send(7-9) by (simp add: attempts_ok_def)
  have total: "i + f + given_up err rest + (if exhausted err then 0 else length rest) = length ?batch"
    "subseq (map strip rest) (map strip ?batch)"
    using send(4) by (auto simp: settled_def given_up_def)
  show ?thesis
  proof (cases err)
    case None
    have "flush B send b = Some (err, observe_flush B b2)"
      using ne q1(1) send(1) None by (simp add: flush_def sendWithRetry_def flip: b1_def)
    moreover have "counted b ys i (f + given_up err rest) (observe_flush B b2)"
      using counted_moves(1) [OF mv] by (simp add: counted_moves(3) counted_observe)
    moreover have "ring (b_queue (observe_flush B b2)) ([] @ rest_of B xs @ ys)"
      using moves_ring [OF send(2) r1] by simp
    moreover have "flush_outcome c err ?batch rest [] (i + f + given_up err rest)" for c
      using send(4) total None by (simp add: flush_outcome_def settled_def)
    moreover have "sends k send (b_sender b) ?batch = (b_sender (observe_flush B b2), rest, int i, int f)"
      using send(6) by (simp add: s1)
    ultimately show ?thesis using att
      by (intro ex8I [of _ err "observe_flush B b2" "[]" ys i f rest k] conjI)
  next
    case (Some e)
    obtain c b3 where c: "ctx_err B (metric IncFlushFailure b2) = (c, b3)" by (metis surj_pair)
    note c' = moves_ctx_err [OF c]
    have mv3: "moves (b\<lparr>b_queue := q1\<rparr>) ys i (f + given_up err rest) b3"
      using moves_trans [OF moves_trans [OF mv moves_start(2)]] c' by fastforce
    have now: "c = be_cancelled B (b_now b3 - 1)" using c' by simp
    have r3: "ring (b_queue b3) (rest_of B xs @ ys)"
      using moves_ring [OF mv3] q1(2) by simp
    have s3: "sends k send (b_sender b) ?batch = (b_sender b3, rest, int i, int f)"
      using send(6) s1 c by (auto simp: ctx_err_def metric_def)
    have pending: "as_pending e = None \<or> as_pending e = Some rest"
      using send(4) Some by (simp add: settled_def)
    show ?thesis
    proof (cases c)
      case True
      let ?re = "case as_pending e of Some pending \<Rightarrow> pending | None \<Rightarrow> p"
      obtain q where q: "restore_pending e p b3 = Some (b3\<lparr>b_queue := q\<rparr>)" "ring q (?re @ rest_of B xs @ ys)"
        using restore_pending_ring [OF r3] by blast
      let ?b' = "observe_flush B (b3\<lparr>b_queue := q\<rparr>)"
      have "flush B send b = Some (err, ?b')"
        using ne q1(1) send(1) Some c True q(1) by (simp add: flush_def sendWithRetry_def flip: b1_def)
      moreover have "counted b ys i (f + given_up err rest) ?b'"
        using counted_moves(1) [OF mv3] by (simp add: counted_moves(2,3) counted_observe)
      moreover have "flush_outcome (be_cancelled B (b_now ?b' - 1)) err ?batch rest ?re (i + f + given_up err rest)"
        using send(3) total pending Some True now by (auto simp: flush_outcome_def)
      moreover have "ring (b_queue ?b') (?re @ rest_of B xs @ ys)" using q(2) by simp
      moreover have "sends k send (b_sender b) ?batch = (b_sender ?b', rest, int i, int f)" using s3 by simp
      ultimately show ?thesis using att
        by (intro ex8I [of _ err ?b' ?re ys i f rest k] conjI)
    next
      case False
      have "as_pending e = None"
      proof (rule ccontr)
        assume "as_pending e \<noteq> None"
        with send(5) Some obtain k where "k < b_now b2" "be_cancelled B k" by (auto simp: seen_cancelled_def)
        moreover have "b_now b2 \<le> b_now b3 - 1" using c' by (simp add: metric_def)
        ultimately have "be_cancelled B (b_now b3 - 1)"
          using mono by (meson le_boolD less_imp_le monoD order_trans)
        with False now show False by simp
      qed
      let ?b' = "observe_flush B b3"
      have "flush B send b = Some (err, ?b')"
        using ne q1(1) send(1) Some c False by (simp add: flush_def sendWithRetry_def flip: b1_def)
      moreover have "counted b ys i (f + given_up err rest) ?b'"
        using counted_moves(1) [OF mv3] by (simp add: counted_moves(3) counted_observe)
      moreover have "flush_outcome (be_cancelled B (b_now ?b' - 1)) err ?batch rest [] (i + f + given_up err rest)"
        using total Some False now \<open>as_pending e = None\<close> by (auto simp: flush_outcome_def)
      moreover have "ring (b_queue ?b') ([] @ rest_of B xs @ ys)" using r3 by simp
      moreover have "sends k send (b_sender b) ?batch = (b_sender ?b', rest, int i, int f)" using s3 by simp
      ultimately show ?thesis using att
        by (intro ex8I [of _ err ?b' "[]" ys i f rest k] conjI)
    qed
  qed
qed

text \<open>What the loops over flushes use of it.\<close>

lemma flush_spec':
  assumes "ring (b_queue b) xs" "0 < cfg_MaxBatchSize (be_cfg B)"
    "in_int64 (cfg_RetryMinBackoff (be_cfg B))" "in_int64 (cfg_RetryMaxBackoff (be_cfg B))"
    "mono (be_cancelled B)"
  shows "\<exists>err b' restored ys i f rest. flush B send b = Some (err, b') \<and>
    ring (b_queue b') (restored @ rest_of B xs @ ys) \<and>
    flush_outcome (be_cancelled B (b_now b' - 1)) err (batch_of B xs) rest restored (i + f) \<and>
    counted b ys i f b'"
  using flush_spec [OF assms] by (metis add.assoc)

lemma flush_loop_spec:
  assumes "ring (b_queue b) xs" and mx: "0 < cfg_MaxBatchSize (be_cfg B)"
    and ms: "in_int64 (cfg_RetryMinBackoff (be_cfg B))" "in_int64 (cfg_RetryMaxBackoff (be_cfg B))"
    and mono: "mono (be_cancelled B)" and going: "\<And>n. going n \<Longrightarrow> 0 < n"
  shows "\<exists>res b' zs ys i f. flush_loop n going B send b = Some (res, b') \<and> ring (b_queue b') zs \<and>
    counted b ys i f b' \<and> loop_outcome (be_cancelled B (b_now b' - 1)) res xs ys (i + f) zs \<and>
    (res = Ended None \<longrightarrow> \<not> going (int (length zs))) \<and>
    (length xs + length (offered b) < n \<longrightarrow> res \<noteq> Running)"
  using assms(1)
proof (induction n arbitrary: b xs)
  case 0
  have "counted b [] 0 0 b" by (simp add: counted_def)
  moreover have "loop_outcome c Running xs [] 0 xs" for c by (simp add: loop_outcome_def)
  ultimately show ?case using 0
    by (intro exI [of _ Running] exI [of _ b] exI [of _ xs] exI [of _ "[]"] exI [of _ "0::nat"]) simp
next
  case (Suc n)
  have len: "Len (b_queue b) = int (length xs)" by (rule rq.len_counts [OF Suc.prems])
  have same: "counted b [] 0 0 b" by (simp add: counted_def)
  show ?case
  proof (cases "going (int (length xs))")
    case False
    have "loop_outcome c (Ended None) xs [] 0 xs" for c by (simp add: loop_outcome_def)
    with False len same Suc.prems show ?thesis
      by (intro exI [of _ "Ended None"] exI [of _ b] exI [of _ xs] exI [of _ "[]"] exI [of _ "0::nat"]) simp
  next
    case True
    then have "0 < int (length xs)" by (rule going)
    obtain c b1 where c: "ctx_err B b = (c, b1)" by (metis surj_pair)
    note c' = moves_ctx_err [OF c]
    have same1: "counted b [] 0 0 b1" using c' counted_moves(1) by blast
    have r1: "ring (b_queue b1) xs" using c' Suc.prems moves_ring by fastforce
    show ?thesis
    proof (cases c)
      case True
      have "loop_outcome (be_cancelled B (b_now b1 - 1)) (Ended (Some ErrContext)) xs [] 0 xs"
        by (simp add: loop_outcome_def)
      with True \<open>going _\<close> len c r1 same1 show ?thesis
        by (intro exI [of _ "Ended (Some ErrContext)"] exI [of _ b1] exI [of _ xs] exI [of _ "[]"] exI [of _ "0::nat"]) simp
    next
      case False
      obtain err b2 restored ys i f rest where fl: "flush B send b1 = Some (err, b2)"
        "ring (b_queue b2) (restored @ rest_of B xs @ ys)"
        "flush_outcome (be_cancelled B (b_now b2 - 1)) err (batch_of B xs) rest restored (i + f)"
        "counted b1 ys i f b2" using flush_spec' [OF r1 mx ms mono] by blast
      have cnt: "counted b ys i f b2" using counted_trans [OF same1 fl(4)] by simp
      note sub = flush_outcome_subset [OF fl(3), of ys]
      have split: "length xs = length (batch_of B xs) + length (rest_of B xs)"
        by (metis batch_rest length_append)
      show ?thesis
      proof (cases err)
        case (Some e)
        have "loop_outcome (be_cancelled B (b_now b2 - 1)) (Ended (Some e)) xs ys (i + f)
            (restored @ rest_of B xs @ ys)"
          using sub flush_outcome_bounds(3) [OF fl(3)] Some split by (auto simp: loop_outcome_def)
        with False \<open>going _\<close> len c fl(1,2) Some cnt show ?thesis
          by (intro exI [of _ "Ended (Some e)"] exI [of _ b2] exI [of _ "restored @ rest_of B xs @ ys"]
              exI [of _ ys] exI [of _ i] exI [of _ f]) simp
      next
        case None
        then have out: "restored = []" "i + f = length (batch_of B xs)"
          using fl(3) by (auto simp: flush_outcome_none)
        obtain res b3 zs vs j g where rec: "flush_loop n going B send b2 = Some (res, b3)"
          "ring (b_queue b3) zs" "counted b2 vs j g b3"
          "loop_outcome (be_cancelled B (b_now b3 - 1)) res (rest_of B xs @ ys) vs (j + g) zs"
          "res = Ended None \<longrightarrow> \<not> going (int (length zs))"
          "length (rest_of B xs @ ys) + length (offered b2) < n \<longrightarrow> res \<noteq> Running"
          using Suc.IH fl(2) out(1) by fastforce
        have "loop_outcome (be_cancelled B (b_now b3 - 1)) res xs (ys @ vs) ((i + f) + (j + g)) zs"
          using sub out split by (intro loop_outcome_trans [OF _ _ rec(4)]) auto
        then have lo: "loop_outcome (be_cancelled B (b_now b3 - 1)) res xs (ys @ vs) ((i + j) + (f + g)) zs"
          by (simp add: algebra_simps)
        have "0 < length (batch_of B xs)" using \<open>0 < int (length xs)\<close> mx by (simp add: batch_of_def)
        then have "length xs + length (offered b) < Suc n \<Longrightarrow>
            length (rest_of B xs @ ys) + length (offered b2) < n"
          using counted_less [OF cnt] split unfolding length_append by linarith
        with False \<open>going _\<close> len c fl(1) None rec(1,2,5,6) lo counted_trans [OF cnt rec(3)] show ?thesis
          by (intro exI [of _ res] exI [of _ b3] exI [of _ zs] exI [of _ "ys @ vs"] exI [of _ "i + j"]
              exI [of _ "f + g"]) auto
      qed
    qed
  qed
qed

text \<open>
  A request that fails as a whole and must not be repeated: the batch leaves the queue and neither
  counter changes.
\<close>

lemma flush_rejected:
  assumes r: "ring (b_queue b) xs" "xs \<noteq> []" and mx: "0 < cfg_MaxBatchSize (be_cfg B)"
    and nc: "\<forall>n. \<not> be_cancelled B n" and mr: "0 \<le> cfg_MaxRetries (be_cfg B)"
    and snd: "send (b_sender b) (batch_of B xs) = ((res, Some e), p, s1)" "br_Retry res = []"
  shows "\<exists>b' ys. flush B send b = Some (Some e, b') \<and> ring (b_queue b') (rest_of B xs @ ys) \<and>
    counted b ys 0 0 b'"
proof -
  let ?batch = "batch_of B xs"
  obtain q1 where q1: "Drain (b_queue b) (cfg_MaxBatchSize (be_cfg B)) = Some (?batch, q1)"
    "ring q1 (rest_of B xs)" using Drain_batch [OF r(1) mx] by blast
  have ne: "?batch \<noteq> []" "Len (b_queue b) \<noteq> 0"
    using r(2) mx rq.len_counts [OF r(1)] by (auto simp: batch_of_def)
  define b1 where "b1 = metric (ObserveBatchSize (int (length ?batch))) (metric IncFlush (b\<lparr>b_queue := q1\<rparr>))"
  note mv1 = moves_start(1) [of "b\<lparr>b_queue := q1\<rparr>" "int (length ?batch)", folded b1_def]
  have b1: "b_sender b1 = b_sender b" "ring (b_queue b1) (rest_of B xs)"
    using q1(2) by (simp_all add: b1_def metric_def)
  obtain b2 ys where b2: "pause B (b1\<lparr>b_sender := s1\<rparr>) = Some b2" "moves (b1\<lparr>b_sender := s1\<rparr>) ys 0 0 b2"
    using moves_pause [of "b1\<lparr>b_sender := s1\<rparr>" "rest_of B xs" B] b1(2) by auto
  have zero: "br_Indexed res = 0" "br_Failed res = 0" using error_all_or_none [OF snd(1)] by auto
  define b3 where "b3 = metric (AddBulkFailed (br_Failed res)) (metric (AddBulkIndexed (br_Indexed res)) b2)"
  have m3: "moves b1 ys 0 0 b3"
    using b2(2) by (simp add: b3_def zero metric_def moves_def offered_def AddBulkFailed_def AddBulkIndexed_def to_u64_def)
  obtain b4 where b4: "ctx_err B b3 = (False, b4)" "moves b3 [] 0 0 b4"
    using ctx_err_running [OF nc] by blast
  obtain b5 where b5: "ctx_err B (metric IncFlushFailure b4) = (False, b5)"
    "moves (metric IncFlushFailure b4) [] 0 0 b5" using ctx_err_running [OF nc] by blast
  have "send_attempt B send b1 ?batch 0 = Some (Stop (Some e), p, b4)"
    using snd b2(1) b4(1) b1(1) by (simp add: send_attempt_def flip: b3_def)
  then have "sendWithRetry B send b1 ?batch = Some (Some e, p, b4)"
    using mr by (simp add: sendWithRetry_def retry_loop.simps [of B send b1])
  then have fl: "flush B send b = Some (Some e, observe_flush B b5)"
    using ne q1(1) b5(1) by (simp add: flush_def flip: b1_def)
  have "moves b1 ys 0 0 b5"
    using moves_trans [OF m3 moves_trans [OF b4(2) moves_trans [OF moves_start(2) b5(2)]]] by simp
  from moves_trans [OF mv1 this] have mv5: "moves (b\<lparr>b_queue := q1\<rparr>) ys 0 0 b5" by simp
  have "counted b ys 0 0 (observe_flush B b5)" "ring (b_queue b5) (rest_of B xs @ ys)"
    using counted_moves(1) [OF mv5] moves_ring [OF mv5] q1(2) by (simp_all add: counted_moves(3) counted_observe)
  with fl show ?thesis by auto
qed

end

subsection \<open>Run\<close>

text \<open>
  \<open>Run\<close> loops over a \<open>select\<close> of three channels. Each arm is a function; \<open>run_step\<close> is one turn of
  the loop, or requests that run while the loop waits, or the entry into the loop. The deferred
  calls run when the context is done.
\<close>

definition run_enter :: "'s batcher \<Rightarrow> 's batcher" where
  "run_enter b = b\<lparr>b_ready := True\<rparr>"

definition run_exit :: "'s batcher \<Rightarrow> 's batcher" where
  "run_exit b = b\<lparr>b_ready := False, b_done := True\<rparr>"

definition set_depth :: "loop_result \<times> 's batcher \<Rightarrow> loop_result \<times> 's batcher" where
  "set_depth = (\<lambda>(res, b). (res, metric (SetQueueDepth (Len (b_queue b))) b))"

definition run_ticker :: "nat \<Rightarrow> batch_env \<Rightarrow> 's sender \<Rightarrow> 's batcher \<Rightarrow> (loop_result \<times> 's batcher) go" where
  "run_ticker n B send b = map_option set_depth (flushAll n B send b)"

definition run_notified :: "nat \<Rightarrow> batch_env \<Rightarrow> 's sender \<Rightarrow> 's batcher \<Rightarrow> (loop_result \<times> 's batcher) go" where
  "run_notified n B send b =
     (if Len (b_queue b) \<ge> cfg_MaxBatchSize (be_cfg B)
      then map_option set_depth (flushFullBatches n B send b)
      else Some (set_depth (Ended None, b)))"

inductive run_step :: "nat \<Rightarrow> batch_env \<Rightarrow> 's sender \<Rightarrow> 's batcher \<Rightarrow> 's batcher \<Rightarrow> bool"
  for n B send where
  enter: "\<not> Ready b \<Longrightarrow> \<not> Done b \<Longrightarrow> run_step n B send b (run_enter b)"
| requests: "pause B b = Some b' \<Longrightarrow> run_step n B send b b'"
| ticker: "Ready b \<Longrightarrow> run_ticker n B send b = Some (Ended err, b') \<Longrightarrow> run_step n B send b b'"
| notified: "Ready b \<Longrightarrow> recv_notify (b_queue b) = Some q \<Longrightarrow>
    run_notified n B send (b\<lparr>b_queue := q\<rparr>) = Some (Ended err, b') \<Longrightarrow> run_step n B send b b'"
| exit: "Ready b \<Longrightarrow> be_cancelled B (b_now b) \<Longrightarrow> run_step n B send b (run_exit b)"

text \<open>The invariant of \<open>Run\<close>: \<open>zs\<close> is queued, and all of it was queued at first or offered since.\<close>

definition run_inv :: "'s batcher \<Rightarrow> event list \<Rightarrow> 's batcher \<Rightarrow> bool" where
  "run_inv b0 xs b \<longleftrightarrow> (\<exists>zs pre ys. ring (b_queue b) zs \<and> offered b0 = pre @ offered b \<and>
     subseq ys pre \<and> mset (map strip zs) \<subseteq># mset (map strip (xs @ ys)) \<and> (Done b \<longrightarrow> \<not> Ready b))"

lemma run_inv_start: "ring (b_queue b) xs \<Longrightarrow> \<not> Done b \<Longrightarrow> run_inv b xs b"
  unfolding run_inv_def
  by (intro exI [of _ xs] exI [of _ "[]"]) simp

lemma run_inv_moves:
  assumes "run_inv b0 xs b" "ring (b_queue b) zs" "counted b ys i f b'" "ring (b_queue b') zs'"
    "mset (map strip zs') \<subseteq># mset (map strip (zs @ ys))"
  shows "run_inv b0 xs b'"
proof -
  obtain pre us where inv: "offered b0 = pre @ offered b" "subseq us pre"
    "mset (map strip zs) \<subseteq># mset (map strip (xs @ us))" "Done b \<longrightarrow> \<not> Ready b"
    using assms(1,2) unfolding run_inv_def by (metis ring_contents)
  obtain pre' where pre': "offered b = pre' @ offered b'" "subseq ys pre'"
    using assms(3) by (auto simp: counted_def)
  have "mset (map strip (zs @ ys)) \<subseteq># mset (map strip (xs @ us @ ys))"
    using subset_mset.add_right_mono [OF inv(3)] by (simp add: add.assoc)
  then have "mset (map strip zs') \<subseteq># mset (map strip (xs @ us @ ys))"
    using assms(5) by (rule subset_mset.order_trans [rotated])
  moreover have "Done b' \<longrightarrow> \<not> Ready b'" using inv(4) assms(3) by (simp add: counted_def Done_def Ready_def)
  moreover have "offered b0 = (pre @ pre') @ offered b'" "subseq (us @ ys) (pre @ pre')"
    using inv(1,2) pre' by (simp_all add: list_emb_append_mono)
  ultimately show ?thesis unfolding run_inv_def using assms(4) by blast
qed

lemma run_inv_frame:
  assumes "run_inv b0 xs b" "b_queue b' = b_queue b" "b_arrivals b' = b_arrivals b" "Done b' \<longrightarrow> \<not> Ready b'"
  shows "run_inv b0 xs b'"
  using assms unfolding run_inv_def offered_def by auto

lemma run_inv_depth:
  "run_inv b0 xs (metric g b) = run_inv b0 xs b"
  by (simp add: run_inv_def offered_def metric_def Done_def Ready_def)

lemma recv_notify_ring: "recv_notify q = Some q' \<Longrightarrow> ring q' xs = ring q xs"
  by (auto simp: recv_notify_def ring_def split: if_splits)

context bulk_sender begin

lemma run_inv_flush_loop:
  assumes inv: "run_inv b0 xs b" and run: "flush_loop n going B send b = Some (res, b')"
    and "0 < cfg_MaxBatchSize (be_cfg B)" "in_int64 (cfg_RetryMinBackoff (be_cfg B))"
      "in_int64 (cfg_RetryMaxBackoff (be_cfg B))" "mono (be_cancelled B)" "\<And>n. going n \<Longrightarrow> 0 < n"
  shows "run_inv b0 xs b'"
proof -
  obtain zs where zs: "ring (b_queue b) zs" using inv by (auto simp: run_inv_def)
  from flush_loop_spec [OF zs assms(3-6), of going n] assms(7) run obtain zs' ys i f where
    "ring (b_queue b') zs'" "counted b ys i f b'"
    "loop_outcome (be_cancelled B (b_now b' - 1)) res zs ys (i + f) zs'" by auto
  then show ?thesis using run_inv_moves [OF inv zs] by (auto simp: loop_outcome_def)
qed

lemma run_step_inv:
  assumes "run_step n B send b b'" "run_inv b0 xs b"
    and env: "0 < cfg_MaxBatchSize (be_cfg B)" "in_int64 (cfg_RetryMinBackoff (be_cfg B))"
      "in_int64 (cfg_RetryMaxBackoff (be_cfg B))" "mono (be_cancelled B)"
  shows "run_inv b0 xs b'"
  using assms(1)
proof (cases rule: run_step.cases)
  case enter
  then show ?thesis
    using run_inv_frame [OF assms(2), of "run_enter b"] by (simp add: run_enter_def Done_def)
next
  case requests
  obtain zs where zs: "ring (b_queue b) zs" using assms(2) by (auto simp: run_inv_def)
  from moves_pause [OF zs, of B] requests obtain ys where "moves b ys 0 0 b'" by auto
  then show ?thesis
    using run_inv_moves [OF assms(2) zs] counted_moves(1) moves_ring [OF _ zs] by fastforce
next
  case (ticker err)
  then obtain b1 where "flush_loop n (\<lambda>len. 0 < len) B send b = Some (Ended err, b1)"
    "b' = metric (SetQueueDepth (Len (b_queue b1))) b1"
    by (auto simp: run_ticker_def flushAll_def set_depth_def)
  then show ?thesis using run_inv_flush_loop [OF assms(2) _ env] by (simp add: run_inv_depth)
next
  case (notified q err)
  have inv: "run_inv b0 xs (b\<lparr>b_queue := q\<rparr>)"
    using assms(2) recv_notify_ring [OF notified(2)] by (simp add: run_inv_def offered_def Done_def Ready_def)
  show ?thesis
  proof (cases "Len q \<ge> cfg_MaxBatchSize (be_cfg B)")
    case True
    with notified(3) obtain b1 where
      "flush_loop n (\<lambda>len. len \<ge> cfg_MaxBatchSize (be_cfg B)) B send (b\<lparr>b_queue := q\<rparr>) = Some (Ended err, b1)"
      "b' = metric (SetQueueDepth (Len (b_queue b1))) b1"
      by (auto simp: run_notified_def flushFullBatches_def set_depth_def)
    then show ?thesis using run_inv_flush_loop [OF inv _ env] env(1) by (simp add: run_inv_depth)
  next
    case False
    with notified(3) inv show ?thesis by (auto simp: run_notified_def set_depth_def run_inv_depth)
  qed
next
  case exit
  then show ?thesis
    using run_inv_frame [OF assms(2), of "run_exit b"] by (simp add: run_exit_def Ready_def)
qed

lemma run_steps_inv:
  assumes "(run_step n B send)\<^sup>*\<^sup>* b b'" "run_inv b0 xs b"
    and env: "0 < cfg_MaxBatchSize (be_cfg B)" "in_int64 (cfg_RetryMinBackoff (be_cfg B))"
      "in_int64 (cfg_RetryMaxBackoff (be_cfg B))" "mono (be_cancelled B)"
  shows "run_inv b0 xs b'"
  using assms(1,2) by (induction rule: rtranclp_induct) (auto intro: run_step_inv [OF _ _ env])

end

subsection \<open>The books\<close>

text \<open>
  The counters against the queue, when \<open>k\<close> flushes have failed: what is accepted has been indexed,
  has failed or is queued, but for \<open>d\<close> events, of which each failed flush contributes at most a
  batch: uncounted ones when a request is refused as a whole, twice counted ones when the context
  ends behind the last attempt.
\<close>

definition balanced :: "int \<Rightarrow> nat \<Rightarrow> 's batcher \<Rightarrow> bool" where
  "balanced mx k b \<longleftrightarrow> flushFailures (b_metrics b) = of_nat k \<and>
     (\<exists>d. \<bar>d\<bar> \<le> mx * int k \<and>
        acceptedEvents (b_metrics b) = bulkIndexed (b_metrics b) + bulkFailed (b_metrics b) +
          of_nat (length (contents (b_queue b))) + of_int d)"

lemma balanced_frame:
  assumes "balanced mx k b" "ring (b_queue b) xs" "ring (b_queue b') xs"
    "acceptedEvents (b_metrics b') = acceptedEvents (b_metrics b)" "bulkIndexed (b_metrics b') = bulkIndexed (b_metrics b)"
    "bulkFailed (b_metrics b') = bulkFailed (b_metrics b)" "flushFailures (b_metrics b') = flushFailures (b_metrics b)"
  shows "balanced mx k b'"
  using assms ring_contents [OF assms(2)] ring_contents [OF assms(3)] by (simp add: balanced_def)

lemma balanced_moves:
  assumes "balanced mx k b" "ring (b_queue b) xs" "moves b ys 0 0 b'"
    "flushFailures (b_metrics b') = flushFailures (b_metrics b)"
  shows "balanced mx k b'"
proof -
  have "contents (b_queue b) = xs" "contents (b_queue b') = xs @ ys"
    using ring_contents [OF assms(2)] ring_contents [OF moves_ring [OF assms(3,2)]] by simp_all
  with assms(1,3,4) show ?thesis by (auto simp: balanced_def moves_def algebra_simps)
qed

text \<open>By how much a flush of a batch puts the books out.\<close>

lemma flush_outcome_slack:
  assumes "flush_outcome c err batch rest restored n"
  shows "\<bar>int (length batch) - int n - int (length restored)\<bar> \<le> (if err = None then 0 else int (length batch))"
proof (cases err)
  case None
  with assms show ?thesis by (simp add: flush_outcome_none)
next
  case (Some e)
  have "length restored \<le> length batch"
    using list_emb_length [OF flush_outcome_bounds(1) [OF assms]] by simp
  with flush_outcome_bounds(2) [OF assms] Some show ?thesis by auto
qed

context bulk_sender begin

lemma flush_balanced:
  assumes "ring (b_queue b) xs" "0 < cfg_MaxBatchSize (be_cfg B)"
    "in_int64 (cfg_RetryMinBackoff (be_cfg B))" "in_int64 (cfg_RetryMaxBackoff (be_cfg B))"
    "mono (be_cancelled B)" "flush B send b = Some (err, b')" "balanced (cfg_MaxBatchSize (be_cfg B)) k b"
  shows "balanced (cfg_MaxBatchSize (be_cfg B)) (if err = None then k else Suc k) b' \<and> (\<exists>zs. ring (b_queue b') zs)"
proof -
  let ?mx = "cfg_MaxBatchSize (be_cfg B)" and ?batch = "batch_of B xs"
  obtain restored ys i f rest where fl: "ring (b_queue b') (restored @ rest_of B xs @ ys)"
    "flush_outcome (be_cancelled B (b_now b' - 1)) err ?batch rest restored (i + f)" "counted b ys i f b'"
    using flush_spec' [OF assms(1-5)] assms(6) by fastforce
  obtain d where d: "\<bar>d\<bar> \<le> ?mx * int k" "acceptedEvents (b_metrics b) = bulkIndexed (b_metrics b) + bulkFailed (b_metrics b) +
      of_nat (length xs) + of_int d" "flushFailures (b_metrics b) = of_nat k"
    using assms(7) ring_contents [OF assms(1)] by (auto simp: balanced_def)
  define x where "x = int (length ?batch) - int (i + f) - int (length restored)"
  have "int (length ?batch) \<le> ?mx" using assms(2) by (simp add: batch_of_def)
  then have "\<bar>x\<bar> \<le> (if err = None then 0 else ?mx)"
    using flush_outcome_slack [OF fl(2)] unfolding x_def by (auto split: if_splits)
  then have "\<bar>d + x\<bar> \<le> ?mx * int (if err = None then k else Suc k)"
    using d(1) by (auto simp: algebra_simps split: if_splits)
  moreover have "length xs = length ?batch + length (rest_of B xs)" by (metis batch_rest length_append)
  then have "acceptedEvents (b_metrics b') = bulkIndexed (b_metrics b') + bulkFailed (b_metrics b') +
      of_nat (length (restored @ rest_of B xs @ ys)) + of_int (d + x)"
    using fl(3) d(2) by (simp add: counted_def x_def)
  moreover have "flushFailures (b_metrics b') = of_nat (if err = None then k else Suc k)"
    using flush_failures [OF assms(6)] d(3) by simp
  ultimately show ?thesis using fl(1) ring_contents [OF fl(1)] unfolding balanced_def by metis
qed

lemma flush_loop_balanced:
  assumes env: "0 < cfg_MaxBatchSize (be_cfg B)" "in_int64 (cfg_RetryMinBackoff (be_cfg B))"
      "in_int64 (cfg_RetryMaxBackoff (be_cfg B))" "mono (be_cancelled B)"
    and "ring (b_queue b) xs" "flush_loop n going B send b = Some (res, b')"
      "balanced (cfg_MaxBatchSize (be_cfg B)) k b"
  shows "\<exists>k'. k \<le> k' \<and> k' \<le> Suc k \<and> balanced (cfg_MaxBatchSize (be_cfg B)) k' b'"
  using assms(5-7)
proof (induction n arbitrary: b xs)
  case (Suc n)
  show ?case
  proof (cases "going (Len (b_queue b))")
    case True
    obtain c b1 where c: "ctx_err B b = (c, b1)" by (metis surj_pair)
    then have b1: "b_queue b1 = b_queue b" "b_metrics b1 = b_metrics b" by (auto simp: ctx_err_def)
    then have bal: "balanced (cfg_MaxBatchSize (be_cfg B)) k b1" "ring (b_queue b1) xs"
      using Suc.prems(1,3) by (simp_all add: balanced_def)
    show ?thesis
    proof (cases c)
      case False
      with Suc.prems(2) True c obtain err b2 where fl: "flush B send b1 = Some (err, b2)"
        "err = None \<Longrightarrow> flush_loop n going B send b2 = Some (res, b')" "err \<noteq> None \<Longrightarrow> b' = b2"
        by (auto split: Option.bind_splits option.splits)
      note step = flush_balanced [OF bal(2) env fl(1) bal(1)]
      show ?thesis
      proof (cases err)
        case None
        with step obtain zs where "ring (b_queue b2) zs" "balanced (cfg_MaxBatchSize (be_cfg B)) k b2" by auto
        from Suc.IH [OF this(1) fl(2) [OF None] this(2)] show ?thesis .
      next
        case (Some e)
        with fl(3) step have "balanced (cfg_MaxBatchSize (be_cfg B)) (Suc k) b'" by simp
        then show ?thesis by (intro exI [of _ "Suc k"]) simp
      qed
    qed (use Suc.prems(2) True c bal in auto)
  qed (use Suc.prems in auto)
qed auto

lemma run_step_balanced:
  assumes "run_step n B send b b'" "ring (b_queue b) xs" "balanced (cfg_MaxBatchSize (be_cfg B)) k b"
    and env: "0 < cfg_MaxBatchSize (be_cfg B)" "in_int64 (cfg_RetryMinBackoff (be_cfg B))"
      "in_int64 (cfg_RetryMaxBackoff (be_cfg B))" "mono (be_cancelled B)"
  shows "\<exists>k'. k \<le> k' \<and> k' \<le> Suc k \<and> balanced (cfg_MaxBatchSize (be_cfg B)) k' b'"
proof -
  let ?mx = "cfg_MaxBatchSize (be_cfg B)"
  have depth: "balanced ?mx k (metric (SetQueueDepth d) c) = balanced ?mx k c" for c :: "'a batcher" and d k
    by (simp add: balanced_def metric_def SetQueueDepth_def)
  show ?thesis
    using assms(1)
  proof (cases rule: run_step.cases)
    case enter
    with assms(3) show ?thesis by (auto simp: balanced_def run_enter_def)
  next
    case requests
    from moves_pause [OF assms(2), of B] requests obtain ys where "moves b ys 0 0 b'"
      "flushFailures (b_metrics b') = flushFailures (b_metrics b)" by auto
    from balanced_moves [OF assms(3,2) this] show ?thesis by (meson le_Suc_eq order_refl)
  next
    case (ticker err)
    then obtain b1 where "flush_loop n (\<lambda>len. 0 < len) B send b = Some (Ended err, b1)"
      "b' = metric (SetQueueDepth (Len (b_queue b1))) b1"
      by (auto simp: run_ticker_def flushAll_def set_depth_def)
    with flush_loop_balanced [OF env assms(2) _ assms(3)] show ?thesis by (auto simp: depth)
  next
    case (notified q err)
    have r: "ring (b_queue (b\<lparr>b_queue := q\<rparr>)) xs" using recv_notify_ring [OF notified(2)] assms(2) by simp
    from balanced_frame [OF assms(3,2) this] have bal: "balanced ?mx k (b\<lparr>b_queue := q\<rparr>)" by simp
    show ?thesis
    proof (cases "Len q \<ge> ?mx")
      case True
      with notified(3) obtain b1 where
        "flush_loop n (\<lambda>len. len \<ge> ?mx) B send (b\<lparr>b_queue := q\<rparr>) = Some (Ended err, b1)"
        "b' = metric (SetQueueDepth (Len (b_queue b1))) b1"
        by (auto simp: run_notified_def flushFullBatches_def set_depth_def)
      with flush_loop_balanced [OF env r _ bal] show ?thesis by (auto simp: depth)
    next
      case False
      with notified(3) bal show ?thesis by (auto simp: run_notified_def set_depth_def depth)
    qed
  next
    case exit
    with assms(3) show ?thesis by (auto simp: balanced_def run_exit_def)
  qed
qed

end

subsection \<open>Properties\<close>

lemma counting_sender:
  assumes "bulk_sender send"
  shows "bulk_sender (counting send)"
proof -
  note laws = bulk_sender.keeps_events [OF assms] bulk_sender.retry_subseq [OF assms]
    bulk_sender.counts_nonneg [OF assms] bulk_sender.counts_exact [OF assms]
    bulk_sender.error_all_or_none [OF assms] bulk_sender.error_plain [OF assms]
  show ?thesis
    by unfold_locales (auto simp: counting_def dest: laws split: prod.splits)
qed

interpretation esc: bulk_sender "counting (Send E)" for E
  by (rule counting_sender [OF es.bulk_sender_axioms])

lemma drain_spec:
  assumes "wf_queue (b_queue b)" "0 < cfg_MaxBatchSize (be_cfg B)"
    "in_int64 (cfg_RetryMinBackoff (be_cfg B))" "in_int64 (cfg_RetryMaxBackoff (be_cfg B))"
    "mono (be_cancelled B)" "length (contents (b_queue b)) + length (offered b) < n"
  shows "\<exists>err b' ys i f. Batcher_Drain n B (Send E) b = Some (Ended err, b') \<and>
    (err = None \<longrightarrow> contents (b_queue b') = [] \<and> i + f = length (contents (b_queue b)) + length ys) \<and>
    (err \<noteq> None \<and> be_cancelled B (b_now b' - 1) \<longrightarrow>
       length (contents (b_queue b)) + length ys \<le> length (contents (b_queue b')) + (i + f)) \<and>
    (\<exists>pre. offered b = pre @ offered b' \<and> subseq ys pre) \<and>
    bulkIndexed (b_metrics b') = bulkIndexed (b_metrics b) + of_nat i \<and>
    bulkFailed (b_metrics b') = bulkFailed (b_metrics b) + of_nat f"
proof -
  have "ring (b_queue b) (contents (b_queue b))" using assms(1) by (simp only: wf_queue_def)
  from es.flush_loop_spec [OF this assms(2-5), of "\<lambda>len. 0 < len" n E]
  obtain res b' zs ys i f where run: "Batcher_Drain n B (Send E) b = Some (res, b')" "ring (b_queue b') zs"
    "counted b ys i f b'" "loop_outcome (be_cancelled B (b_now b' - 1)) res (contents (b_queue b)) ys (i + f) zs"
    "res = Ended None \<longrightarrow> \<not> 0 < int (length zs)" "res \<noteq> Running"
    using assms(6) by (auto simp: Batcher_Drain_def flushAll_def)
  then obtain err where res: "res = Ended err" by (cases res) auto
  have "err = None \<longrightarrow> zs = [] \<and> i + f = length (contents (b_queue b)) + length ys"
    "err \<noteq> None \<and> be_cancelled B (b_now b' - 1) \<longrightarrow>
       length (contents (b_queue b)) + length ys \<le> length zs + (i + f)"
    using run(4,5) res by (auto simp: loop_outcome_def)
  with run(1-3) res ring_contents [OF run(2)] show ?thesis unfolding counted_def by blast
qed

text \<open>An environment and a state for the concrete runs below.\<close>

definition witness_env :: batch_env where
  "witness_env = \<lparr>be_cfg = zero_config\<lparr>cfg_MaxBatchSize := 2, cfg_MaxRetries := 1,
       cfg_RetryMinBackoff := 1000, cfg_RetryMaxBackoff := 5000, cfg_DropPolicy := DropPolicyReject\<rparr>,
     be_cancelled = (\<lambda>n. 6 \<le> n), be_timer_first = (\<lambda>_. False), be_rand = (\<lambda>_ n. n - 1),
     be_latency = (\<lambda>_. 0)\<rparr>"

definition witness_state :: "nat client_state batcher" where
  "witness_state = new_batcher witness_queue \<lparr>cs_reads = 0, cs_world = 0\<rparr> (new_registry 0)
     [[[zero_event], [zero_event]], []]"

definition witness_counting :: "(nat \<times> nat client_state) batcher" where
  "witness_counting = new_batcher witness_queue (0, \<lparr>cs_reads = 0, cs_world = 0\<rparr>) (new_registry 0) []"

lemma witness_env_ok:
  "0 < cfg_MaxBatchSize (be_cfg witness_env)" "in_int64 (cfg_RetryMinBackoff (be_cfg witness_env))"
  "in_int64 (cfg_RetryMaxBackoff (be_cfg witness_env))" "mono (be_cancelled witness_env)"
  "wf_queue (b_queue witness_state)" "0 \<le> cfg_MaxRetries (be_cfg witness_env)"
  using witness_queue_wf
  by (auto simp: witness_env_def witness_state_def new_batcher_def in_int64_def mono_def)

text \<open>
  C3: What a flush does with its batch. Whatever the service, the random source, the requests
  beside it and the moment of the cancellation are, a flush returns; it takes the first
  \<open>MaxBatchSize\<close> queued events and leaves the rest queued in order, followed by what was admitted,
  and counted as accepted, meanwhile. It makes at most \<open>MaxRetries + 1\<close> attempts, each with what the
  one before left open, and adds to the counters of indexed and failed events what the attempts
  report. Without an error all of the batch is counted and nothing is left open. With an error all
  of it is counted except what the last attempt left open, and that too, as failed, once the
  retries are exhausted. If the context is done, exactly the events left open are put back at the
  front of the queue, in order, when the error carries events, and the whole batch, up to the identifiers
  assigned to it, when it carries none. If the context is not done nothing is put back: events
  left open by an error other than exhausted retries are then gone uncounted (see
  \<open>rejected_request_is_uncounted\<close>).
\<close>

theorem flush_accounts_for_batch:
  assumes "wf_queue (b_queue b)" "0 < cfg_MaxBatchSize (be_cfg B)"
    "in_int64 (cfg_RetryMinBackoff (be_cfg B))" "in_int64 (cfg_RetryMaxBackoff (be_cfg B))"
    "mono (be_cancelled B)"
  shows "\<exists>err b' restored ys i f rest k. flush B (Send E) b = Some (err, b') \<and> wf_queue (b_queue b') \<and>
    contents (b_queue b') = restored @ rest_of B (contents (b_queue b)) @ ys \<and>
    (\<exists>pre. offered b = pre @ offered b' \<and> subseq ys pre) \<and>
    acceptedEvents (b_metrics b') = acceptedEvents (b_metrics b) + of_nat (length ys) \<and>
    sends k (Send E) (b_sender b) (batch_of B (contents (b_queue b))) = (b_sender b', rest, int i, int f) \<and>
    attempts_ok B err (batch_of B (contents (b_queue b))) k \<and>
    bulkIndexed (b_metrics b') = bulkIndexed (b_metrics b) + of_nat i \<and>
    bulkFailed (b_metrics b') = bulkFailed (b_metrics b) + of_nat (f + given_up err rest) \<and>
    flush_outcome (be_cancelled B (b_now b' - 1)) err (batch_of B (contents (b_queue b))) rest restored
      (i + f + given_up err rest)"
proof -
  have "ring (b_queue b) (contents (b_queue b))" using assms(1) by (simp only: wf_queue_def)
  from es.flush_spec [OF this assms(2-5), of E]
  obtain err b' restored ys i f rest k where run: "flush B (Send E) b = Some (err, b')"
    "ring (b_queue b') (restored @ rest_of B (contents (b_queue b)) @ ys)"
    "sends k (Send E) (b_sender b) (batch_of B (contents (b_queue b))) = (b_sender b', rest, int i, int f)"
    "attempts_ok B err (batch_of B (contents (b_queue b))) k"
    "flush_outcome (be_cancelled B (b_now b' - 1)) err (batch_of B (contents (b_queue b))) rest restored
      (i + f + given_up err rest)" "counted b ys i (f + given_up err rest) b'" by blast
  with ring_contents [OF run(2)] ring_wf [OF run(2)] show ?thesis
    by (intro ex8I [of _ err b' restored ys i f rest k]) (simp add: counted_def)
qed

theorem flush_accounts_for_batch_witness:
  "\<exists>err b' restored ys rest k i f. flush witness_env (Send witness_client) witness_state = Some (err, b') \<and>
     contents (b_queue b') = restored @ rest_of witness_env (contents witness_queue) @ ys \<and>
     sends k (Send witness_client) \<lparr>cs_reads = 0, cs_world = 0\<rparr> (batch_of witness_env (contents witness_queue)) =
       (b_sender b', rest, i, f) \<and> 0 < k"
proof -
  have "batch_of witness_env (contents witness_queue) \<noteq> []"
    by (simp add: batch_of_def witness_env_def witness_queue_def contents_def numeral_2_eq_2)
  with flush_accounts_for_batch [OF witness_env_ok(5,1-4), of witness_client] witness_env_ok(6) show ?thesis
    by (simp add: witness_state_def new_batcher_def attempts_ok_def) blast
qed

text \<open>
  C33: A batch is sent at most \<open>MaxRetries + 1\<close> times: \<open>sendWithRetry\<close> returns, whatever the
  service answers, and calls the sender no more often than that.
\<close>

theorem sends_are_bounded:
  assumes "wf_queue (b_queue b)" "in_int64 (cfg_RetryMinBackoff (be_cfg B))"
    "in_int64 (cfg_RetryMaxBackoff (be_cfg B))"
  shows "\<exists>err p b'. sendWithRetry B (counting (Send E)) b batch = Some (err, p, b') \<and>
    fst (b_sender b') \<le> fst (b_sender b) + nat (cfg_MaxRetries (be_cfg B) + 1)"
proof -
  have "ring (b_queue b) (contents (b_queue b))" using assms(1) by (simp only: wf_queue_def)
  from esc.retry_loop_spec [OF this assms(2,3), of E batch 0]
  obtain err p b' where run: "retry_loop B (counting (Send E)) b batch 0 = Some (err, p, b')" by blast
  from retry_loop_calls [OF run] run show ?thesis by (auto simp: sendWithRetry_def)
qed

theorem sends_are_bounded_witness:
  "\<exists>err p b'. sendWithRetry witness_env (counting (Send witness_client)) witness_counting [zero_event] =
       Some (err, p, b') \<and> fst (b_sender b') \<le> 2"
  using sends_are_bounded [of witness_counting witness_env witness_client "[zero_event]"]
    witness_env_ok witness_queue_wf
  by (simp add: witness_env_def witness_counting_def new_batcher_def numeral_2_eq_2)

text \<open>
  C7: A flush of the whole queue ends, however requests go on while it runs: with as much fuel as
  there are events queued and still to be offered, \<open>Drain\<close> returns. Without an error the queue is
  then empty and every event that was queued or admitted meanwhile is counted as indexed or
  failed. If it ends with an error and the context is done, what is not counted is still queued.
\<close>

theorem drain_empties_queue:
  assumes "wf_queue (b_queue b)" "0 < cfg_MaxBatchSize (be_cfg B)"
    "in_int64 (cfg_RetryMinBackoff (be_cfg B))" "in_int64 (cfg_RetryMaxBackoff (be_cfg B))"
    "mono (be_cancelled B)" "length (contents (b_queue b)) + length (offered b) < n"
  shows "\<exists>err b' ys i f. Batcher_Drain n B (Send E) b = Some (Ended err, b') \<and>
    (err = None \<longrightarrow> contents (b_queue b') = [] \<and> i + f = length (contents (b_queue b)) + length ys) \<and>
    (err \<noteq> None \<and> be_cancelled B (b_now b' - 1) \<longrightarrow>
       length (contents (b_queue b)) + length ys \<le> length (contents (b_queue b')) + (i + f)) \<and>
    (\<exists>pre. offered b = pre @ offered b' \<and> subseq ys pre) \<and>
    bulkIndexed (b_metrics b') = bulkIndexed (b_metrics b) + of_nat i \<and>
    bulkFailed (b_metrics b') = bulkFailed (b_metrics b) + of_nat f"
  using drain_spec [OF assms, of E] .

theorem drain_empties_queue_witness:
  "\<exists>err b'. Batcher_Drain 5 witness_env (Send witness_client) witness_state = Some (Ended err, b') \<and>
     (err = None \<longrightarrow> contents (b_queue b') = [])"
proof -
  have "length (contents (b_queue witness_state)) + length (offered witness_state) < 5"
    by (simp add: witness_state_def new_batcher_def offered_def witness_queue_def contents_def)
  from drain_empties_queue [OF witness_env_ok(5,1-4) this, of witness_client] show ?thesis by blast
qed

text \<open>
  A notification flushes down to less than a batch: with enough fuel the loop over full
  batches returns, and without an error fewer than \<open>MaxBatchSize\<close> events are left in the queue.
\<close>

theorem full_batches_are_flushed:
  assumes "wf_queue (b_queue b)" "0 < cfg_MaxBatchSize (be_cfg B)"
    "in_int64 (cfg_RetryMinBackoff (be_cfg B))" "in_int64 (cfg_RetryMaxBackoff (be_cfg B))"
    "mono (be_cancelled B)" "length (contents (b_queue b)) + length (offered b) < n"
  shows "\<exists>err b'. flushFullBatches n B (Send E) b = Some (Ended err, b') \<and>
    (err = None \<longrightarrow> int (length (contents (b_queue b'))) < cfg_MaxBatchSize (be_cfg B))"
proof -
  let ?full = "\<lambda>len. cfg_MaxBatchSize (be_cfg B) \<le> len"
  have r: "ring (b_queue b) (contents (b_queue b))" using assms(1) by (simp only: wf_queue_def)
  from es.flush_loop_spec [OF r assms(2-5), of ?full n E] assms(2,6)
  obtain res b' zs where run: "flushFullBatches n B (Send E) b = Some (res, b')" "ring (b_queue b') zs"
    "res = Ended None \<longrightarrow> \<not> ?full (int (length zs))" "res \<noteq> Running"
    unfolding flushFullBatches_def by fastforce
  then obtain err where "res = Ended err" by (cases res) auto
  with run ring_contents [OF run(2)] show ?thesis by auto
qed

theorem full_batches_are_flushed_witness:
  "\<exists>err b'. flushFullBatches 5 witness_env (Send witness_client) witness_state = Some (Ended err, b') \<and>
     (err = None \<longrightarrow> length (contents (b_queue b')) < 2)"
proof -
  have "length (contents (b_queue witness_state)) + length (offered witness_state) < 5"
    by (simp add: witness_state_def new_batcher_def offered_def witness_queue_def contents_def)
  from full_batches_are_flushed [OF witness_env_ok(5,1-4) this, of witness_client] show ?thesis
    by (simp add: witness_env_def)
qed

text \<open>
  C13: The invariant of the batcher goroutine: however the arms of its \<open>select\<close>, the requests and
  the service interleave, the queue stays well formed, every queued event was queued at the start
  or offered by a request and is queued no more often than that, and once \<open>Done\<close> is closed the
  batcher is not ready any more.
\<close>

theorem run_keeps_invariant:
  assumes "wf_queue q" "0 < cfg_MaxBatchSize (be_cfg B)"
    "in_int64 (cfg_RetryMinBackoff (be_cfg B))" "in_int64 (cfg_RetryMaxBackoff (be_cfg B))"
    "mono (be_cancelled B)" "(run_step n B (Send E))\<^sup>*\<^sup>* (new_batcher q s registry arrivals) b"
  shows "wf_queue (b_queue b) \<and> (Done b \<longrightarrow> \<not> Ready b) \<and>
    (\<exists>pre ys. concat (concat arrivals) = pre @ offered b \<and> subseq ys pre \<and>
       mset (map strip (contents (b_queue b))) \<subseteq># mset (map strip (contents q @ ys)))"
proof -
  let ?b0 = "new_batcher q s registry arrivals"
  have "run_inv ?b0 (contents q) ?b0"
    using assms(1) by (intro run_inv_start) (simp_all add: new_batcher_def wf_queue_def Done_def)
  from es.run_steps_inv [OF assms(6) this assms(2-5)]
  obtain zs pre ys where "ring (b_queue b) zs" "offered ?b0 = pre @ offered b" "subseq ys pre"
    "mset (map strip zs) \<subseteq># mset (map strip (contents q @ ys))" "Done b \<longrightarrow> \<not> Ready b"
    by (auto simp: run_inv_def)
  moreover have "offered ?b0 = concat (concat arrivals)" by (simp add: offered_def new_batcher_def)
  ultimately show ?thesis by (metis ring_contents ring_wf)
qed

theorem run_keeps_invariant_witness:
  "\<exists>b. (run_step 9 witness_env (Send witness_client))\<^sup>*\<^sup>* witness_state b \<and> Ready b \<and> \<not> Done b \<and> wf_queue (b_queue b)"
proof -
  have step: "(run_step 9 witness_env (Send witness_client))\<^sup>*\<^sup>* witness_state (run_enter witness_state)"
    by (rule r_into_rtranclp, rule run_step.enter) (simp_all add: witness_state_def new_batcher_def Ready_def Done_def)
  from run_keeps_invariant [OF witness_queue_wf witness_env_ok(1-4) step [unfolded witness_state_def]] step
  show ?thesis by (auto simp: run_enter_def Ready_def Done_def witness_state_def new_batcher_def)
qed

text \<open>
  C39: Events that vanish uncounted: when the service rejects a bulk request as a whole with a
  status that is not retried (a wrong credential, a bad request), the flush fails, the batch is no
  longer queued and neither the indexed nor the failed counter has changed.
\<close>

theorem rejected_request_is_uncounted:
  assumes "wf_queue (b_queue b)" "contents (b_queue b) \<noteq> []" "0 < cfg_MaxBatchSize (be_cfg B)"
    "\<forall>n. \<not> be_cancelled B n" "0 \<le> cfg_MaxRetries (be_cfg B)"
    "Send E (b_sender b) (batch_of B (contents (b_queue b))) = ((res, Some e), p, s1)" "br_Retry res = []"
  shows "\<exists>b' ys. flush B (Send E) b = Some (Some e, b') \<and>
    contents (b_queue b') = rest_of B (contents (b_queue b)) @ ys \<and>
    bulkIndexed (b_metrics b') = bulkIndexed (b_metrics b) \<and>
    bulkFailed (b_metrics b') = bulkFailed (b_metrics b)"
proof -
  have "ring (b_queue b) (contents (b_queue b))" using assms(1) by (simp only: wf_queue_def)
  from es.flush_rejected [OF this assms(2-7)] show ?thesis
    by (auto simp: counted_def dest: ring_contents)
qed

definition denying_client :: "nat client_env" where
  "denying_client = witness_client\<lparr>ce_do := (\<lambda>w rq. (Inr \<lparr>hr_status = 401, hr_body = [], hr_bulk = None\<rparr>, w))\<rparr>"

theorem rejected_request_is_uncounted_witness:
  "\<exists>e b' ys. flush (witness_env\<lparr>be_cancelled := (\<lambda>_. False)\<rparr>) (Send denying_client) witness_state = Some (Some e, b') \<and>
     bulkIndexed (b_metrics b') = 0 \<and> bulkFailed (b_metrics b') = 0"
proof -
  let ?B = "witness_env\<lparr>be_cancelled := (\<lambda>_. False)\<rparr>"
  have "contents (b_queue witness_state) = [zero_event\<lparr>ev_Type := ''b''\<rparr>, zero_event\<lparr>ev_Type := ''c''\<rparr>]"
    by (simp add: witness_state_def new_batcher_def witness_queue_def contents_def numeral_2_eq_2)
  moreover from this have "\<exists>e p s1. Send denying_client (b_sender witness_state) (batch_of ?B (contents (b_queue witness_state)))
      = ((zero_result, Some e), p, s1)"
    by (simp add: batch_of_def witness_env_def witness_state_def new_batcher_def Send_def BuildBulkPayload_def
        EnsureDocumentID_def payload_encodable_def zero_event_def denying_client_def witness_client_def
        interpret_response_def isRetryableStatus_def numeral_2_eq_2 Let_def)
  then obtain e p s1 where "Send denying_client (b_sender witness_state) (batch_of ?B (contents (b_queue witness_state)))
      = ((zero_result, Some e), p, s1)" by blast
  ultimately show ?thesis
    using rejected_request_is_uncounted [of witness_state ?B denying_client zero_result e p s1]
      witness_env_ok
    by (auto simp: zero_result_def witness_state_def new_batcher_def new_registry_def)
qed

end
