(* ===== verification/Collector.thy ===== *)
theory Collector
  imports Batcher Geo
begin

section \<open>The process\<close>

text \<open>
  \<open>cmd/collector/main.go\<close>: the level of the log, the GeoIP reloader and the shutdown
  goroutine. What the servers, the clock and the file system do enters as arguments; logging is
  the list of what is reported.
\<close>

subsection \<open>Log levels\<close>

datatype level = LevelDebug | LevelInfo | LevelWarn | LevelError

fun level_value :: "level \<Rightarrow> int" where
  "level_value LevelDebug = -4"
| "level_value LevelInfo = 0"
| "level_value LevelWarn = 4"
| "level_value LevelError = 8"

instantiation level :: linorder
begin

definition less_eq_level :: "level \<Rightarrow> level \<Rightarrow> bool" where
  "less_eq_level a b \<longleftrightarrow> level_value a \<le> level_value b"

definition less_level :: "level \<Rightarrow> level \<Rightarrow> bool" where
  "less_level a b \<longleftrightarrow> level_value a < level_value b"

instance
proof
  fix a b :: level
  show "a \<le> b \<Longrightarrow> b \<le> a \<Longrightarrow> a = b"
    by (cases a; cases b) (simp_all add: less_eq_level_def)
qed (auto simp: less_eq_level_def less_level_def)

end

definition parseLevel :: "string \<Rightarrow> level" where
  "parseLevel raw =
     (if raw = ''debug'' then LevelDebug
      else if raw = ''warn'' then LevelWarn
      else if raw = ''error'' then LevelError
      else LevelInfo)"

text \<open>Whether the handler with the level \<open>threshold\<close> writes a record of the level \<open>l\<close>.\<close>

definition enabled :: "level \<Rightarrow> level \<Rightarrow> bool" where
  "enabled threshold l \<longleftrightarrow> threshold \<le> l"

subsection \<open>The GeoIP reloader\<close>

text \<open>
  The next midnight in UTC; \<open>time.Date\<close> takes the day after the last of a month for the first of the
  next. Times are nanoseconds since Go's zero time.
\<close>

definition durationUntilNextGeoIPReload :: "int \<Rightarrow> int" where
  "durationUntilNextGeoIPReload now = (let (y, m, d) = date_of (now div day);
         nextMidnight = days_of y m (d + 1) * day
      in nextMidnight - now)"

text \<open>What ends one pause of \<open>watchGeoIP\<close>, with what the reload finds.\<close>

datatype 'r wake = WatchCancelled | TimerFired "file_info option" "'r option" bool

datatype watch_log = ReloadedDatabase | ReloadFailedLog geo_error

fun watchGeoIP :: "'r wake list \<Rightarrow> 'r resolver \<Rightarrow> watch_log list \<times> 'r resolver" where
  "watchGeoIP [] r = ([], r)"
| "watchGeoIP (WatchCancelled # ws) r = ([], r)"
| "watchGeoIP (TimerFired stat opened closeOk # ws) r =
     (case ReloadIfChanged stat opened closeOk r of
        ((reloaded, Some err), r1) \<Rightarrow> apfst (Cons (ReloadFailedLog err)) (watchGeoIP ws r1)
      | ((reloaded, None), r1) \<Rightarrow>
          apfst (\<lambda>logs. if reloaded then ReloadedDatabase # logs else logs) (watchGeoIP ws r1))"

text \<open>The readers that \<open>maxminddb.Open\<close> would return over the pauses.\<close>

fun opened_readers :: "'r wake list \<Rightarrow> 'r list" where
  "opened_readers [] = []"
| "opened_readers (WatchCancelled # ws) = opened_readers ws"
| "opened_readers (TimerFired stat None ok # ws) = opened_readers ws"
| "opened_readers (TimerFired stat (Some reader) ok # ws) = reader # opened_readers ws"

subsection \<open>Shutdown\<close>

text \<open>
  What the shutdown goroutine meets: whether the servers shut down in time, and whether its select
  takes the arm of the timeout although or because the batcher is not done.
\<close>

record shutdown_env =
  sd_httpOk :: bool
  sd_metricsOk :: "bool option"
  sd_timedOut :: bool

datatype shutdown_log =
    HttpShutdownFailed
  | MetricsShutdownFailed
  | DrainFailed error int
  | StopTimedOut int

text \<open>
  The goroutine after the signal, \<open>b\<close> being the batcher when the select is decided and \<open>B\<close> the
  environment of \<open>Drain\<close>, with the shutdown context. A drain that has not ended within its fuel has
  no log entry.
\<close>

definition shutdown :: "nat \<Rightarrow> batch_env \<Rightarrow> 's sender \<Rightarrow> shutdown_env \<Rightarrow> 's batcher \<Rightarrow>
    (shutdown_log list \<times> 's batcher) go" where
  "shutdown n B send x b =
     (let logs = (if sd_httpOk x then [] else [HttpShutdownFailed]) @
                 (if sd_metricsOk x = Some False then [MetricsShutdownFailed] else []) in
      if sd_timedOut x then Some (logs @ [StopTimedOut (Len (b_queue b))], b)
      else do {
        (res, b1) \<leftarrow> Batcher_Drain n B send b;
        Some (logs @ (case res of
                        Ended (Some err) \<Rightarrow> [DrainFailed err (Len (b_queue b1))]
                      | _ \<Rightarrow> []), b1) })"

lemma watch_spec:
  assumes "rv_reader r \<notin> set (rv_closed r)" "distinct (opened_readers ws)"
    "set (opened_readers ws) \<inter> set (rv_reader r # rv_closed r) = {}"
  shows "rv_reader (snd (watchGeoIP ws r)) \<notin> set (rv_closed (snd (watchGeoIP ws r))) \<and>
    set (rv_closed r) \<subseteq> set (rv_closed (snd (watchGeoIP ws r))) \<and> length (fst (watchGeoIP ws r)) \<le> length ws"
  using assms
proof (induction ws r rule: watchGeoIP.induct)
  case (3 stat opened closeOk ws r)
  obtain reloaded err r1 where step: "ReloadIfChanged stat opened closeOk r = ((reloaded, err), r1)"
    by (metis prod.collapse)
  have "\<forall>x\<in>set_option opened. x \<notin> set (rv_reader r # rv_closed r)" using 3(5) by (cases opened) auto
  note swap = reload_step [OF 3(3) this step, of None True]
  have "distinct (opened_readers ws)" using 3(4) by (cases opened) simp_all
  moreover have fresh: "set (opened_readers ws) \<inter> set (rv_reader r1 # rv_closed r1) = {}"
  proof (cases reloaded)
    case True
    with swap obtain reader where "opened = Some reader" "rv_reader r1 = reader" "rv_closed r1 = rv_reader r # rv_closed r"
      by auto
    with 3(4,5) show ?thesis by auto
  next
    case False
    with swap 3(5) show ?thesis by (cases opened) auto
  qed
  moreover have "rv_reader r1 \<notin> set (rv_closed r1)" "set (rv_closed r) \<subseteq> set (rv_closed r1)"
    using swap by (auto split: if_splits)
  ultimately show ?case
    using 3(1) [OF step [symmetric] refl] 3(2) [OF step [symmetric] refl] step by (cases err) (auto simp: le_Suc_eq)
qed auto

lemma watch_cancelled: "watchGeoIP (us @ WatchCancelled # ws) r = watchGeoIP us r"
proof (induction us arbitrary: r)
  case (Cons w us)
  show ?case
  proof (cases w)
    case (TimerFired stat opened closeOk)
    obtain reloaded err r1 where "ReloadIfChanged stat opened closeOk r = ((reloaded, err), r1)"
      by (metis prod.collapse)
    with TimerFired Cons.IH [of r1] show ?thesis by (cases err) simp_all
  qed simp
qed simp

subsection \<open>Properties\<close>

text \<open>
  The reloader sleeps until the next midnight: for every clock reading the pause is positive, at
  most one day, and ends at a multiple of a day.
\<close>

theorem reload_pause_ends_at_midnight:
  "0 < durationUntilNextGeoIPReload now \<and> durationUntilNextGeoIPReload now \<le> day \<and>
   (now + durationUntilNextGeoIPReload now) mod day = 0"
proof -
  obtain y m d where date: "date_of (now div day) = (y, m, d)" by (cases "date_of (now div day)")
  have "days_of y m (d + 1) = now div day + 1" using date_of_spec [OF date] by (simp add: days_of_def)
  then have "durationUntilNextGeoIPReload now = (now div day * day + day) - now"
    by (simp add: durationUntilNextGeoIPReload_def date distrib_right)
  moreover have "now = now div day * day + now mod day" by simp
  ultimately have d: "durationUntilNextGeoIPReload now = day - now mod day" by linarith
  have "(0::int) < day" by (simp add: day_def)
  then have "0 \<le> now mod day" "now mod day < day" by auto
  moreover have "(now + (day - now mod day)) mod day = 0" by (simp add: algebra_simps mod_diff_right_eq)
  ultimately show ?thesis by (simp add: d)
qed

text \<open>
  C38: The resolver stays open for as long as the process runs: however often the reloader wakes and
  whatever it finds, the reader the lookups use is never one that has been closed, provided every
  open yields a reader of its own. A cancelled watch reloads nothing more.
\<close>

theorem watch_keeps_reader_open:
  assumes "rv_reader r \<notin> set (rv_closed r)" "distinct (opened_readers ws)"
    "set (opened_readers ws) \<inter> set (rv_reader r # rv_closed r) = {}"
  shows "rv_reader (snd (watchGeoIP ws r)) \<notin> set (rv_closed (snd (watchGeoIP ws r))) \<and>
    set (rv_closed r) \<subseteq> set (rv_closed (snd (watchGeoIP ws r))) \<and>
    length (fst (watchGeoIP ws r)) \<le> length ws \<and>
    watchGeoIP (us @ WatchCancelled # ws) r = watchGeoIP us r"
  using watch_spec [OF assms] watch_cancelled [of us ws r] by simp

theorem watch_keeps_reader_open_witness:
  "rv_reader (snd (watchGeoIP [TimerFired (Some \<lparr>fi_file = 7, fi_modTime = 200, fi_size = 10\<rparr>) (Some (2::nat)) True,
       TimerFired None (Some 3) True] witness_resolver)) = 2 \<and>
   2 \<notin> set (rv_closed (snd (watchGeoIP [TimerFired (Some \<lparr>fi_file = 7, fi_modTime = 200, fi_size = 10\<rparr>) (Some 2) True,
       TimerFired None (Some 3) True] witness_resolver)))"
proof -
  let ?ws = "[TimerFired (Some \<lparr>fi_file = 7, fi_modTime = 200, fi_size = 10\<rparr>) (Some (2::nat)) True, TimerFired None (Some 3) True]"
  have reader: "rv_reader (snd (watchGeoIP ?ws witness_resolver)) = 2"
    by (simp add: ReloadIfChanged_def witness_resolver_def)
  have "rv_reader witness_resolver \<notin> set (rv_closed witness_resolver)" "distinct (opened_readers ?ws)"
    "set (opened_readers ?ws) \<inter> set (rv_reader witness_resolver # rv_closed witness_resolver) = {}"
    by (simp_all add: witness_resolver_def)
  from watch_keeps_reader_open [OF this, of "[]"] reader show ?thesis by metis
qed

text \<open>
  Shutdown loses nothing silently: once the batcher has stopped, the goroutine returns, however
  the service answers; if its drain and its wait for the batcher report nothing, the queue is empty.
\<close>

theorem quiet_shutdown_empties_queue:
  assumes "wf_queue (b_queue b)" "0 < cfg_MaxBatchSize (be_cfg B)"
    "in_int64 (cfg_RetryMinBackoff (be_cfg B))" "in_int64 (cfg_RetryMaxBackoff (be_cfg B))"
    "mono (be_cancelled B)" "length (contents (b_queue b)) + length (offered b) < n"
  shows "\<exists>logs b'. shutdown n B (Send E) x b = Some (logs, b') \<and>
    (contents (b_queue b') = [] \<or> (\<exists>len. StopTimedOut len \<in> set logs) \<or> (\<exists>err len. DrainFailed err len \<in> set logs))"
proof -
  obtain err b' where "Batcher_Drain n B (Send E) b = Some (Ended err, b')"
    "err = None \<longrightarrow> contents (b_queue b') = []"
    using drain_spec [OF assms, of E] by blast
  then show ?thesis by (cases err) (auto simp: shutdown_def Let_def)
qed

theorem quiet_shutdown_empties_queue_witness:
  "\<exists>logs b'. shutdown 5 witness_env (Send witness_client) \<lparr>sd_httpOk = True, sd_metricsOk = None, sd_timedOut = False\<rparr>
     witness_state = Some (logs, b') \<and>
     (contents (b_queue b') = [] \<or> (\<exists>len. StopTimedOut len \<in> set logs) \<or> (\<exists>err len. DrainFailed err len \<in> set logs))"
proof -
  have "length (contents (b_queue witness_state)) + length (offered witness_state) < 5"
    by (simp add: witness_state_def new_batcher_def offered_def witness_queue_def contents_def)
  from quiet_shutdown_empties_queue [OF witness_env_ok(5,1-4) this] show ?thesis .
qed

end
