(* ===== verification/System.thy ===== *)
theory System
  imports Http_Api Collector
begin

section \<open>The collector as a whole\<close>

text \<open>
  \<open>cmd/collector/main.go\<close>, the start of the process, and the components together: the request
  handlers, the batcher and the GeoIP reloader as steps of one state. The queue and the registry
  are shared; they are those of the batcher's state, and a handler sees them through \<open>server_of\<close>.
  While the batcher sends, requests run beside it: a step of the batcher takes as its arrivals any
  batches that the handler's checks let through.
\<close>

record ('s, 'r) collector =
  co_batcher :: "'s batcher"
  co_limiter :: "rateLimiter option"
  co_zones :: "string set"
  co_resolver :: "'r resolver"

datatype start_error = ConfigFailed config_error | ResolverFailed geo_error

definition server_of :: "('s, 'r) collector \<Rightarrow> server" where
  "server_of c = \<lparr>sv_queue = b_queue (co_batcher c), sv_metrics = b_metrics (co_batcher c),
     sv_limiter = co_limiter c, sv_zones = co_zones c\<rparr>"

definition put_server :: "server \<Rightarrow> ('s, 'r) collector \<Rightarrow> ('s, 'r) collector" where
  "put_server sv c = c\<lparr>co_batcher := (co_batcher c)\<lparr>b_queue := sv_queue sv, b_metrics := sv_metrics sv\<rparr>,
     co_limiter := sv_limiter sv, co_zones := sv_zones sv\<rparr>"

text \<open>From the configuration to the server; \<open>opened\<close> and \<open>stat\<close> are what the file system answers.\<close>

definition start_collector :: "host \<Rightarrow> string \<Rightarrow> env \<Rightarrow> 'r option \<Rightarrow> file_info option \<Rightarrow> 's \<Rightarrow> int \<Rightarrow>
    (start_error + config \<times> ('s, 'r) collector) go" where
  "start_collector H version env opened stat sender now =
     (case Load H version env of
        Inl err \<Rightarrow> Some (Inl (ConfigFailed err))
      | Inr cfg \<Rightarrow> do {
          let registry = new_registry now;
          q \<leftarrow> new_queue (cfg_MaxQueueSize cfg);
          (case new_resolver opened stat of
             Inl err \<Rightarrow> Some (Inl (ResolverFailed err))
           | Inr resolver \<Rightarrow>
               let b = new_batcher q sender registry []; sv = new_server cfg q registry in
               Some (Inr (cfg, \<lparr>co_batcher = b, co_limiter = sv_limiter sv, co_zones = sv_zones sv,
                                co_resolver = resolver\<rparr>))) })"

text \<open>The exit code: a configuration, a database or a server that fails is 1.\<close>

definition exit_code :: "start_error + 'c \<Rightarrow> bool \<Rightarrow> int" where
  "exit_code started serveFailed = (case started of Inl err \<Rightarrow> 1 | Inr c \<Rightarrow> if serveFailed then 1 else 0)"

subsection \<open>Steps\<close>

definition request_env :: "host \<Rightarrow> config \<Rightarrow> (string \<Rightarrow> geo_result option) \<Rightarrow> server_env" where
  "request_env H cfg lookup = \<lparr>se_cfg = cfg, se_host = H, se_lookup = lookup\<rparr>"

text \<open>A batch that the checks of some request let through, at some moment.\<close>

definition screened :: "host \<Rightarrow> config \<Rightarrow> event list \<Rightarrow> bool" where
  "screened H cfg batch \<longleftrightarrow> (\<exists>lookup r body es now zones zones'. cache_ok H zones \<and>
     screen_request (request_env H cfg lookup) r body = Inr es \<and>
     screen_batch (request_env H cfg lookup) r now zones es = (Inr batch, zones'))"

inductive collector_step :: "nat \<Rightarrow> host \<Rightarrow> 'r geo_library \<Rightarrow> batch_env \<Rightarrow> 's sender \<Rightarrow>
    ('s, 'r) collector \<Rightarrow> ('s, 'r) collector \<Rightarrow> bool"
  for n H L B send where
  request: "handleCollect (request_env H (be_cfg B) (Lookup L (co_resolver c))) limitNow now r body (server_of c) =
      Some (rep, sv) \<Longrightarrow> collector_step n H L B send c (put_server sv c)"
| batch: "\<forall>batches\<in>set arrivals. \<forall>batch\<in>set batches. screened H (be_cfg B) batch \<Longrightarrow>
    run_step n B send ((co_batcher c)\<lparr>b_arrivals := arrivals\<rparr>) b \<Longrightarrow>
    collector_step n H L B send c (c\<lparr>co_batcher := b\<rparr>)"
| reload: "ReloadIfChanged stat opened closeOk (co_resolver c) = (res, resolver) \<Longrightarrow>
    collector_step n H L B send c (c\<lparr>co_resolver := resolver\<rparr>)"

inductive_cases collector_stepE: "collector_step n H L B send c c'"

subsection \<open>What is queued\<close>

text \<open>
  The promise about every queued event: it is valid, its origin is one of its site, it came through
  an allowed domain and names the version that took it in.
\<close>

definition queueable :: "host \<Rightarrow> config \<Rightarrow> event \<Rightarrow> bool" where
  "queueable H cfg e \<longleftrightarrow> event_valid H cfg e \<and> originAllowedForSite H cfg (ev_SiteID e) (ev_Origin e) \<and>
     AllowedDomain H cfg (ev_RequestDomain e) \<and> ev_CollectorVersion e = cfg_CollectorVersion cfg"

lemma queueable_strip: "queueable H cfg (strip e) = queueable H cfg e"
  by (simp add: queueable_def strip_def event_valid_def)

lemma admissible_queueable:
  assumes "admissible E (NewRequestMetadata (se_host E) r (se_cfg E)) e"
    "AllowedDomain (se_host E) (se_cfg E) (rm_requestDomain (NewRequestMetadata (se_host E) r (se_cfg E)))"
  shows "queueable (se_host E) (se_cfg E) e"
  using assms by (auto simp: admissible_def queueable_def NewRequestMetadata_def Let_def)

lemma screened_queueable:
  assumes "screened H cfg batch" "e \<in> set batch"
  shows "queueable H cfg e"
proof -
  obtain lookup r body es now zones zones' where s: "cache_ok H zones"
    "screen_request (request_env H cfg lookup) r body = Inr es"
    "screen_batch (request_env H cfg lookup) r now zones es = (Inr batch, zones')"
    using assms(1) by (auto simp: screened_def)
  let ?E = "request_env H cfg lookup"
  have "\<forall>e\<in>set es. ev_DocumentID e = []" using screen_request_spec(1) [OF s(2) refl] by blast
  from screen_batch_spec [OF _ s(3) this] s(1) assms(2)
  have "admissible ?E (NewRequestMetadata (se_host ?E) r (se_cfg ?E)) e"
    "AllowedDomain (se_host ?E) (se_cfg ?E) (rm_requestDomain (NewRequestMetadata (se_host ?E) r (se_cfg ?E)))"
    by (auto simp: request_env_def list_all_iff)
  from admissible_queueable [OF this] show ?thesis by (simp add: request_env_def)
qed

text \<open>A queue whose events are, up to identifiers, among those of another list.\<close>

lemma queueable_subset:
  assumes "mset (map strip zs) \<subseteq># mset (map strip ys)" "\<forall>y\<in>set ys. queueable H cfg y"
  shows "\<forall>z\<in>set zs. queueable H cfg z"
proof
  fix z assume "z \<in> set zs"
  then have "strip z \<in> set (map strip ys)" using assms(1) by (metis image_eqI mset_subset_eqD set_map set_mset_mset)
  then obtain y where "y \<in> set ys" "strip y = strip z" by auto
  then show "queueable H cfg z" using assms(2) queueable_strip by metis
qed

definition collector_inv :: "host \<Rightarrow> config \<Rightarrow> ('s, 'r) collector \<Rightarrow> bool" where
  "collector_inv H cfg c \<longleftrightarrow> wf_queue (b_queue (co_batcher c)) \<and>
     (\<forall>e\<in>set (contents (b_queue (co_batcher c))). queueable H cfg e) \<and> cache_ok H (co_zones c) \<and>
     (Done (co_batcher c) \<longrightarrow> \<not> Ready (co_batcher c))"

text \<open>What the proofs need of the configuration and of the context.\<close>

definition env_ok :: "batch_env \<Rightarrow> bool" where
  "env_ok B \<longleftrightarrow> 0 < cfg_MaxBatchSize (be_cfg B) \<and> in_int64 (cfg_RetryMinBackoff (be_cfg B)) \<and>
     in_int64 (cfg_RetryMaxBackoff (be_cfg B)) \<and> mono (be_cancelled B)"

lemma config_env_ok: "config_ok (be_cfg B) \<Longrightarrow> mono (be_cancelled B) \<Longrightarrow> env_ok B"
  by (auto simp: config_ok_def env_ok_def in_int64_def max_int64_def)

lemma collector_inv_request:
  assumes "collector_inv H (be_cfg B) c"
  shows "\<exists>rep sv. handleCollect (request_env H (be_cfg B) lookup) limitNow now r body (server_of c) = Some (rep, sv) \<and>
    collector_inv H (be_cfg B) (put_server sv c)"
proof -
  let ?E = "request_env H (be_cfg B) lookup"
  have wf: "wf_queue (sv_queue (server_of c))" and zones: "cache_ok (se_host ?E) (sv_zones (server_of c))"
    using assms by (simp_all add: collector_inv_def server_of_def request_env_def)
  show ?thesis
    using wf zones
  proof (cases rule: handleCollect_cases [where E = "?E" and r = r and sv = "server_of c" and
        limitNow = limitNow and now = now and body = body])
    case (rejected rep sv)
    then have "rp_status rep \<noteq> 202" by auto
    with rejected assms show ?thesis
      by (auto simp: collector_inv_def stored_def put_server_def server_of_def request_env_def Done_def Ready_def)
  next
    case (admitted rep sv es batch)
    have "list_all (queueable H (be_cfg B)) batch"
      using admitted(8,9) admissible_queueable [of ?E r] by (auto simp: list_all_iff request_env_def)
    moreover have "set (contents (sv_queue sv)) \<subseteq> set (contents (b_queue (co_batcher c))) \<union> set batch"
      using admitted(3) by (auto simp: stored_def server_of_def Let_def split: if_splits dest: in_set_takeD)
    ultimately have "\<forall>e\<in>set (contents (sv_queue sv)). queueable H (be_cfg B) e"
      using assms by (auto simp: collector_inv_def list_all_iff)
    with admitted assms show ?thesis
      by (auto simp: collector_inv_def stored_def put_server_def server_of_def request_env_def Done_def Ready_def)
  qed
qed

text \<open>The batcher's invariant is the collector's, when what is offered to it has been screened.\<close>

lemma collector_inv_run:
  assumes "collector_inv H cfg c" "\<forall>batches\<in>set arrivals. \<forall>batch\<in>set batches. screened H cfg batch"
    "run_inv ((co_batcher c)\<lparr>b_arrivals := arrivals\<rparr>) (contents (b_queue (co_batcher c))) b"
  shows "collector_inv H cfg (c\<lparr>co_batcher := b\<rparr>)"
proof -
  let ?xs = "contents (b_queue (co_batcher c))"
  obtain zs pre ys where step: "ring (b_queue b) zs" "concat (concat arrivals) = pre @ offered b" "subseq ys pre"
    "mset (map strip zs) \<subseteq># mset (map strip (?xs @ ys))" "Done b \<longrightarrow> \<not> Ready b"
    using assms(3) by (auto simp: run_inv_def offered_def)
  have "set ys \<subseteq> set pre" using step(3) by (auto elim: list_emb_set)
  then have "set ys \<subseteq> set (concat (concat arrivals))" unfolding step(2) by auto
  moreover have "\<forall>e\<in>set (concat (concat arrivals)). queueable H cfg e"
    using assms(2) screened_queueable by (simp only: set_concat) blast
  ultimately have "\<forall>e\<in>set (?xs @ ys). queueable H cfg e"
    using assms(1) by (auto simp: collector_inv_def)
  from queueable_subset [OF step(4) this] step(1,5) assms(1) show ?thesis
    by (auto simp: collector_inv_def dest: ring_contents ring_wf)
qed

lemma collector_inv_start_run:
  "collector_inv H cfg c \<Longrightarrow>
     run_inv ((co_batcher c)\<lparr>b_arrivals := arrivals\<rparr>) (contents (b_queue (co_batcher c))) ((co_batcher c)\<lparr>b_arrivals := arrivals\<rparr>)"
  unfolding run_inv_def collector_inv_def wf_queue_def
  by (intro exI [of _ "contents (b_queue (co_batcher c))"] exI [of _ "[]"]) (simp add: Done_def Ready_def)

context bulk_sender begin

lemma collector_inv_step:
  assumes "collector_step n H L B send c c'" "collector_inv H (be_cfg B) c" "env_ok B"
  shows "collector_inv H (be_cfg B) c'"
  using assms(1)
proof (cases rule: collector_step.cases)
  case (request limitNow now r body rep sv)
  with collector_inv_request [OF assms(2)] show ?thesis by (metis option.inject prod.inject)
next
  case (batch arrivals b)
  from run_step_inv [OF batch(3) collector_inv_start_run [OF assms(2)]] assms(3)
  show ?thesis unfolding batch(1) by (intro collector_inv_run [OF assms(2) batch(2)]) (simp add: env_ok_def)
next
  case reload
  with assms(2) show ?thesis by (simp add: collector_inv_def)
qed

lemma collector_inv_steps:
  assumes "(collector_step n H L B send)\<^sup>*\<^sup>* c c'" "collector_inv H (be_cfg B) c" "env_ok B"
  shows "collector_inv H (be_cfg B) c'"
  using assms(1,2) by (induction rule: rtranclp_induct) (auto intro: collector_inv_step [OF _ _ assms(3)])

end

subsection \<open>The books of the collector\<close>

text \<open>What a request does beside the batcher is what its handler does.\<close>

lemma offer_is_store:
  "store_events E headers batch sv = Some (rep, sv') \<Longrightarrow>
     offer (se_cfg E) batch (sv_queue sv, sv_metrics sv) = Some (sv_queue sv', sv_metrics sv')"
  by (auto simp: store_events_def offer_def sv_metric_def Let_def split: if_splits Option.bind_splits)

lemma store_events_books:
  assumes "store_events E headers batch sv = Some (rep, sv')" "ring (sv_queue sv) xs"
  shows "\<exists>ys. ring (sv_queue sv') (xs @ ys) \<and> admits (sv_metrics sv) (length ys) (sv_metrics sv')"
  using offer_ring [OF assms(2), of "se_cfg E" batch "sv_metrics sv"] offer_is_store [OF assms(1)] by auto

lemma handleCollect_books:
  assumes "handleCollect E limitNow now r body sv = Some (rep, sv')" "ring (sv_queue sv) xs"
  shows "\<exists>ys. ring (sv_queue sv') (xs @ ys) \<and> admits (sv_metrics sv) (length ys) (sv_metrics sv')"
proof -
  have same: "\<exists>ys. ring (sv_queue s) (xs @ ys) \<and> admits (sv_metrics sv) (length ys) (sv_metrics s)"
    if "reject_with headers rej s0 = Some (rep, s)" "sv_queue s0 = sv_queue sv" "sv_metrics s0 = sv_metrics sv"
    for headers rej s0 s
  proof -
    have "ring (sv_queue s) (xs @ [])" "admits (sv_metrics sv) (length ([] :: event list)) (sv_metrics s)"
      using that assms(2) by (auto simp: reject_with_def sv_metric_def admits_def IncRejected_def)
    then show ?thesis by blast
  qed
  obtain ok limiter where allow: "Allow (sv_limiter sv) (ClientIP r (cfg_TrustProxyHeaders (se_cfg E))) limitNow = (ok, limiter)"
    by (metis surj_pair)
  show ?thesis
  proof (cases "ok \<and> (\<exists>batch enriched zones. screen_request E r body = Inr batch \<and>
      screen_batch E r now (sv_zones sv) batch = (Inr enriched, zones))")
    case True
    then obtain batch enriched zones where s: "ok" "screen_request E r body = Inr batch"
      "screen_batch E r now (sv_zones sv) batch = (Inr enriched, zones)" by blast
    have "store_events E (json_header @ setCORS E r) enriched (sv\<lparr>sv_limiter := limiter, sv_zones := zones\<rparr>) = Some (rep, sv')"
      using assms(1) s allow by (simp add: handleCollect_def Let_def)
    from store_events_books [OF this] assms(2) show ?thesis by simp
  next
    case False
    with assms(1) allow obtain rej s0 where "reject_with (json_header @ setCORS E r) rej s0 = Some (rep, sv')"
      "sv_queue s0 = sv_queue sv" "sv_metrics s0 = sv_metrics sv"
      by (auto simp: handleCollect_def Let_def split: if_splits sum.splits prod.splits)
    then show ?thesis by (rule same)
  qed
qed

text \<open>Each step adds at most one failed flush.\<close>

definition books :: "batch_env \<Rightarrow> nat \<Rightarrow> ('s, 'r) collector \<Rightarrow> bool" where
  "books B k c = balanced (cfg_MaxBatchSize (be_cfg B)) k (co_batcher c)"

context bulk_sender begin

lemma books_step:
  assumes "collector_step n H L B send c c'" "collector_inv H (be_cfg B) c" "env_ok B" "books B k c"
  shows "\<exists>k'. k \<le> k' \<and> k' \<le> Suc k \<and> books B k' c'"
proof -
  have r: "ring (b_queue (co_batcher c)) (contents (b_queue (co_batcher c)))"
    using assms(2) by (simp add: collector_inv_def wf_queue_def)
  show ?thesis
    using assms(1)
  proof (cases rule: collector_step.cases)
    case (request limitNow now r body rep sv)
    then obtain ys where ys: "ring (sv_queue sv) (contents (b_queue (co_batcher c)) @ ys)"
      "admits (b_metrics (co_batcher c)) (length ys) (sv_metrics sv)"
      using handleCollect_books [OF request(2), of "contents (b_queue (co_batcher c))"] \<open>ring _ _\<close>
      by (auto simp: server_of_def)
    with assms(4) ring_contents [OF ys(1)] have "books B k c'"
      by (auto simp: request(1) books_def balanced_def admits_def put_server_def algebra_simps)
    then show ?thesis by (meson le_Suc_eq order_refl)
  next
    case (batch arrivals b)
    have "ring (b_queue ((co_batcher c)\<lparr>b_arrivals := arrivals\<rparr>)) (contents (b_queue (co_batcher c)))"
      "balanced (cfg_MaxBatchSize (be_cfg B)) k ((co_batcher c)\<lparr>b_arrivals := arrivals\<rparr>)"
      using r assms(4) by (simp_all add: books_def balanced_def)
    from run_step_balanced [OF batch(3) this] assms(3) show ?thesis
      by (simp add: batch(1) books_def env_ok_def)
  next
    case reload
    with assms(4) show ?thesis by (auto simp: books_def)
  qed
qed

lemma books_steps:
  assumes "(collector_step n H L B send ^^ m) c c'" "collector_inv H (be_cfg B) c" "env_ok B" "books B k c"
  shows "\<exists>k'. k' \<le> k + m \<and> books B k' c'"
  using assms(1)
proof (induction m arbitrary: c')
  case 0
  with assms(4) show ?case by auto
next
  case (Suc m)
  then obtain c1 where c1: "(collector_step n H L B send ^^ m) c c1" "collector_step n H L B send c1 c'" by auto
  obtain k1 where k1: "k1 \<le> k + m" "books B k1 c1" using Suc.IH [OF c1(1)] by blast
  have "collector_inv H (be_cfg B) c1"
    using collector_inv_steps [OF relpowp_imp_rtranclp [OF c1(1)] assms(2,3)] .
  from books_step [OF c1(2) this assms(3) k1(2)] obtain k2 where "k2 \<le> Suc k1" "books B k2 c'" by blast
  with k1(1) show ?case by (intro exI [of _ k2]) simp
qed

end

lemma start_collector_cases:
  assumes "start_collector H version env opened stat s now = Some (Inr (cfg, c))"
  obtains q where "Load H version env = Inr cfg" "new_queue (cfg_MaxQueueSize cfg) = Some q"
    "co_batcher c = new_batcher q s (new_registry now) []" "co_zones c = {}"
  using assms that
  by (cases "new_resolver opened stat")
    (auto simp: start_collector_def new_server_def Let_def bind_eq_Some_conv split: sum.splits)

lemma start_collector_inv:
  assumes "start_collector H version env opened stat s now = Some (Inr (cfg, c))"
  shows "config_ok cfg \<and> collector_inv H cfg c"
  using assms
proof (cases rule: start_collector_cases)
  case (1 q)
  have cfg: "config_ok cfg" using Load_spec [OF 1(1)] by simp
  then have "0 \<le> cfg_MaxQueueSize cfg" by (simp add: config_ok_def)
  then have "ring q []" using new_queue_ring 1(2) by (metis option.inject)
  then have "wf_queue q" "contents q = []" using ring_wf_contents by blast+
  with 1 cfg show ?thesis by (simp add: collector_inv_def new_batcher_def cache_ok_def Done_def Ready_def)
qed

text \<open>Behind \<open>Normalize\<close> nothing changes the two times of an event.\<close>

lemma enriched_times:
  "ev_Timestamp (ApplyFieldLimits H cfg (Enrich H cfg m now e)) = ev_Timestamp (Normalize now e)"
  "ev_ReceivedAt (ApplyFieldLimits H cfg (Enrich H cfg m now e)) = now"
  by (simp_all add: ApplyFieldLimits_def enrich_defs Let_def)

definition document_time :: "int \<Rightarrow> event \<Rightarrow> int" where
  "document_time now e = (if in_calendar (stamp_of now e) then stamp_of now e else now)"

lemma TimestampValue_stamp:
  assumes "ev_Timestamp e' = ev_Timestamp (Normalize now e)" "ev_ReceivedAt e' = now"
  shows "TimestampValue e' = document_time now e"
  using assms by (simp add: document_time_def TimestampValue_def Normalize_stamp parse_format)

lemma start_collector_books:
  assumes "start_collector H version env opened stat s now = Some (Inr (cfg, c))" "be_cfg B = cfg"
  shows "books B 0 c"
  using assms(1)
proof (cases rule: start_collector_cases)
  case (1 q)
  have "config_ok cfg" using Load_spec [OF 1(1)] by simp
  then have "0 \<le> cfg_MaxQueueSize cfg" by (simp add: config_ok_def)
  then have "ring q []" using new_queue_ring 1(2) by (metis option.inject)
  then have "contents q = []" using ring_wf_contents by blast
  with 1 show ?thesis by (simp add: books_def balanced_def new_batcher_def new_registry_def)
qed

subsection \<open>Properties\<close>

text \<open>
  C1: Only sound events are ever queued or sent. A collector whose configuration loads keeps, however
  requests, the batcher and the GeoIP reloads interleave and whatever the service, the clients and
  the clock do, a well-formed queue in which every event is valid, has an origin of its site, came
  through an allowed domain and names the collector's version; hence so is each batch a flush takes.
\<close>

theorem only_sound_events_are_sent:
  assumes "start_collector H version env opened stat s now = Some (Inr (cfg, c0))" "be_cfg B = cfg"
    "mono (be_cancelled B)" "(collector_step n H L B (Send C))\<^sup>*\<^sup>* c0 c"
  shows "wf_queue (b_queue (co_batcher c)) \<and>
    list_all (queueable H cfg) (contents (b_queue (co_batcher c))) \<and>
    list_all (queueable H cfg) (batch_of B (contents (b_queue (co_batcher c))))"
proof -
  have "collector_inv H (be_cfg B) c0" "env_ok B"
    using start_collector_inv [OF assms(1)] assms(2,3) config_env_ok by auto
  from es.collector_inv_steps [OF assms(4) this] assms(2) show ?thesis
    by (auto simp: collector_inv_def list_all_iff batch_of_def dest: in_set_takeD)
qed

lemma witness_starts:
  "\<exists>cfg c. start_collector witness_host ''v1'' witness_environ (Some (1::nat)) (Some \<lparr>fi_file = 7, fi_modTime = 100, fi_size = 10\<rparr>)
     \<lparr>cs_reads = 0, cs_world = (0::nat)\<rparr> 0 = Some (Inr (cfg, c))"
proof -
  obtain cfg where load: "Load witness_host ''v1'' witness_environ = Inr cfg" using witness_loads by blast
  then have "0 \<le> cfg_MaxQueueSize cfg" using Load_spec [OF load] by (simp add: config_ok_def)
  then obtain q where "new_queue (cfg_MaxQueueSize cfg) = Some q" using new_queue_ring by blast
  with load show ?thesis by (simp add: start_collector_def new_resolver_def Let_def)
qed

theorem only_sound_events_are_sent_witness:
  "\<exists>cfg c0 c. start_collector witness_host ''v1'' witness_environ (Some (1::nat)) (Some \<lparr>fi_file = 7, fi_modTime = 100, fi_size = 10\<rparr>)
       \<lparr>cs_reads = 0, cs_world = (0::nat)\<rparr> 0 = Some (Inr (cfg, c0)) \<and>
     (collector_step 9 witness_host \<lparr>gl_parseAddr = (\<lambda>_. False), gl_lookup = (\<lambda>_ _. None)\<rparr>
       (witness_env\<lparr>be_cfg := cfg\<rparr>) (Send witness_client))\<^sup>*\<^sup>* c0 c \<and> Ready (co_batcher c) \<and>
     wf_queue (b_queue (co_batcher c)) \<and> list_all (queueable witness_host cfg) (contents (b_queue (co_batcher c)))"
proof -
  let ?L = "\<lparr>gl_parseAddr = (\<lambda>_. False), gl_lookup = (\<lambda>_ _. None)\<rparr> :: nat geo_library"
  obtain cfg c0 where start: "start_collector witness_host ''v1'' witness_environ (Some (1::nat))
      (Some \<lparr>fi_file = 7, fi_modTime = 100, fi_size = 10\<rparr>) \<lparr>cs_reads = 0, cs_world = (0::nat)\<rparr> 0 = Some (Inr (cfg, c0))"
    using witness_starts by blast
  let ?B = "witness_env\<lparr>be_cfg := cfg\<rparr>" and ?c = "c0\<lparr>co_batcher := run_enter ((co_batcher c0)\<lparr>b_arrivals := []\<rparr>)\<rparr>"
  have "\<not> Ready (co_batcher c0)" "\<not> Done (co_batcher c0)"
    using start by (auto elim!: start_collector_cases simp: new_batcher_def Ready_def Done_def)
  then have "run_step 9 ?B (Send witness_client) ((co_batcher c0)\<lparr>b_arrivals := []\<rparr>)
      (run_enter ((co_batcher c0)\<lparr>b_arrivals := []\<rparr>))"
    by (intro run_step.enter) (simp_all add: Ready_def Done_def)
  then have step: "(collector_step 9 witness_host ?L ?B (Send witness_client))\<^sup>*\<^sup>* c0 ?c"
    by (intro r_into_rtranclp collector_step.batch) simp_all
  have "be_cfg ?B = cfg" "mono (be_cancelled ?B)" using witness_env_ok(4) by simp_all
  from only_sound_events_are_sent [OF start this step] start step show ?thesis
    by (intro exI [of _ cfg] exI [of _ c0] exI [of _ ?c]) (simp add: run_enter_def Ready_def)
qed

text \<open>
  C20: Nothing in the collector panics or blocks for good: in every state it reaches, each request is
  answered, whatever its headers, body and clock readings are, and each flush of the batcher returns.
\<close>

theorem collector_always_answers:
  assumes "start_collector H version env opened stat s now = Some (Inr (cfg, c0))" "be_cfg B = cfg"
    "mono (be_cancelled B)" "(collector_step n H L B (Send C))\<^sup>*\<^sup>* c0 c"
  shows "(\<exists>rep sv. handleCollect (request_env H cfg (Lookup L (co_resolver c))) limitNow now' r body (server_of c) = Some (rep, sv)) \<and>
    (\<exists>err b. flush B (Send C) (co_batcher c) = Some (err, b))"
proof -
  have ok: "collector_inv H (be_cfg B) c0" "env_ok B"
    using start_collector_inv [OF assms(1)] assms(2,3) config_env_ok by auto
  from es.collector_inv_steps [OF assms(4) this] have inv: "collector_inv H (be_cfg B) c" .
  then have "ring (b_queue (co_batcher c)) (contents (b_queue (co_batcher c)))"
    by (simp add: collector_inv_def wf_queue_def)
  from es.flush_spec [OF this, of B C] ok(2) collector_inv_request [OF inv] assms(2) show ?thesis
    unfolding env_ok_def by blast
qed

theorem collector_always_answers_witness:
  "\<exists>cfg c0. start_collector witness_host ''v1'' witness_environ (Some (1::nat)) (Some \<lparr>fi_file = 7, fi_modTime = 100, fi_size = 10\<rparr>)
       \<lparr>cs_reads = 0, cs_world = (0::nat)\<rparr> 0 = Some (Inr (cfg, c0)) \<and>
     (\<exists>err b. flush (witness_env\<lparr>be_cfg := cfg\<rparr>) (Send witness_client) (co_batcher c0) = Some (err, b))"
proof -
  obtain cfg c0 where start: "start_collector witness_host ''v1'' witness_environ (Some (1::nat))
      (Some \<lparr>fi_file = 7, fi_modTime = 100, fi_size = 10\<rparr>) \<lparr>cs_reads = 0, cs_world = (0::nat)\<rparr> 0 = Some (Inr (cfg, c0))"
    using witness_starts by blast
  have "be_cfg (witness_env\<lparr>be_cfg := cfg\<rparr>) = cfg" "mono (be_cancelled (witness_env\<lparr>be_cfg := cfg\<rparr>))"
    using witness_env_ok(4) by simp_all
  moreover have "(collector_step 9 witness_host \<lparr>gl_parseAddr = (\<lambda>_. False), gl_lookup = (\<lambda>_ _. None)\<rparr>
      (witness_env\<lparr>be_cfg := cfg\<rparr>) (Send witness_client))\<^sup>*\<^sup>* c0 c0" by simp
  ultimately show ?thesis using collector_always_answers [OF start] start by blast
qed

text \<open>
  C30: The times of a document: an event that is normalised, enriched and limited at some moment is
  indexed under the instant of the client's timestamp, if that can be read and its year has four
  digits in UTC, and else under the moment it was received. The document's time can be read again
  if the year of the client's instant or that of the clock has four digits in UTC, and the time of
  receipt if that of the clock has: with a clock inside the years 0 to 9999 both can.
\<close>

theorem document_times:
  fixes now :: int
  shows "build_document H (ApplyFieldLimits H' cfg (Enrich H' cfg m now e)) ''@timestamp'' =
      Some (DString (format_time (document_time now e))) \<and>
    build_document H (ApplyFieldLimits H' cfg (Enrich H' cfg m now e)) ''received_at'' = Some (DString (format_time now)) \<and>
    parse_time (format_time (document_time now e)) =
      (if in_calendar (stamp_of now e) \<or> in_calendar now then Some (document_time now e) else None) \<and>
    parse_time (format_time now) = (if in_calendar now then Some now else None)"
proof -
  have "build_document H e' ''@timestamp'' = base_document e' ''@timestamp''"
    "build_document H e' ''received_at'' = base_document e' ''received_at''" for e'
    by (simp_all add: build_document_envelope dom_base_document base_keys_def)
  moreover have "TimestampValue (ApplyFieldLimits H' cfg (Enrich H' cfg m now e)) = document_time now e"
    by (rule TimestampValue_stamp) (simp_all only: enriched_times)
  ultimately show ?thesis
    unfolding parse_format by (simp add: base_document_def document_time_def enriched_times)
qed

text \<open>
  C6: The books balance: in every state that a started collector reaches, the accepted events are those
  indexed, those failed and those queued, up to a batch for each flush failure the registry counts;
  so they balance exactly as long as no flush has failed. (Within \<open>2 ^ 64\<close> steps the counter of
  failures does not wrap; the others may.)
\<close>

theorem books_balance:
  assumes "start_collector H version env opened stat s now = Some (Inr (cfg, c0))" "be_cfg B = cfg"
    "mono (be_cancelled B)" "(collector_step n H L B (Send C) ^^ m) c0 c" "m < 2 ^ 64"
  shows "\<exists>d. \<bar>d\<bar> \<le> cfg_MaxBatchSize cfg * uint (flushFailures (b_metrics (co_batcher c))) \<and>
    acceptedEvents (b_metrics (co_batcher c)) = bulkIndexed (b_metrics (co_batcher c)) +
      bulkFailed (b_metrics (co_batcher c)) + of_nat (length (contents (b_queue (co_batcher c)))) + of_int d"
proof -
  have ok: "collector_inv H (be_cfg B) c0" "env_ok B"
    using start_collector_inv [OF assms(1)] assms(2,3) config_env_ok by auto
  have "books B 0 c0" using start_collector_books [OF assms(1)] assms(2) by simp
  from es.books_steps [OF assms(4) ok this] obtain k where k: "k \<le> m" "books B k c" by auto
  then have "uint (flushFailures (b_metrics (co_batcher c))) = int k"
    using assms(5) by (auto simp: books_def balanced_def uint_nat unat_of_nat)
  with k(2) assms(2) show ?thesis by (auto simp: books_def balanced_def)
qed

theorem books_balance_witness:
  "\<exists>cfg c0. start_collector witness_host ''v1'' witness_environ (Some (1::nat)) (Some \<lparr>fi_file = 7, fi_modTime = 100, fi_size = 10\<rparr>)
       \<lparr>cs_reads = 0, cs_world = (0::nat)\<rparr> 0 = Some (Inr (cfg, c0)) \<and>
     acceptedEvents (b_metrics (co_batcher c0)) = bulkIndexed (b_metrics (co_batcher c0)) +
      bulkFailed (b_metrics (co_batcher c0)) + of_nat (length (contents (b_queue (co_batcher c0))))"
proof -
  obtain cfg c0 where start: "start_collector witness_host ''v1'' witness_environ (Some (1::nat))
      (Some \<lparr>fi_file = 7, fi_modTime = 100, fi_size = 10\<rparr>) \<lparr>cs_reads = 0, cs_world = (0::nat)\<rparr> 0 = Some (Inr (cfg, c0))"
    using witness_starts by blast
  have "be_cfg (witness_env\<lparr>be_cfg := cfg\<rparr>) = cfg" "mono (be_cancelled (witness_env\<lparr>be_cfg := cfg\<rparr>))"
    using witness_env_ok(4) by simp_all
  moreover have "(collector_step 9 witness_host \<lparr>gl_parseAddr = (\<lambda>_. False), gl_lookup = (\<lambda>_ _. None)\<rparr>
      (witness_env\<lparr>be_cfg := cfg\<rparr>) (Send witness_client) ^^ 0) c0 c0" by simp
  moreover have "flushFailures (b_metrics (co_batcher c0)) = 0"
    using start by (auto elim!: start_collector_cases simp: new_batcher_def new_registry_def)
  ultimately show ?thesis using books_balance [OF start, of "witness_env\<lparr>be_cfg := cfg\<rparr>"] start by fastforce
qed

end
