(* ===== verification/Process.thy ===== *)
theory Process
  imports System
begin

section \<open>The life of the process\<close>

text \<open>
  \<open>cmd/collector/main.go\<close>, the body of \<open>main\<close> behind the start of the components: the two HTTP
  servers, the goroutine that reloads the GeoIP database, the one that runs the batcher, the one
  that shuts down, and the main goroutine that serves, waits and exits. Each is a part of one state;
  \<open>live_step\<close> is a step of any of them. Time is not modelled: a shutdown may time out at any moment.
  The moment at which the batcher finds its context cancelled is that of \<open>batch_env\<close>; the call of
  \<open>stopBatcher\<close> is placed where the batcher has reached it. What \<open>main\<close> logs as an error is listed.
\<close>

record http_server =
  hs_Addr :: string
  hs_ReadHeaderTimeout :: int
  hs_ReadTimeout :: int
  hs_WriteTimeout :: int
  hs_IdleTimeout :: int

definition collector_server :: "config \<Rightarrow> http_server" where
  "collector_server cfg = \<lparr>hs_Addr = cfg_ListenAddr cfg, hs_ReadHeaderTimeout = 5 * second,
     hs_ReadTimeout = cfg_ReadTimeout cfg, hs_WriteTimeout = cfg_WriteTimeout cfg,
     hs_IdleTimeout = cfg_IdleTimeout cfg\<rparr>"

definition metrics_server :: "config \<Rightarrow> http_server option" where
  "metrics_server cfg =
     (if cfg_MetricsEnabled cfg
      then Some \<lparr>hs_Addr = cfg_MetricsListenAddr cfg, hs_ReadHeaderTimeout = 5 * second,
        hs_ReadTimeout = cfg_ReadTimeout cfg, hs_WriteTimeout = cfg_WriteTimeout cfg,
        hs_IdleTimeout = cfg_IdleTimeout cfg\<rparr>
      else None)"

text \<open>The mux of the metrics server: the status and, if the pattern matches, the page.\<close>

definition metrics_mux :: "int \<Rightarrow> registry \<Rightarrow> string \<Rightarrow> string \<Rightarrow> int \<times> (string \<times> sample list) option" where
  "metrics_mux now r method path =
     (if path \<noteq> ''/metrics'' then (404, None)
      else if method = ''GET'' \<or> method = ''HEAD'' then (200, Some (Handler now r))
      else (405, None))"

text \<open>The call of \<open>ListenAndServe\<close>: it goes on, or it has returned \<open>ErrServerClosed\<close> or another error.\<close>

datatype listener = Listening | ListenerClosed | ListenerFailed

text \<open>
  How far the shutdown goroutine is: before the end of the context, behind the shutdown of the HTTP
  server, behind that of the metrics server, behind \<open>stopBatcher\<close>, at its end. The flags are the
  results of the two calls of \<open>Shutdown\<close>.
\<close>

datatype phase =
    AwaitingSignal
  | HttpShutDown bool
  | MetricsShutDown bool "bool option"
  | BatcherStopped bool "bool option"
  | ShutdownDone bool

datatype process_log = ServerFailed | MetricsServerFailed | ShutdownLog shutdown_log

record ('s, 'r) process =
  pr_collector :: "('s, 'r) collector"
  pr_stopped :: bool
  pr_http :: listener
  pr_metrics :: "listener option"
  pr_phase :: phase
  pr_watching :: bool
  pr_errors :: "process_log list"
  pr_exit :: "int option"

definition start_process :: "config \<Rightarrow> ('s, 'r) collector \<Rightarrow> ('s, 'r) process" where
  "start_process cfg c = \<lparr>pr_collector = c, pr_stopped = False, pr_http = Listening,
     pr_metrics = map_option (\<lambda>_. Listening) (metrics_server cfg), pr_phase = AwaitingSignal,
     pr_watching = True, pr_errors = [], pr_exit = None\<rparr>"

text \<open>Once \<open>Shutdown\<close> of the HTTP server has returned without an error, no handler runs any more.\<close>

fun handlers_done :: "phase \<Rightarrow> bool" where
  "handlers_done AwaitingSignal = False"
| "handlers_done (HttpShutDown ok) = ok"
| "handlers_done (MetricsShutDown ok _) = ok"
| "handlers_done (BatcherStopped ok _) = ok"
| "handlers_done (ShutdownDone ok) = ok"

text \<open>What requests may offer while the batcher is blocked.\<close>

definition arrivals_ok :: "host \<Rightarrow> config \<Rightarrow> phase \<Rightarrow> event list list list \<Rightarrow> bool" where
  "arrivals_ok H cfg ph arrivals \<longleftrightarrow> (\<forall>batches\<in>set arrivals. \<forall>batch\<in>set batches. screened H cfg batch) \<and>
     (handlers_done ph \<longrightarrow> concat arrivals = [])"

text \<open>The deferred \<open>Close\<close> runs when \<open>main\<close> returns, not with \<open>os.Exit\<close>.\<close>

definition exit_process :: "('s, 'r) process \<Rightarrow> ('s, 'r) process" where
  "exit_process p =
     (let code = exit_code (Inr () :: start_error + unit) (pr_http p = ListenerFailed); c = pr_collector p in
      p\<lparr>pr_exit := Some code,
        pr_collector := (if code = 0 then c\<lparr>co_resolver := Close (co_resolver c)\<rparr> else c)\<rparr>)"

inductive live_step :: "nat \<Rightarrow> host \<Rightarrow> 'r geo_library \<Rightarrow> batch_env \<Rightarrow> 's sender \<Rightarrow>
    ('s, 'r) process \<Rightarrow> ('s, 'r) process \<Rightarrow> bool"
  for n H L B send where
  request: "\<not> handlers_done (pr_phase p) \<Longrightarrow> c = pr_collector p \<Longrightarrow>
    handleCollect (request_env H (be_cfg B) (Lookup L (co_resolver c))) limitNow now r body (server_of c) = Some (rep, sv) \<Longrightarrow>
    live_step n H L B send p (p\<lparr>pr_collector := put_server sv c\<rparr>)"
| batcher: "c = pr_collector p \<Longrightarrow> arrivals_ok H (be_cfg B) (pr_phase p) arrivals \<Longrightarrow>
    run_step n B send ((co_batcher c)\<lparr>b_arrivals := arrivals\<rparr>) b \<Longrightarrow>
    live_step n H L B send p (p\<lparr>pr_collector := c\<lparr>co_batcher := b\<rparr>\<rparr>)"
| reload: "pr_watching p \<Longrightarrow> c = pr_collector p \<Longrightarrow>
    ReloadIfChanged stat opened closeOk (co_resolver c) = (res, resolver) \<Longrightarrow>
    live_step n H L B send p (p\<lparr>pr_collector := c\<lparr>co_resolver := resolver\<rparr>\<rparr>)"
| signal: "live_step n H L B send p (p\<lparr>pr_stopped := True\<rparr>)"
| server_failed: "pr_http p = Listening \<Longrightarrow>
    live_step n H L B send p (p\<lparr>pr_http := ListenerFailed, pr_stopped := True, pr_errors := pr_errors p @ [ServerFailed]\<rparr>)"
| server_closed: "pr_http p = Listening \<Longrightarrow> pr_stopped p \<Longrightarrow>
    live_step n H L B send p (p\<lparr>pr_http := ListenerClosed\<rparr>)"
| metrics_failed: "pr_metrics p = Some Listening \<Longrightarrow>
    live_step n H L B send p (p\<lparr>pr_metrics := Some ListenerFailed, pr_stopped := True,
      pr_errors := pr_errors p @ [MetricsServerFailed]\<rparr>)"
| metrics_closed: "pr_metrics p = Some Listening \<Longrightarrow> pr_phase p \<noteq> AwaitingSignal \<Longrightarrow>
    live_step n H L B send p (p\<lparr>pr_metrics := Some ListenerClosed\<rparr>)"
| http_shutdown: "pr_stopped p \<Longrightarrow> pr_phase p = AwaitingSignal \<Longrightarrow>
    live_step n H L B send p (p\<lparr>pr_phase := HttpShutDown ok\<rparr>)"
| metrics_shutdown: "pr_phase p = HttpShutDown ok \<Longrightarrow> metricsOk = None \<longleftrightarrow> pr_metrics p = None \<Longrightarrow>
    live_step n H L B send p (p\<lparr>pr_phase := MetricsShutDown ok metricsOk\<rparr>)"
| stop_batcher: "pr_phase p = MetricsShutDown ok metricsOk \<Longrightarrow>
    be_cancelled B (b_now (co_batcher (pr_collector p))) \<Longrightarrow>
    live_step n H L B send p (p\<lparr>pr_phase := BatcherStopped ok metricsOk\<rparr>)"
| drain: "pr_phase p = BatcherStopped ok metricsOk \<Longrightarrow> c = pr_collector p \<Longrightarrow>
    timedOut \<or> Done (co_batcher c) \<Longrightarrow> arrivals_ok H (be_cfg B) (pr_phase p) arrivals \<Longrightarrow>
    be_cfg D = be_cfg B \<Longrightarrow> mono (be_cancelled D) \<Longrightarrow>
    length (contents (b_queue (co_batcher c))) + length (concat (concat arrivals)) < k \<Longrightarrow>
    shutdown k D send \<lparr>sd_httpOk = ok, sd_metricsOk = metricsOk, sd_timedOut = timedOut\<rparr>
      ((co_batcher c)\<lparr>b_arrivals := arrivals\<rparr>) = Some (logs, b) \<Longrightarrow>
    live_step n H L B send p (p\<lparr>pr_phase := ShutdownDone ok, pr_collector := c\<lparr>co_batcher := b\<rparr>,
      pr_errors := pr_errors p @ map ShutdownLog logs\<rparr>)"
| watch_done: "pr_watching p \<Longrightarrow> pr_stopped p \<Longrightarrow> live_step n H L B send p (p\<lparr>pr_watching := False\<rparr>)"
| exit: "pr_http p \<noteq> Listening \<Longrightarrow> pr_phase p = ShutdownDone ok \<Longrightarrow> \<not> pr_watching p \<Longrightarrow>
    live_step n H L B send p (exit_process p)"

text \<open>A process that has exited takes no steps.\<close>

definition process_step :: "nat \<Rightarrow> host \<Rightarrow> 'r geo_library \<Rightarrow> batch_env \<Rightarrow> 's sender \<Rightarrow>
    ('s, 'r) process \<Rightarrow> ('s, 'r) process \<Rightarrow> bool" where
  "process_step n H L B send p p' \<longleftrightarrow> pr_exit p = None \<and> live_step n H L B send p p'"

inductive_cases live_stepE: "live_step n H L B send p p'"

subsection \<open>The invariant\<close>

text \<open>
  An end of the shutdown that reports nothing finds the handlers gone, the batcher stopped and the
  queue empty, and it stays so.
\<close>

definition shut_down :: "('s, 'r) process \<Rightarrow> bool \<Rightarrow> bool" where
  "shut_down p ok \<longleftrightarrow> (\<exists>l. ShutdownLog l \<in> set (pr_errors p)) \<or>
     ok \<and> Done (co_batcher (pr_collector p)) \<and> contents (b_queue (co_batcher (pr_collector p))) = []"

definition process_inv :: "host \<Rightarrow> config \<Rightarrow> ('s, 'r) process \<Rightarrow> bool" where
  "process_inv H cfg p \<longleftrightarrow> collector_inv H cfg (pr_collector p) \<and>
     (pr_phase p \<noteq> AwaitingSignal \<longrightarrow> pr_stopped p) \<and>
     (pr_http p = ListenerFailed \<longleftrightarrow> ServerFailed \<in> set (pr_errors p)) \<and>
     (\<forall>code. pr_exit p = Some code \<longrightarrow> code = (if pr_http p = ListenerFailed then 1 else 0)) \<and>
     (pr_exit p \<noteq> None \<longrightarrow> (\<exists>ok. pr_phase p = ShutdownDone ok)) \<and>
     (\<forall>ok. pr_phase p = ShutdownDone ok \<longrightarrow> shut_down p ok)"

lemma start_process_inv: "collector_inv H cfg c \<Longrightarrow> process_inv H cfg (start_process cfg c)"
  by (simp add: process_inv_def start_process_def)

text \<open>The batcher that has stopped does nothing more, when no request is left.\<close>

lemma done_step:
  assumes "run_step n B send (b\<lparr>b_arrivals := arrivals\<rparr>) b'" "Done b" "\<not> Ready b" "concat arrivals = []"
  shows "Done b' \<and> b_queue b' = b_queue b"
  using assms(1)
proof (cases rule: run_step.cases)
  case requests
  show ?thesis
  proof (cases arrivals)
    case Nil
    with requests assms(2) show ?thesis by (auto simp: pause_def Done_def)
  next
    case (Cons batches rest)
    with requests assms(2,4) show ?thesis by (auto simp: pause_def Done_def)
  qed
qed (use assms(2,3) in \<open>simp_all add: Done_def Ready_def\<close>)

context bulk_sender begin

text \<open>What the end of the shutdown goroutine does to the batcher.\<close>

lemma shutdown_step:
  assumes run: "shutdown k D send x b = Some (logs, b')" and r: "ring (b_queue b) xs"
    and env: "0 < cfg_MaxBatchSize (be_cfg D)" "in_int64 (cfg_RetryMinBackoff (be_cfg D))"
      "in_int64 (cfg_RetryMaxBackoff (be_cfg D))" "mono (be_cancelled D)"
    and fuel: "length xs + length (offered b) < k"
  shows "run_inv b0 us b \<Longrightarrow> run_inv b0 us b'"
    and "balanced (cfg_MaxBatchSize (be_cfg D)) j b \<Longrightarrow>
      \<exists>j'. j \<le> j' \<and> j' \<le> Suc j \<and> balanced (cfg_MaxBatchSize (be_cfg D)) j' b'"
    and "Done b' = Done b"
    and "logs = [] \<Longrightarrow> sd_httpOk x \<and> \<not> sd_timedOut x \<and> contents (b_queue b') = []"
proof -
  have alternatives: "sd_timedOut x \<and> b' = b \<and> logs \<noteq> [] \<or>
      \<not> sd_timedOut x \<and> (\<exists>err. flush_loop k (\<lambda>len. len > 0) D send b = Some (Ended err, b') \<and>
        (logs = [] \<longrightarrow> err = None \<and> sd_httpOk x))"
  proof (cases "sd_timedOut x")
    case True
    with run have "b' = b" "logs \<noteq> []" by (auto simp: shutdown_def Let_def)
    with True show ?thesis by blast
  next
    case False
    with run obtain res where drain: "flush_loop k (\<lambda>len. len > 0) D send b = Some (res, b')"
      "logs = [] \<Longrightarrow> sd_httpOk x \<and> (\<forall>e. res \<noteq> Ended (Some e))"
      by (auto simp: shutdown_def Let_def Batcher_Drain_def flushAll_def split: Option.bind_splits loop_result.splits
          option.splits if_splits)
    from flush_loop_spec [OF r env, of "\<lambda>len. len > 0" k] drain(1) fuel have "res \<noteq> Running" by auto
    then obtain err where "res = Ended err" by (cases res) auto
    with drain False show ?thesis by (cases err) auto
  qed
  note spec = flush_loop_spec [OF r env, of "\<lambda>len. len > 0" k]
  show "run_inv b0 us b'" if "run_inv b0 us b"
    using alternatives that run_inv_flush_loop [OF that _ env] by blast
  show "\<exists>j'. j \<le> j' \<and> j' \<le> Suc j \<and> balanced (cfg_MaxBatchSize (be_cfg D)) j' b'"
    if "balanced (cfg_MaxBatchSize (be_cfg D)) j b"
    using alternatives that flush_loop_balanced [OF env r _ that] by (meson le_Suc_eq order_refl)
  show "Done b' = Done b" using alternatives spec by (auto simp: counted_def Done_def)
  show "sd_httpOk x \<and> \<not> sd_timedOut x \<and> contents (b_queue b') = []" if "logs = []"
    using alternatives that spec by (auto dest: ring_contents)
qed

lemma live_step_inv:
  assumes step: "live_step n H L B send p p'" and inv: "process_inv H (be_cfg B) p" "pr_exit p = None"
    and env: "env_ok B"
  shows "process_inv H (be_cfg B) p'"
  using step
proof (cases rule: live_step.cases)
  case (request c limitNow now r body rep sv)
  have "collector_step n H L B send c (put_server sv c)" using request(4) by (rule collector_step.request)
  from collector_inv_step [OF this _ env] inv request(1-3) show ?thesis
    by (cases "pr_phase p") (auto simp: process_inv_def shut_down_def)
next
  case (batcher c arrivals b)
  have "collector_step n H L B send c (c\<lparr>co_batcher := b\<rparr>)"
    using batcher(3,4) by (intro collector_step.batch) (auto simp: arrivals_ok_def)
  from collector_inv_step [OF this _ env] inv have col: "collector_inv H (be_cfg B) (c\<lparr>co_batcher := b\<rparr>)"
    by (simp add: process_inv_def batcher(2))
  have "shut_down p' ok" if "pr_phase p = ShutdownDone ok" for ok
  proof (cases "\<exists>l. ShutdownLog l \<in> set (pr_errors p)")
    case True
    then show ?thesis by (simp add: shut_down_def batcher(1))
  next
    case False
    with inv that have s: "ok" "Done (co_batcher c)" "contents (b_queue (co_batcher c)) = []" "\<not> Ready (co_batcher c)"
      by (auto simp: process_inv_def shut_down_def collector_inv_def batcher(2))
    with batcher(3) that have "concat arrivals = []" by (simp add: arrivals_ok_def)
    from done_step [OF batcher(4) s(2,4) this] s show ?thesis by (simp add: shut_down_def batcher(1))
  qed
  with inv col show ?thesis by (auto simp: process_inv_def batcher(1))
next
  case (drain ok metricsOk c timedOut arrivals D k logs b)
  have col: "collector_inv H (be_cfg B) c" using inv by (simp add: process_inv_def drain(3))
  then have r: "ring (b_queue ((co_batcher c)\<lparr>b_arrivals := arrivals\<rparr>)) (contents (b_queue (co_batcher c)))"
    by (simp add: collector_inv_def wf_queue_def)
  have denv: "0 < cfg_MaxBatchSize (be_cfg D)" "in_int64 (cfg_RetryMinBackoff (be_cfg D))"
    "in_int64 (cfg_RetryMaxBackoff (be_cfg D))" "mono (be_cancelled D)"
    using env drain(6,7) by (simp_all add: env_ok_def)
  have fuel: "length (contents (b_queue (co_batcher c))) + length (offered ((co_batcher c)\<lparr>b_arrivals := arrivals\<rparr>)) < k"
    using drain(8) by (simp add: offered_def)
  note down = shutdown_step [OF drain(9) r denv fuel]
  have screened: "\<forall>batches\<in>set arrivals. \<forall>batch\<in>set batches. screened H (be_cfg B) batch"
    using drain(5) by (simp add: arrivals_ok_def)
  have "collector_inv H (be_cfg B) (c\<lparr>co_batcher := b\<rparr>)"
    using down(1) [OF collector_inv_start_run [OF col]] by (rule collector_inv_run [OF col screened])
  moreover have "Done b \<and> ok \<and> contents (b_queue b) = []" if "logs = []"
    using down(3) down(4) [OF that] drain(4) by (simp add: Done_def)
  then have "shut_down p' ok" by (cases logs) (auto simp: shut_down_def drain(1))
  ultimately show ?thesis using inv by (auto simp: process_inv_def drain(1,2))
next
  case (exit ok)
  with inv show ?thesis
    by (auto simp: process_inv_def exit_process_def exit_code_def collector_inv_def shut_down_def Let_def)
qed (use inv in \<open>auto simp: process_inv_def shut_down_def collector_inv_def\<close>)

text \<open>The books stay balanced until the exit.\<close>

lemma live_step_books:
  assumes step: "live_step n H L B send p p'" and inv: "process_inv H (be_cfg B) p"
    and env: "env_ok B" and bk: "books B k (pr_collector p)"
  shows "\<exists>k'. k \<le> k' \<and> k' \<le> Suc k \<and> books B k' (pr_collector p')"
proof -
  have col: "collector_inv H (be_cfg B) (pr_collector p)" using inv by (simp add: process_inv_def)
  show ?thesis
    using step
  proof (cases rule: live_step.cases)
    case (request c limitNow now r body rep sv)
    have "collector_step n H L B send c (put_server sv c)" using request(4) by (rule collector_step.request)
    from books_step [OF this _ env] col bk request(1,3) show ?thesis by simp
  next
    case (batcher c arrivals b)
    have "collector_step n H L B send c (c\<lparr>co_batcher := b\<rparr>)"
      using batcher(3,4) by (intro collector_step.batch) (auto simp: arrivals_ok_def)
    from books_step [OF this _ env] col bk batcher(1,2) show ?thesis by simp
  next
    case (drain ok metricsOk c timedOut arrivals D j logs b)
    have r: "ring (b_queue ((co_batcher c)\<lparr>b_arrivals := arrivals\<rparr>)) (contents (b_queue (co_batcher c)))"
      using col drain(3) by (simp add: collector_inv_def wf_queue_def)
    have denv: "0 < cfg_MaxBatchSize (be_cfg D)" "in_int64 (cfg_RetryMinBackoff (be_cfg D))"
      "in_int64 (cfg_RetryMaxBackoff (be_cfg D))" "mono (be_cancelled D)"
      using env drain(6,7) by (simp_all add: env_ok_def)
    have fuel: "length (contents (b_queue (co_batcher c))) + length (offered ((co_batcher c)\<lparr>b_arrivals := arrivals\<rparr>)) < j"
      using drain(8) by (simp add: offered_def)
    have "balanced (cfg_MaxBatchSize (be_cfg D)) k ((co_batcher c)\<lparr>b_arrivals := arrivals\<rparr>)"
      using bk drain(3,6) by (simp add: books_def balanced_def)
    from shutdown_step(2) [OF drain(9) r denv fuel this] drain(1,6) show ?thesis by (simp add: books_def)
  next
    case exit
    with bk show ?thesis by (auto simp: exit_process_def books_def Let_def)
  qed (use bk in \<open>auto simp: books_def\<close>)
qed

lemma process_steps:
  assumes "(process_step n H L B send ^^ m) p p'" "process_inv H (be_cfg B) p" "env_ok B" "books B 0 (pr_collector p)"
  shows "process_inv H (be_cfg B) p' \<and> (\<exists>k\<le>m. books B k (pr_collector p'))"
  using assms(1)
proof (induction m arbitrary: p')
  case 0
  with assms(2,4) show ?case by auto
next
  case (Suc m)
  then obtain p1 where p1: "(process_step n H L B send ^^ m) p p1" "process_step n H L B send p1 p'" by auto
  from Suc.IH [OF p1(1)] obtain k where k: "process_inv H (be_cfg B) p1" "k \<le> m" "books B k (pr_collector p1)" by blast
  have step: "live_step n H L B send p1 p'" "pr_exit p1 = None" using p1(2) by (simp_all add: process_step_def)
  from live_step_books [OF step(1) k(1) assms(3) k(3)] obtain k' where "k' \<le> Suc k" "books B k' (pr_collector p')" by blast
  with live_step_inv [OF step(1) k(1) step(2) assms(3)] k(2) show ?case by (meson Suc_le_mono le_trans)
qed

end

lemma started_process:
  assumes "start_collector H version env opened stat s now = Some (Inr (cfg, c))" "be_cfg B = cfg" "mono (be_cancelled B)"
  shows "process_inv H (be_cfg B) (start_process cfg c)" "env_ok B" "books B 0 (pr_collector (start_process cfg c))"
  using start_collector_inv [OF assms(1)] start_collector_books [OF assms(1,2)] start_process_inv assms(2,3) config_env_ok
  by (auto simp: start_process_def)

subsection \<open>Runs to the exit\<close>

text \<open>A step behind others.\<close>

lemma then_step:
  "(process_step n H L B send)\<^sup>*\<^sup>* p p1 \<Longrightarrow> live_step n H L B send p1 p' \<Longrightarrow> pr_exit p1 = None \<Longrightarrow>
     (process_step n H L B send)\<^sup>*\<^sup>* p p'"
  by (meson process_step_def rtranclp.rtrancl_into_rtrancl)

text \<open>A batcher that waits with an empty queue, once its context is done: the orderly way out.\<close>

lemma eight_steps:
  "R a b \<Longrightarrow> R b c \<Longrightarrow> R c d \<Longrightarrow> R d e \<Longrightarrow> R e f \<Longrightarrow> R f g \<Longrightarrow> R g h \<Longrightarrow> R h i \<Longrightarrow> (R ^^ 8) a i"
  by (simp add: eval_nat_numeral OO_def) blast

lemma orderly_exit:
  assumes "pr_exit p = None" "pr_phase p = AwaitingSignal" "pr_stopped p" "pr_watching p" "pr_http p = Listening"
    "Ready b" "ring (b_queue b) []" "b = co_batcher (pr_collector p)" "\<forall>k. be_cancelled B k"
  shows "\<exists>p'. (process_step n H L B send ^^ 8) p p' \<and> pr_exit p' = Some 0 \<and> pr_errors p' = pr_errors p"
proof -
  let ?R = "process_step n H L B send" and ?c = "pr_collector p"
  let ?ok = "map_option (\<lambda>_. True) (pr_metrics p)"
  let ?b = "run_exit (b\<lparr>b_arrivals := []\<rparr>)"
  let ?p1 = "p\<lparr>pr_phase := HttpShutDown True\<rparr>" let ?p2 = "?p1\<lparr>pr_phase := MetricsShutDown True ?ok\<rparr>"
  let ?p3 = "?p2\<lparr>pr_phase := BatcherStopped True ?ok\<rparr>"
  let ?p4 = "?p3\<lparr>pr_collector := ?c\<lparr>co_batcher := ?b\<rparr>\<rparr>"
  let ?p5 = "?p4\<lparr>pr_phase := ShutdownDone True, pr_collector := (pr_collector ?p4)\<lparr>co_batcher := ?b\<rparr>,
      pr_errors := pr_errors ?p4 @ map ShutdownLog []\<rparr>"
  let ?p6 = "?p5\<lparr>pr_http := ListenerClosed\<rparr>" let ?p7 = "?p6\<lparr>pr_watching := False\<rparr>"
  have "live_step n H L B send p ?p1" using assms(2,3) by (intro live_step.http_shutdown)
  then have 1: "?R p ?p1" using assms(1) by (simp only: process_step_def)
  have "live_step n H L B send ?p1 ?p2" by (rule live_step.metrics_shutdown) simp_all
  then have 2: "?R ?p1 ?p2" using assms(1) by (simp add: process_step_def)
  have "live_step n H L B send ?p2 ?p3" using assms(9) by (intro live_step.stop_batcher) simp_all
  then have 3: "?R ?p2 ?p3" using assms(1) by (simp add: process_step_def)
  have "run_step n B send ((co_batcher ?c)\<lparr>b_arrivals := []\<rparr>) ?b"
    unfolding assms(8) using assms(6,8,9) by (intro run_step.exit) (simp_all add: Ready_def)
  then have "live_step n H L B send ?p3 ?p4"
    by (intro live_step.batcher [where arrivals = "[]"]) (simp_all add: arrivals_ok_def)
  then have 4: "?R ?p3 ?p4" using assms(1) by (simp add: process_step_def)
  have "Len (b_queue ?b) = 0" "contents (b_queue ?b) = []"
    using rq.len_counts [OF assms(7)] ring_contents [OF assms(7)] by (simp_all add: run_exit_def)
  then have "shutdown (Suc 0) B send \<lparr>sd_httpOk = True, sd_metricsOk = ?ok, sd_timedOut = False\<rparr>
      (?b\<lparr>b_arrivals := []\<rparr>) = Some ([], ?b)"
    by (cases "pr_metrics p") (simp_all add: shutdown_def Batcher_Drain_def flushAll_def run_exit_def)
  then have "live_step n H L B send ?p4 ?p5"
    using assms(9) \<open>contents _ = []\<close>
    by (intro live_step.drain [where arrivals = "[]" and D = B and k = "Suc 0" and timedOut = False])
      (simp_all add: arrivals_ok_def Done_def run_exit_def mono_def)
  then have 5: "?R ?p4 ?p5" using assms(1) by (simp add: process_step_def)
  have "live_step n H L B send ?p5 ?p6" using assms(3,5) by (intro live_step.server_closed) simp_all
  then have 6: "?R ?p5 ?p6" using assms(1) by (simp add: process_step_def)
  have "live_step n H L B send ?p6 ?p7" using assms(3,4) by (intro live_step.watch_done) simp_all
  then have 7: "?R ?p6 ?p7" using assms(1) by (simp add: process_step_def)
  have "live_step n H L B send ?p7 (exit_process ?p7)" by (rule live_step.exit [where ok = True]) simp_all
  then have 8: "?R ?p7 (exit_process ?p7)" using assms(1) by (simp add: process_step_def)
  have "(?R ^^ 8) p (exit_process ?p7)" by (rule eight_steps [where R = ?R, OF 1 2 3 4 5 6 7 8])
  then show ?thesis
    by (intro exI [of _ "exit_process ?p7"]) (simp add: exit_process_def exit_code_def Let_def)
qed

text \<open>A started collector whose batcher has entered its loop, with what stops the process.\<close>

lemma started_exit:
  assumes "start_collector H version env opened stat s now = Some (Inr (cfg, c))" "be_cfg B = cfg"
    "\<forall>k. be_cancelled B k" "live_step n H L B send (start_process cfg c) p" "pr_collector p = c" "pr_stopped p"
    "pr_http p = Listening" "pr_phase p = AwaitingSignal" "pr_watching p" "pr_exit p = None"
  shows "\<exists>p'. (process_step n H L B send ^^ 10) (start_process cfg c) p' \<and> pr_exit p' = Some 0 \<and> pr_errors p' = pr_errors p"
proof -
  let ?b = "run_enter ((co_batcher c)\<lparr>b_arrivals := []\<rparr>)"
  let ?p = "p\<lparr>pr_collector := c\<lparr>co_batcher := ?b\<rparr>\<rparr>"
  have fresh: "\<not> Ready (co_batcher c)" "\<not> Done (co_batcher c)" "ring (b_queue (co_batcher c)) []"
  proof -
    obtain q where q: "Load H version env = Inr cfg" "new_queue (cfg_MaxQueueSize cfg) = Some q"
      "co_batcher c = new_batcher q s (new_registry now) []" using start_collector_cases [OF assms(1)] by blast
    have "0 \<le> cfg_MaxQueueSize cfg" using Load_spec [OF q(1)] by (simp add: config_ok_def)
    then show "ring (b_queue (co_batcher c)) []" using new_queue_ring q(2,3) by (metis batcher.select_convs(1) new_batcher_def option.inject)
    show "\<not> Ready (co_batcher c)" "\<not> Done (co_batcher c)" using q(3) by (simp_all add: new_batcher_def Ready_def Done_def)
  qed
  have "run_step n B send ((co_batcher c)\<lparr>b_arrivals := []\<rparr>) ?b"
    using fresh by (intro run_step.enter) (simp_all add: Ready_def Done_def)
  then have enter: "live_step n H L B send p ?p"
    unfolding assms(5) [symmetric] by (intro live_step.batcher [where arrivals = "[]"]) (simp_all add: arrivals_ok_def)
  have "(process_step n H L B send ^^ 0) (start_process cfg c) (start_process cfg c)" by simp
  moreover have "process_step n H L B send (start_process cfg c) p"
    using assms(4) unfolding process_step_def by (simp add: start_process_def)
  ultimately have "(process_step n H L B send ^^ Suc 0) (start_process cfg c) p" by (rule relpowp_Suc_I)
  then have run: "(process_step n H L B send ^^ Suc (Suc 0)) (start_process cfg c) ?p"
    by (rule relpowp_Suc_I) (use enter assms(10) in \<open>simp add: process_step_def\<close>)
  have "Ready ?b" "ring (b_queue ?b) []" using fresh by (simp_all add: run_enter_def Ready_def)
  from orderly_exit [OF _ _ _ _ _ this, of ?p B n H L send] assms(3,6-10)
  obtain p' where p': "(process_step n H L B send ^^ 8) ?p p'" "pr_exit p' = Some 0" "pr_errors p' = pr_errors p" by auto
  from run p'(1) have "(process_step n H L B send ^^ (Suc (Suc 0) + 8)) (start_process cfg c) p'"
    unfolding relpowp_add by (rule relcomppI)
  with p'(2,3) show ?thesis by auto
qed

subsection \<open>The way to the exit\<close>

text \<open>What is still to be done before the process has exited.\<close>

fun phase_rank :: "phase \<Rightarrow> nat" where
  "phase_rank AwaitingSignal = 4"
| "phase_rank (HttpShutDown _) = 3"
| "phase_rank (MetricsShutDown _ _) = 2"
| "phase_rank (BatcherStopped _ _) = 1"
| "phase_rank (ShutdownDone _) = 0"

definition rank :: "('s, 'r) process \<Rightarrow> nat" where
  "rank p = phase_rank (pr_phase p) + (if pr_watching p then 1 else 0) + (if pr_http p = Listening then 1 else 0) +
     (if pr_exit p = None then 1 else 0)"

lemma rank_decreases: "live_step n H L B send p p' \<Longrightarrow> rank p' \<le> rank p \<and> (pr_stopped p \<longrightarrow> pr_stopped p')"
  by (induction rule: live_step.induct) (simp_all add: rank_def exit_process_def Let_def)

text \<open>The batcher's clock reaches any moment.\<close>

lemma time_passes:
  assumes "pr_exit p = None"
  shows "\<exists>p'. (process_step n H L B send)\<^sup>*\<^sup>* p p' \<and> rank p' = rank p \<and> pr_stopped p' = pr_stopped p \<and>
    pr_phase p' = pr_phase p \<and> pr_exit p' = None \<and> t \<le> b_now (co_batcher (pr_collector p'))"
proof (induction t)
  case 0
  with assms show ?case by blast
next
  case (Suc t)
  then obtain p1 where p1: "(process_step n H L B send)\<^sup>*\<^sup>* p p1" "rank p1 = rank p" "pr_stopped p1 = pr_stopped p"
    "pr_phase p1 = pr_phase p" "pr_exit p1 = None" "t \<le> b_now (co_batcher (pr_collector p1))" by blast
  let ?b = "(co_batcher (pr_collector p1))\<lparr>b_arrivals := []\<rparr>"
  let ?p2 = "p1\<lparr>pr_collector := (pr_collector p1)\<lparr>co_batcher := ?b\<lparr>b_now := Suc (b_now ?b)\<rparr>\<rparr>\<rparr>"
  have "run_step n B send ?b (?b\<lparr>b_now := Suc (b_now ?b)\<rparr>)" by (intro run_step.requests) (simp add: pause_def)
  then have "live_step n H L B send p1 ?p2"
    by (intro live_step.batcher [where arrivals = "[]"]) (simp_all add: arrivals_ok_def)
  then have "(process_step n H L B send)\<^sup>*\<^sup>* p ?p2" using p1(5) by (rule then_step [OF p1(1)])
  moreover have "rank ?p2 = rank p" using p1(2) by (simp add: rank_def)
  ultimately show ?case using p1(3-6) by (intro exI [of _ ?p2]) simp
qed

text \<open>A process that is to stop gets on.\<close>

lemma stopped_moves:
  assumes "pr_exit p = None" "pr_stopped p" "mono (be_cancelled B)" "be_cancelled B t"
  shows "\<exists>p'. (process_step n H L B send)\<^sup>*\<^sup>* p p' \<and> rank p' < rank p \<and> pr_stopped p'"
proof -
  have one: ?thesis if "live_step n H L B send p p'" "rank p' < rank p" for p'
    using that rank_decreases [OF that(1)] assms(1,2) by (meson process_step_def r_into_rtranclp)
  show ?thesis
  proof (cases "pr_phase p")
    case AwaitingSignal
    from one [OF live_step.http_shutdown [OF assms(2) this, where ok = True]] AwaitingSignal show ?thesis by (simp add: rank_def)
  next
    case (HttpShutDown ok)
    from one [OF live_step.metrics_shutdown [OF this, of "map_option (\<lambda>_. True) (pr_metrics p)"]] HttpShutDown
    show ?thesis by (simp add: rank_def)
  next
    case (MetricsShutDown ok metricsOk)
    obtain p1 where p1: "(process_step n H L B send)\<^sup>*\<^sup>* p p1" "rank p1 = rank p" "pr_stopped p1 = pr_stopped p"
      "pr_phase p1 = pr_phase p" "pr_exit p1 = None" "t \<le> b_now (co_batcher (pr_collector p1))"
      using time_passes [OF assms(1)] by blast
    have "be_cancelled B (b_now (co_batcher (pr_collector p1)))"
      using assms(3,4) p1(6) by (meson le_boolD monoD)
    with p1(4) MetricsShutDown have "live_step n H L B send p1 (p1\<lparr>pr_phase := BatcherStopped ok metricsOk\<rparr>)"
      by (intro live_step.stop_batcher) simp_all
    from then_step [OF p1(1) this p1(5)] p1(2-4) MetricsShutDown assms(2) show ?thesis
      by (intro exI [of _ "p1\<lparr>pr_phase := BatcherStopped ok metricsOk\<rparr>"]) (simp add: rank_def)
  next
    case (BatcherStopped ok metricsOk)
    let ?b = "(co_batcher (pr_collector p))\<lparr>b_arrivals := []\<rparr>"
    obtain logs where "shutdown (Suc (length (contents (b_queue ?b)))) B send
        \<lparr>sd_httpOk = ok, sd_metricsOk = metricsOk, sd_timedOut = True\<rparr> ?b = Some (logs, ?b)"
      by (simp add: shutdown_def Let_def)
    then have "live_step n H L B send p (p\<lparr>pr_phase := ShutdownDone ok,
        pr_collector := (pr_collector p)\<lparr>co_batcher := ?b\<rparr>, pr_errors := pr_errors p @ map ShutdownLog logs\<rparr>)"
      using BatcherStopped assms(3)
      by (intro live_step.drain [where arrivals = "[]" and D = B and timedOut = True]) (simp_all add: arrivals_ok_def)
    from one [OF this] BatcherStopped show ?thesis by (simp add: rank_def)
  next
    case (ShutdownDone ok)
    consider "pr_http p = Listening" | "pr_watching p" | "pr_http p \<noteq> Listening" "\<not> pr_watching p" by blast
    then show ?thesis
    proof cases
      case 1
      from one [OF live_step.server_closed [OF this assms(2)]] 1 show ?thesis by (simp add: rank_def)
    next
      case 2
      from one [OF live_step.watch_done [OF this assms(2)]] 2 show ?thesis by (simp add: rank_def)
    next
      case 3
      from one [OF live_step.exit [OF 3(1) ShutdownDone 3(2)]] assms(1) show ?thesis
        by (simp add: rank_def exit_process_def Let_def)
    qed
  qed
qed

subsection \<open>Properties\<close>

text \<open>
  C2: A quiet exit is a clean one: when the process of a collector has exited and \<open>main\<close> has logged no
  error on the way, then, however requests, flushes, reloads, signals and the steps of the shutdown
  were interleaved, the exit code is 0, the queue is empty, and the accepted events are those indexed
  and those failed, up to a batch for each flush failure counted.
\<close>

theorem quiet_exit_is_clean:
  assumes "start_collector H version env opened stat s now = Some (Inr (cfg, c0))" "be_cfg B = cfg"
    "mono (be_cancelled B)" "(process_step n H L B (Send C) ^^ m) (start_process cfg c0) p" "m < 2 ^ 64"
    "pr_exit p = Some code" "pr_errors p = []"
  shows "code = 0 \<and> contents (b_queue (co_batcher (pr_collector p))) = [] \<and>
    (\<exists>d. \<bar>d\<bar> \<le> cfg_MaxBatchSize cfg * uint (flushFailures (b_metrics (co_batcher (pr_collector p)))) \<and>
      acceptedEvents (b_metrics (co_batcher (pr_collector p))) =
        bulkIndexed (b_metrics (co_batcher (pr_collector p))) +
        bulkFailed (b_metrics (co_batcher (pr_collector p))) + of_int d)"
proof -
  note started = started_process [OF assms(1-3)]
  from es.process_steps [OF assms(4) started] obtain k where k: "process_inv H (be_cfg B) p" "k \<le> m"
    "books B k (pr_collector p)" by blast
  then have empty: "code = 0" "contents (b_queue (co_batcher (pr_collector p))) = []"
    using assms(6,7) by (auto simp: process_inv_def shut_down_def)
  have "uint (flushFailures (b_metrics (co_batcher (pr_collector p)))) = int k"
    using k(2,3) assms(5) by (auto simp: books_def balanced_def uint_nat unat_of_nat)
  with k(3) empty assms(2) show ?thesis by (auto simp: books_def balanced_def)
qed

text \<open>A run that a signal ends, in ten steps.\<close>

abbreviation witness_process_step :: "config \<Rightarrow> (nat client_state, nat) process \<Rightarrow> (nat client_state, nat) process \<Rightarrow> bool" where
  "witness_process_step cfg \<equiv> process_step 9 witness_host \<lparr>gl_parseAddr = (\<lambda>_. False), gl_lookup = (\<lambda>_ _. None)\<rparr>
     (witness_env\<lparr>be_cfg := cfg, be_cancelled := (\<lambda>_. True)\<rparr>) (Send witness_client)"

lemma witness_process_env:
  "be_cfg (witness_env\<lparr>be_cfg := cfg, be_cancelled := (\<lambda>_. True)\<rparr>) = cfg"
  "mono (be_cancelled (witness_env\<lparr>be_cfg := cfg, be_cancelled := (\<lambda>_. True)\<rparr>))"
  "\<forall>k. be_cancelled (witness_env\<lparr>be_cfg := cfg, be_cancelled := (\<lambda>_. True)\<rparr>) k"
  by (simp_all add: mono_def)

lemma witness_process_signal:
  obtains cfg c0 p where "start_collector witness_host ''v1'' witness_environ (Some (1::nat))
      (Some \<lparr>fi_file = 7, fi_modTime = 100, fi_size = 10\<rparr>) \<lparr>cs_reads = 0, cs_world = (0::nat)\<rparr> 0 = Some (Inr (cfg, c0))"
    "(witness_process_step cfg ^^ 10) (start_process cfg c0) p" "pr_exit p = Some 0" "pr_errors p = []"
proof -
  obtain cfg c0 where start: "start_collector witness_host ''v1'' witness_environ (Some (1::nat))
      (Some \<lparr>fi_file = 7, fi_modTime = 100, fi_size = 10\<rparr>) \<lparr>cs_reads = 0, cs_world = (0::nat)\<rparr> 0 = Some (Inr (cfg, c0))"
    using witness_starts by blast
  from started_exit [OF start witness_process_env(1,3) live_step.signal] that [OF start]
  show ?thesis by (auto simp: start_process_def)
qed

theorem quiet_exit_is_clean_witness:
  "\<exists>cfg c0 p. start_collector witness_host ''v1'' witness_environ (Some (1::nat)) (Some \<lparr>fi_file = 7, fi_modTime = 100, fi_size = 10\<rparr>)
       \<lparr>cs_reads = 0, cs_world = (0::nat)\<rparr> 0 = Some (Inr (cfg, c0)) \<and>
     (witness_process_step cfg ^^ 10) (start_process cfg c0) p \<and> pr_exit p = Some 0 \<and>
     contents (b_queue (co_batcher (pr_collector p))) = []"
proof -
  obtain cfg c0 p where run: "start_collector witness_host ''v1'' witness_environ (Some (1::nat)) (Some \<lparr>fi_file = 7, fi_modTime = 100, fi_size = 10\<rparr>)
       \<lparr>cs_reads = 0, cs_world = (0::nat)\<rparr> 0 = Some (Inr (cfg, c0))" "(witness_process_step cfg ^^ 10) (start_process cfg c0) p"
     "pr_exit p = Some 0" "pr_errors p = []" by (rule witness_process_signal)
  have "(10::nat) < 2 ^ 64" by simp
  from quiet_exit_is_clean [OF run(1) witness_process_env(1,2) run(2) this run(3,4)] run(1-3) show ?thesis by blast
qed

text \<open>
  C31: The exit code tells whether the HTTP server has failed: it is 1 exactly then, whatever else went
  wrong; and a process exits behind its shutdown only.
\<close>

theorem exit_code_tells_server_failure:
  assumes "start_collector H version env opened stat s now = Some (Inr (cfg, c0))" "be_cfg B = cfg"
    "mono (be_cancelled B)" "(process_step n H L B (Send C))\<^sup>*\<^sup>* (start_process cfg c0) p" "pr_exit p = Some code"
  shows "code = (if ServerFailed \<in> set (pr_errors p) then 1 else 0) \<and> (\<exists>ok. pr_phase p = ShutdownDone ok) \<and> pr_stopped p"
proof -
  obtain m where "(process_step n H L B (Send C) ^^ m) (start_process cfg c0) p"
    using rtranclp_imp_relpowp [OF assms(4)] by blast
  from es.process_steps [OF this started_process [OF assms(1-3)]] assms(5) show ?thesis
    by (auto simp: process_inv_def)
qed

theorem exit_code_tells_server_failure_witness:
  "\<exists>cfg c0 p. start_collector witness_host ''v1'' witness_environ (Some (1::nat)) (Some \<lparr>fi_file = 7, fi_modTime = 100, fi_size = 10\<rparr>)
       \<lparr>cs_reads = 0, cs_world = (0::nat)\<rparr> 0 = Some (Inr (cfg, c0)) \<and>
     (witness_process_step cfg)\<^sup>*\<^sup>* (start_process cfg c0) p \<and> pr_exit p = Some 0 \<and> ServerFailed \<notin> set (pr_errors p)"
proof -
  obtain cfg c0 p where run: "start_collector witness_host ''v1'' witness_environ (Some (1::nat)) (Some \<lparr>fi_file = 7, fi_modTime = 100, fi_size = 10\<rparr>)
       \<lparr>cs_reads = 0, cs_world = (0::nat)\<rparr> 0 = Some (Inr (cfg, c0))" "(witness_process_step cfg ^^ 10) (start_process cfg c0) p"
     "pr_exit p = Some 0" "pr_errors p = []" by (rule witness_process_signal)
  note steps = relpowp_imp_rtranclp [OF run(2)]
  from exit_code_tells_server_failure [OF run(1) witness_process_env(1,2) steps run(3)] run(1,3) steps show ?thesis
    by (metis zero_neq_one)
qed

text \<open>
  A failure that the exit code hides: if the metrics server cannot serve (its address is taken, say),
  the collector shuts itself down without a signal and exits with code 0; the one trace is the
  error in the log.
\<close>

theorem metrics_failure_exits_with_zero:
  assumes "start_collector H version env opened stat s now = Some (Inr (cfg, c))" "be_cfg B = cfg"
    "\<forall>k. be_cancelled B k" "cfg_MetricsEnabled cfg"
  shows "\<exists>p. (process_step n H L B send)\<^sup>*\<^sup>* (start_process cfg c) p \<and> pr_exit p = Some 0 \<and>
    pr_errors p = [MetricsServerFailed]"
proof -
  let ?p = "(start_process cfg c)\<lparr>pr_metrics := Some ListenerFailed, pr_stopped := True,
      pr_errors := pr_errors (start_process cfg c) @ [MetricsServerFailed]\<rparr>"
  have "pr_metrics (start_process cfg c) = Some Listening"
    using assms(4) by (simp add: start_process_def metrics_server_def)
  then have "live_step n H L B send (start_process cfg c) ?p" by (rule live_step.metrics_failed)
  from started_exit [OF assms(1-3) this] obtain p where "(process_step n H L B send ^^ 10) (start_process cfg c) p"
    "pr_exit p = Some 0" "pr_errors p = pr_errors ?p" by (auto simp: start_process_def)
  then show ?thesis by (intro exI [of _ p]) (auto simp: start_process_def dest: relpowp_imp_rtranclp)
qed

definition metrics_environ :: env where
  "metrics_environ = witness_environ(''METRICS_ENABLED'' := ''true'')"

lemma metrics_starts:
  "\<exists>cfg c. start_collector witness_host ''v1'' metrics_environ (Some (1::nat)) (Some \<lparr>fi_file = 7, fi_modTime = 100, fi_size = 10\<rparr>)
     \<lparr>cs_reads = 0, cs_world = (0::nat)\<rparr> 0 = Some (Inr (cfg, c)) \<and> cfg_MetricsEnabled cfg"
proof -
  have "case Load witness_host ''v1'' metrics_environ of Inl err \<Rightarrow> False | Inr cfg \<Rightarrow> cfg_MetricsEnabled cfg" by code_simp
  then obtain cfg where load: "Load witness_host ''v1'' metrics_environ = Inr cfg" "cfg_MetricsEnabled cfg"
    by (auto split: sum.splits)
  then have "0 \<le> cfg_MaxQueueSize cfg" using Load_spec [OF load(1)] by (simp add: config_ok_def)
  then obtain q where "new_queue (cfg_MaxQueueSize cfg) = Some q" using new_queue_ring by blast
  with load show ?thesis by (simp add: start_collector_def new_resolver_def Let_def)
qed

theorem metrics_failure_exits_with_zero_witness:
  "\<exists>cfg c p. start_collector witness_host ''v1'' metrics_environ (Some (1::nat)) (Some \<lparr>fi_file = 7, fi_modTime = 100, fi_size = 10\<rparr>)
       \<lparr>cs_reads = 0, cs_world = (0::nat)\<rparr> 0 = Some (Inr (cfg, c)) \<and>
     (witness_process_step cfg)\<^sup>*\<^sup>* (start_process cfg c) p \<and> pr_exit p = Some 0 \<and> pr_errors p = [MetricsServerFailed]"
proof -
  obtain cfg c where start: "start_collector witness_host ''v1'' metrics_environ (Some (1::nat)) (Some \<lparr>fi_file = 7, fi_modTime = 100, fi_size = 10\<rparr>)
     \<lparr>cs_reads = 0, cs_world = (0::nat)\<rparr> 0 = Some (Inr (cfg, c))" "cfg_MetricsEnabled cfg" using metrics_starts by blast
  from metrics_failure_exits_with_zero [OF start(1) witness_process_env(1,3) start(2)] start(1) show ?thesis by blast
qed

text \<open>
  C32: The shutdown cannot get stuck: from every state of a process that has been told to stop, whether
  its servers, its batcher and its reloader have ended or not, there is a way to the exit, provided
  the cancelled context reaches the batcher at some moment; and no step leads away from it: what
  is still to be done never grows and a stopped process stays stopped.
\<close>

theorem shutdown_reaches_exit:
  assumes "pr_stopped p" "mono (be_cancelled B)" "be_cancelled B t"
  shows "(\<exists>p'. (process_step n H L B send)\<^sup>*\<^sup>* p p' \<and> pr_exit p' \<noteq> None) \<and>
    (\<forall>p'. process_step n H L B send p p' \<longrightarrow> rank p' \<le> rank p \<and> pr_stopped p')"
proof
  show "\<exists>p'. (process_step n H L B send)\<^sup>*\<^sup>* p p' \<and> pr_exit p' \<noteq> None"
    using assms(1)
  proof (induction "rank p" arbitrary: p rule: less_induct)
    case less
    show ?case
    proof (cases "pr_exit p")
      case None
      from stopped_moves [OF this less.prems assms(2,3)] obtain p1 where
        p1: "(process_step n H L B send)\<^sup>*\<^sup>* p p1" "rank p1 < rank p" "pr_stopped p1" by blast
      from less.hyps [OF p1(2,3)] p1(1) show ?thesis by (meson rtranclp_trans)
    qed auto
  qed
  show "\<forall>p'. process_step n H L B send p p' \<longrightarrow> rank p' \<le> rank p \<and> pr_stopped p'"
    using rank_decreases assms(1) unfolding process_step_def by blast
qed

theorem shutdown_reaches_exit_witness:
  "\<exists>cfg c0 p. start_collector witness_host ''v1'' witness_environ (Some (1::nat)) (Some \<lparr>fi_file = 7, fi_modTime = 100, fi_size = 10\<rparr>)
       \<lparr>cs_reads = 0, cs_world = (0::nat)\<rparr> 0 = Some (Inr (cfg, c0)) \<and>
     (witness_process_step cfg)\<^sup>*\<^sup>* ((start_process cfg c0)\<lparr>pr_stopped := True\<rparr>) p \<and> pr_exit p \<noteq> None"
proof -
  obtain cfg c0 where start: "start_collector witness_host ''v1'' witness_environ (Some (1::nat))
      (Some \<lparr>fi_file = 7, fi_modTime = 100, fi_size = 10\<rparr>) \<lparr>cs_reads = 0, cs_world = (0::nat)\<rparr> 0 = Some (Inr (cfg, c0))"
    using witness_starts by blast
  have "pr_stopped ((start_process cfg c0)\<lparr>pr_stopped := True\<rparr>)" by simp
  from shutdown_reaches_exit [OF this witness_process_env(2)] witness_process_env(3) start show ?thesis by blast
qed

end
