(* ===== verification/Encode.thy ===== *)
theory Encode
  imports Elastic Decode "HOL-Library.Char_ord" "HOL-Library.List_Lexorder"
begin

section \<open>The text of a bulk request\<close>

text \<open>
  What \<open>BuildBulkPayload\<close> writes through \<open>json.Encoder\<close>: for each line a JSON text on a line of its
  own. The encoder escapes what HTML and JavaScript would interpret, replaces bytes that are no
  UTF-8 by U+FFFD and sorts the keys of a map. The decimal text of a \<open>float64\<close>, the shortest one that
  reads back, is the parameter \<open>fmt\<close>.
\<close>

subsection \<open>Strings\<close>

definition unicode_escape :: "nat \<Rightarrow> string" where
  "unicode_escape r = [CHR 0x5C, CHR ''u'', hex_digit (r div 4096 mod 16), hex_digit (r div 256 mod 16),
     hex_digit (r div 16 mod 16), hex_digit (r mod 16)]"

definition escape_ascii :: "char \<Rightarrow> string" where
  "escape_ascii c =
     (if c = CHR 0x22 \<or> c = CHR 0x5C then [CHR 0x5C, c]
      else if c = CHR 0x08 then [CHR 0x5C, CHR ''b''] else if c = CHR 0x0C then [CHR 0x5C, CHR ''f'']
      else if c = CHR 0x0A then [CHR 0x5C, CHR ''n''] else if c = CHR 0x0D then [CHR 0x5C, CHR ''r'']
      else if c = CHR 0x09 then [CHR 0x5C, CHR ''t'']
      else if byte c < 32 \<or> c = CHR ''<'' \<or> c = CHR ''>'' \<or> c = CHR ''&'' then unicode_escape (byte c)
      else [c])"

text \<open>A rune above ASCII, read from \<open>c # s\<close> with \<open>rest\<close> behind it.\<close>

definition escape_rune :: "char \<Rightarrow> string \<Rightarrow> nat \<Rightarrow> string \<Rightarrow> string" where
  "escape_rune c s r rest =
     (if r = 65533 \<and> length rest = length s \<or> r = 8232 \<or> r = 8233 then unicode_escape r
      else c # take (length s - length rest) s)"

function quote_body :: "string \<Rightarrow> string" where
  "quote_body [] = []"
| "quote_body (c # s) =
     (if is_ascii c then escape_ascii c @ quote_body s
      else escape_rune c s (fst (decode_rune c s)) (snd (decode_rune c s)) @ quote_body (snd (decode_rune c s)))"
  by pat_completeness auto
termination
proof (relation "measure length", goal_cases)
  case (3 c s)
  then show ?case using decode_rune_length [of c s] by simp
qed auto

definition quote :: "string \<Rightarrow> string" where
  "quote s = CHR 0x22 # quote_body s @ [CHR 0x22]"

subsection \<open>Values and documents\<close>

definition int_text :: "int \<Rightarrow> string" where
  "int_text n = (if n < 0 then CHR ''-'' # nat_digits (nat (- n)) else nat_digits (nat n))"

text \<open>Infinities and NaN are refused before, by \<open>payload_encodable\<close>.\<close>

definition member_text :: "string \<times> string \<Rightarrow> string" where
  "member_text m = quote (fst m) @ CHR '':'' # snd m"

fun encode_any :: "(real \<Rightarrow> string) \<Rightarrow> any \<Rightarrow> string" where
  "encode_any fmt ANil = ''null''"
| "encode_any fmt (ABool b) = (if b then ''true'' else ''false'')"
| "encode_any fmt (AFloat64 x) = (case x of Fin r \<Rightarrow> fmt r | _ \<Rightarrow> [])"
| "encode_any fmt (AString s) = quote s"
| "encode_any fmt (AInt n) = int_text n"
| "encode_any fmt (AInt32 n) = int_text n"
| "encode_any fmt (AInt64 n) = int_text n"
| "encode_any fmt (ASlice vs) = CHR ''['' # join_with CHR '','' (map (encode_any fmt) vs) @ '']''"
| "encode_any fmt (AMap es) = CHR ''{'' # join_with CHR '',''
     (map member_text (sort_key fst (map (\<lambda>(k, v). (k, encode_any fmt v)) es))) @ ''}''"

definition docval_any :: "docval \<Rightarrow> any" where
  "docval_any d = (case d of
       DString s \<Rightarrow> AString s
     | DBool b \<Rightarrow> ABool b
     | DInt n \<Rightarrow> AInt n
     | DStrings xs \<Rightarrow> ASlice (map AString xs)
     | DPayload None \<Rightarrow> ANil
     | DPayload (Some m) \<Rightarrow> AMap m
     | DPoint lat lon \<Rightarrow> AMap [(''lat'', AFloat64 lat), (''lon'', AFloat64 lon)])"

text \<open>The keys a document can have.\<close>

definition document_keys :: "string list" where
  "document_keys = base_keys @ map fst (string_fields zero_event) @ extra_keys @ promoted_keys"

definition document_entries :: "document \<Rightarrow> go_map" where
  "document_entries doc = concat (map (\<lambda>k. case doc k of None \<Rightarrow> [] | Some d \<Rightarrow> [(k, docval_any d)]) document_keys)"

definition line_text :: "(real \<Rightarrow> string) \<Rightarrow> bulk_line \<Rightarrow> string" where
  "line_text fmt l = (case l of
       ActionLine dataStream docID \<Rightarrow>
         encode_any fmt (AMap [(''create'', AMap [(''_index'', AString dataStream), (''_id'', AString docID)])])
     | DocLine doc \<Rightarrow> encode_any fmt (AMap (document_entries doc)))"

definition payload_text :: "(real \<Rightarrow> string) \<Rightarrow> bulk_line list \<Rightarrow> string" where
  "payload_text fmt ls = concat (map (\<lambda>l. line_text fmt l @ [CHR 0x0A]) ls)"

subsection \<open>Lemmas\<close>

text \<open>No line break leaves the encoder inside a value.\<close>

lemma hex_digit_plain: "n < 16 \<Longrightarrow> hex_digit n \<noteq> CHR 0x0A"
  unfolding hex_digit_def by (simp add: nth_Cons' split: if_splits)

lemma unicode_escape_plain: "CHR 0x0A \<notin> set (unicode_escape r)"
  using hex_digit_plain [of "r div 4096 mod 16"] hex_digit_plain [of "r div 256 mod 16"]
    hex_digit_plain [of "r div 16 mod 16"] hex_digit_plain [of "r mod 16"]
  by (auto simp: unicode_escape_def)

lemma escape_ascii_plain: "CHR 0x0A \<notin> set (escape_ascii c)"
  using unicode_escape_plain by (auto simp: escape_ascii_def)

text \<open>What \<open>decode_rune\<close> reads beyond the first byte are bytes above ASCII, and no more than it reads matter.\<close>

lemma decode_rune_split:
  assumes "\<not> is_ascii c" "decode_rune c s = (r, rest)"
  shows "\<exists>p. s = p @ rest \<and> list_all (\<lambda>b. \<not> is_ascii b) p \<and> (p = [] \<longrightarrow> r = 65533) \<and>
    (\<forall>t. p \<noteq> [] \<longrightarrow> decode_rune c (p @ t) = (r, t))"
proof -
  let ?b = "byte c"
  have cont: "cont b \<Longrightarrow> \<not> is_ascii b" for b by (simp add: cont_def is_ascii_def)
  have second: "second_ok b0 (byte b) \<Longrightarrow> \<not> is_ascii b" for b0 b
    by (auto simp: second_ok_def is_ascii_def split: if_splits)
  consider (bad) "r = 65533" "rest = s"
    | (two) c1 where "194 \<le> ?b" "?b \<le> 223" "s = c1 # rest" "cont c1" "r = (?b - 192) * 64 + (byte c1 - 128)"
    | (three) c1 c2 where "224 \<le> ?b" "?b \<le> 239" "s = c1 # c2 # rest" "second_ok ?b (byte c1)" "cont c2"
        "r = (?b - 224) * 4096 + (byte c1 - 128) * 64 + (byte c2 - 128)"
    | (four) c1 c2 c3 where "240 \<le> ?b" "?b \<le> 244" "s = c1 # c2 # c3 # rest" "second_ok ?b (byte c1)" "cont c2" "cont c3"
        "r = (?b - 240) * 262144 + (byte c1 - 128) * 4096 + (byte c2 - 128) * 64 + (byte c3 - 128)"
    using assms unfolding decode_rune_def Let_def is_ascii_def
    by (auto split: if_splits list.splits)
  then show ?thesis
  proof cases
    case bad
    then show ?thesis by simp
  next
    case two
    then show ?thesis using cont by (intro exI [of _ "[c1]"]) (simp add: decode_rune_def Let_def)
  next
    case three
    then show ?thesis using cont second by (intro exI [of _ "[c1, c2]"]) (simp add: decode_rune_def Let_def)
  next
    case four
    then show ?thesis using cont second by (intro exI [of _ "[c1, c2, c3]"]) (simp add: decode_rune_def Let_def)
  qed
qed

lemma escape_rune_cases:
  assumes "\<not> is_ascii c" "decode_rune c s = (r, rest)"
  obtains (escaped) "escape_rune c s r rest = unicode_escape r" "r = 65533 \<or> r = 8232 \<or> r = 8233"
    | (raw) p where "escape_rune c s r rest = c # p" "s = p @ rest" "p \<noteq> []" "list_all (\<lambda>b. \<not> is_ascii b) p"
        "\<And>t. decode_rune c (p @ t) = (r, t)"
proof -
  obtain p where p: "s = p @ rest" "list_all (\<lambda>b. \<not> is_ascii b) p" "p = [] \<longrightarrow> r = 65533"
    "\<forall>t. p \<noteq> [] \<longrightarrow> decode_rune c (p @ t) = (r, t)"
    using decode_rune_split [OF assms] by blast
  show thesis
  proof (cases "p = [] \<or> r = 8232 \<or> r = 8233")
    case True
    with p escaped show thesis by (auto simp: escape_rune_def)
  next
    case False
    with p raw [of p] show thesis by (simp add: escape_rune_def)
  qed
qed

text \<open>Above ASCII there is no quote, no backslash and no control character.\<close>

lemma not_ascii_plain: "\<not> is_ascii c \<Longrightarrow> c \<notin> {CHR 0x22, CHR 0x5C, CHR 0x0A} \<and> \<not> byte c < 32"
  by (auto simp: is_ascii_def byte_def)

lemma quote_body_plain: "CHR 0x0A \<notin> set (quote_body s)"
proof (induction s rule: quote_body.induct)
  case (2 c s)
  show ?case
  proof (cases "is_ascii c")
    case True
    with 2(1) show ?thesis using escape_ascii_plain by auto
  next
    case False
    obtain r rest where d: "decode_rune c s = (r, rest)" by (metis surj_pair)
    have "CHR 0x0A \<notin> set (escape_rune c s r rest)"
      using False d
    proof (cases rule: escape_rune_cases)
      case escaped
      then show ?thesis using unicode_escape_plain by simp
    next
      case (raw p)
      then show ?thesis using False not_ascii_plain by (auto simp: list_all_iff)
    qed
    with 2(2) [OF False] False d show ?thesis by simp
  qed
qed simp

lemma quote_plain: "CHR 0x0A \<notin> set (quote s)"
  using quote_body_plain by (simp add: quote_def)

lemma digit_plain: "k < 10 \<Longrightarrow> chr (48 + k) \<noteq> CHR 0x0A"
proof
  assume "k < 10" "chr (48 + k) = CHR 0x0A"
  then have "48 + k = byte CHR 0x0A" using digit_byte [of k] by simp
  then show False by (simp add: byte_def)
qed

lemma nat_digits_plain: "CHR 0x0A \<notin> set (nat_digits n)"
proof (induction n rule: nat_digits.induct)
  case (1 n)
  then show ?case using digit_plain [of n] digit_plain [of "n mod 10"]
    by (subst nat_digits.simps) (auto dest: sym)
qed

lemma join_plain: "CHR 0x0A \<notin> set (join_with CHR '','' xs) \<longleftrightarrow> (\<forall>x\<in>set xs. CHR 0x0A \<notin> set x)"
  by (cases xs) (auto simp: join_with_def)

lemma encode_any_plain:
  assumes "\<And>r. CHR 0x0A \<notin> set (fmt r)"
  shows "CHR 0x0A \<notin> set (encode_any fmt v)"
proof (induction v)
  case (AMap es)
  have "CHR 0x0A \<notin> set (encode_any fmt w)" if "(k, w) \<in> set es" for k w
    using that AMap by (auto simp: snds.simps)
  then show ?case using quote_plain by (auto simp: join_plain member_text_def)
next
  case (ASlice vs)
  then show ?case by (simp add: join_plain)
qed (use assms quote_plain nat_digits_plain in \<open>auto simp: int_text_def split: f64.split\<close>)

lemma line_text_plain:
  "(\<And>r. CHR 0x0A \<notin> set (fmt r)) \<Longrightarrow> CHR 0x0A \<notin> set (line_text fmt l)"
  using encode_any_plain [of fmt] by (cases l) (simp_all add: line_text_def del: encode_any.simps)

text \<open>Splitting at line breaks gives the lines back.\<close>

lemma split_line: "CHR 0x0A \<notin> set x \<Longrightarrow> split_on CHR 0x0A (x @ CHR 0x0A # t) = x # split_on CHR 0x0A t"
  by (induction x) (auto split: list.splits)

lemma payload_lines:
  assumes "\<And>r. CHR 0x0A \<notin> set (fmt r)"
  shows "split_on CHR 0x0A (payload_text fmt ls) = map (line_text fmt) ls @ [[]]"
  using line_text_plain [OF assms]
  by (induction ls) (simp_all add: payload_text_def split_line)

end
