(* ===== verification/Utf8.thy ===== *)
theory Utf8
  imports Encode
begin

section \<open>Valid UTF-8\<close>

text \<open>
  Whatever the bytes of a request are, the strings that are decoded from it are UTF-8: the decoder
  of \<open>Json\<close> replaces what is no encoding, lone surrogates included.
\<close>

subsection \<open>Runes and their encodings\<close>

text \<open>Bytes that \<open>range\<close> reads without meeting an invalid encoding, \<open>utf8.ValidString\<close>.\<close>

definition utf8_valid :: "string \<Rightarrow> bool" where
  "utf8_valid s \<longleftrightarrow> map_runes id s = s"

lemma chr_byte [simp]: "chr (byte c) = c"
  by (simp add: chr_def byte_def)

lemma map_runes_Cons: "map_runes f (c # s) = encode_rune (f (fst (decode_rune c s))) @ map_runes f (snd (decode_rune c s))"
  by (simp add: map_runes_def split: prod.split)

lemma map_runes_Nil: "map_runes f [] = []"
  by (simp add: map_runes_def)

lemma decode_rune_ascii: "is_ascii c \<Longrightarrow> decode_rune c s = (byte c, s)"
  by (simp add: decode_rune_def is_ascii_def Let_def)

lemma encode_rune_ascii: "is_ascii c \<Longrightarrow> encode_rune (byte c) = [c]"
  by (simp add: encode_rune_def is_ascii_def Let_def)

lemma utf8_ascii: "list_all is_ascii s \<Longrightarrow> utf8_valid s"
  by (induction s) (simp_all add: utf8_valid_def map_runes_Cons map_runes_Nil decode_rune_ascii encode_rune_ascii)

lemma byte_chr: "n < 256 \<Longrightarrow> byte (chr n) = n"
  by (simp add: byte_def chr_def)

text \<open>A rune that has an encoding is read back from it.\<close>

lemma cont_chr: "z < 64 \<Longrightarrow> cont (chr (128 + z))"
  by (simp add: cont_def byte_chr)

lemma decode_two:
  assumes "2 \<le> y" "y < 32" "z < 64"
  shows "decode_rune (chr (192 + y)) (chr (128 + z) # t) = (y * 64 + z, t)"
proof -
  have "byte (chr (192 + y)) = 192 + y" "byte (chr (128 + z)) = 128 + z" using assms by (simp_all add: byte_chr)
  with assms cont_chr [of z] show ?thesis by (simp add: decode_rune_def)
qed

lemma decode_three:
  assumes "x < 16" "y < 64" "z < 64" "x = 0 \<Longrightarrow> 32 \<le> y" "x = 13 \<Longrightarrow> y < 32"
  shows "decode_rune (chr (224 + x)) (chr (128 + y) # chr (128 + z) # t) = (x * 4096 + y * 64 + z, t)"
proof -
  have bytes: "byte (chr (224 + x)) = 224 + x" "byte (chr (128 + y)) = 128 + y" "byte (chr (128 + z)) = 128 + z"
    using assms by (simp_all add: byte_chr)
  have "second_ok (224 + x) (128 + y)" using assms by (auto simp: second_ok_def)
  with bytes assms cont_chr [of z] show ?thesis by (simp add: decode_rune_def)
qed

lemma decode_four:
  assumes "w < 5" "x < 64" "y < 64" "z < 64" "w = 0 \<Longrightarrow> 16 \<le> x" "w = 4 \<Longrightarrow> x < 16"
  shows "decode_rune (chr (240 + w)) (chr (128 + x) # chr (128 + y) # chr (128 + z) # t) =
    (w * 262144 + x * 4096 + y * 64 + z, t)"
proof -
  have bytes: "byte (chr (240 + w)) = 240 + w" "byte (chr (128 + x)) = 128 + x" "byte (chr (128 + y)) = 128 + y"
    "byte (chr (128 + z)) = 128 + z"
    using assms by (simp_all add: byte_chr)
  have "second_ok (240 + w) (128 + x)" using assms by (auto simp: second_ok_def)
  with bytes assms cont_chr [of y] cont_chr [of z] show ?thesis by (simp add: decode_rune_def)
qed

lemma digits64:
  fixes r :: nat
  shows "r div 64 * 64 + r mod 64 = r" "r div 64 = r div 4096 * 64 + r div 64 mod 64"
    "r div 4096 = r div 262144 * 64 + r div 4096 mod 64"
  by (simp_all add: div_mult2_eq [of r 64 64, simplified] div_mult2_eq [of r 4096 64, simplified])

lemma decode_encoded:
  assumes "r \<le> 1114111" "r < 55296 \<or> 57343 < r"
  shows "\<exists>c p. encode_rune r = c # p \<and> decode_rune c (p @ t) = (r, t)"
proof -
  consider "r < 128" | "128 \<le> r" "r < 2048" | "2048 \<le> r" "r < 65536" | "65536 \<le> r" by linarith
  then show ?thesis
  proof cases
    case 1
    then have "byte (chr r) = r" by (simp add: byte_chr)
    with 1 show ?thesis by (simp add: encode_rune_def Let_def decode_rune_def)
  next
    case 2
    then have "decode_rune (chr (192 + r div 64)) (chr (128 + r mod 64) # t) = (r, t)"
      using decode_two [of "r div 64" "r mod 64" t] digits64(1) [of r] by simp
    with 2 show ?thesis by (simp add: encode_rune_def Let_def)
  next
    case 3
    define x y z where xyz: "x = r div 4096" "y = r div 64 mod 64" "z = r mod 64"
    have r: "r = x * 4096 + y * 64 + z" using digits64(1,2) [of r] unfolding xyz by linarith
    have bounds: "x < 16" "y < 64" "z < 64" using 3 by (simp_all add: xyz)
    have "x = 0 \<Longrightarrow> 32 \<le> y" "x = 13 \<Longrightarrow> y < 32" using r bounds 3 assms by linarith+
    from decode_three [OF bounds this, of t] 3 assms(2) show ?thesis
      unfolding r [symmetric] by (auto simp: encode_rune_def Let_def xyz)
  next
    case 4
    define w x y z where wxyz: "w = r div 262144" "x = r div 4096 mod 64" "y = r div 64 mod 64" "z = r mod 64"
    have r: "r = w * 262144 + x * 4096 + y * 64 + z" using digits64 [of r] unfolding wxyz by linarith
    have bounds: "w < 5" "x < 64" "y < 64" "z < 64" using assms(1) by (simp_all add: wxyz)
    have "w = 0 \<Longrightarrow> 16 \<le> x" "w = 4 \<Longrightarrow> x < 16" using r bounds 4 assms by linarith+
    from decode_four [OF bounds this, of t] 4 assms(1) show ?thesis
      unfolding r [symmetric] by (auto simp: encode_rune_def Let_def wxyz)
  qed
qed

lemma encode_rune_kept: "map_runes id (encode_rune r @ t) = encode_rune r @ map_runes id t"
proof -
  define q where "q = (if r > 1114111 \<or> 55296 \<le> r \<and> r \<le> 57343 then 65533 else r)"
  have q: "q \<le> 1114111" "q < 55296 \<or> 57343 < q" "encode_rune r = encode_rune q"
    by (auto simp: q_def encode_rune_def)
  from decode_encoded [OF this(1,2), of t]
  have "\<exists>c p. encode_rune q = c # p \<and> decode_rune c (p @ t) = (q, t)" .
  then show ?thesis unfolding q(3) by (auto simp: map_runes_Cons)
qed

subsection \<open>String literals\<close>

text \<open>Text that a string literal can contain as it is.\<close>

definition scans :: "string \<Rightarrow> bool" where
  "scans p \<longleftrightarrow> (\<forall>u. scan_string (p @ u) = map_option (apfst ((@) p)) (scan_string u))"

lemma scans_Nil: "scans []"
proof -
  have "apfst ((@) []) = (id :: string \<times> string \<Rightarrow> string \<times> string)" by auto
  then show ?thesis by (simp add: scans_def option.map_id)
qed

lemma scans_append: "scans p \<Longrightarrow> scans q \<Longrightarrow> scans (p @ q)"
  by (auto simp: scans_def option.map_comp intro!: option.map_cong)

lemma scans_quoted: "scans p \<Longrightarrow> scan_string (p @ CHR 0x22 # t) = Some (p, t)"
  by (simp add: scans_def scan_string.simps(2))

lemma scans_plain: "c \<notin> {CHR 0x22, CHR 0x5C} \<Longrightarrow> \<not> byte c < 32 \<Longrightarrow> scans [c]"
  by (auto simp: scans_def scan_string.simps(2) intro!: option.map_cong)

lemma scans_escape:
  "c \<in> {CHR 0x22, CHR 0x5C, CHR ''b'', CHR ''f'', CHR ''n'', CHR ''r'', CHR ''t''} \<Longrightarrow> scans [CHR 0x5C, c]"
  by (auto simp: scans_def scan_string.simps(2) intro!: option.map_cong)

lemma scans_not_ascii: "list_all (\<lambda>b. \<not> is_ascii b) p \<Longrightarrow> scans p"
proof (induction p)
  case (Cons b p)
  with scans_append [of "[b]" p] scans_plain [of b] not_ascii_plain [of b] show ?case by simp
qed (simp add: scans_Nil)


text \<open>The text between the quotes of a literal.\<close>

definition scanned :: "string \<Rightarrow> bool" where
  "scanned x \<longleftrightarrow> (\<exists>s r. scan_string s = Some (x, r))"

lemma hex4_take: "hex4 s = Some (k, drop 4 s) \<Longrightarrow> hex4 (take 4 s @ y) = Some (k, y)"
  by (cases s rule: hex4.cases) (auto split: option.splits)

lemma scanned_cases:
  assumes "scanned x"
  obtains (empty) "x = []"
    | (unicode) h y k where "x = CHR 0x5C # CHR ''u'' # h @ y" "\<And>z. hex4 (h @ z) = Some (k, z)" "scanned y"
    | (escape) d y where "x = CHR 0x5C # d # y" "d \<noteq> CHR ''u''"
        "d \<in> {CHR 0x22, CHR 0x5C, CHR ''/'', CHR ''b'', CHR ''f'', CHR ''n'', CHR ''r'', CHR ''t''}" "scanned y"
    | (plain) c y where "x = c # y" "c \<noteq> CHR 0x5C" "scanned y"
proof -
  obtain s r where s: "scan_string s = Some (x, r)" using assms by (auto simp: scanned_def)
  then obtain c s1 where "s = c # s1" by (cases s) auto
  with s have "scan_string (c # s1) = Some (x, r)" by simp
  then show thesis
  proof (cases rule: scan_string_cases)
    case quote
    with empty show thesis by simp
  next
    case (unicode s2 k x1)
    show thesis
    proof (rule that(2))
      show "x = CHR 0x5C # CHR ''u'' # take 4 s2 @ x1" using unicode by simp
      show "hex4 (take 4 s2 @ z) = Some (k, z)" for z using hex4_take [OF unicode(3)] .
      show "scanned x1" using unicode(4) by (auto simp: scanned_def)
    qed
  next
    case (escape d s2 x1)
    then have "scanned x1" by (auto simp: scanned_def)
    with escape that(3) show thesis by simp
  next
    case (plain x1)
    then have "scanned x1" by (auto simp: scanned_def)
    with plain that(4) show thesis by simp
  qed
qed

lemma scanned_behind: "scanned (p @ q) \<Longrightarrow> list_all (\<lambda>b. \<not> is_ascii b) p \<Longrightarrow> scanned q"
proof (induction p)
  case (Cons b p)
  have "b \<noteq> CHR 0x5C" using Cons.prems(2) not_ascii_plain [of b] by auto
  with Cons.prems(1) have "scanned (p @ q)" by (cases rule: scanned_cases) auto
  with Cons show ?case by simp
qed simp

lemma scanned_surrogate: "scanned x \<Longrightarrow> scanned (snd (surrogate_pair r x))"
proof (cases "take 2 x = [CHR 0x5C, CHR ''u'']")
  case True
  assume "scanned x"
  then show ?thesis
  proof (cases rule: scanned_cases)
    case (unicode h y k)
    with \<open>scanned x\<close> show ?thesis by (auto simp: surrogate_pair_def)
  qed (use True \<open>scanned x\<close> in auto)
qed (auto simp: surrogate_pair_def)

text \<open>The meaning of a literal is UTF-8.\<close>

lemma utf8_encode_rune: "utf8_valid t \<Longrightarrow> utf8_valid (encode_rune r @ t)"
  by (simp add: utf8_valid_def encode_rune_kept)

lemma utf8_Cons: "is_ascii c \<Longrightarrow> utf8_valid t \<Longrightarrow> utf8_valid (c # t)"
  by (simp add: utf8_valid_def map_runes_Cons decode_rune_ascii encode_rune_ascii)

lemma scanned_valid: "scanned x \<Longrightarrow> utf8_valid (unquote x)"
proof (induction "length x" arbitrary: x rule: less_induct)
  case less
  from less(2) show ?case
  proof (cases rule: scanned_cases)
    case empty
    then show ?thesis by (simp add: utf8_ascii)
  next
    case (unicode h y k)
    have "length (snd (surrogate_pair k y)) < length x"
      using surrogate_pair_length [of k y] unicode(1) by simp
    with less(1) scanned_surrogate [OF unicode(3)] have "utf8_valid (unquote (snd (surrogate_pair k y)))" by simp
    with unicode show ?thesis by (simp add: utf8_encode_rune)
  next
    case (escape d y)
    have "is_ascii (escape_char d)" using escape(3)
      by (elim insertE emptyE) (simp_all add: escape_char_def is_ascii_def byte_def)
    with escape less(1) [of y] show ?thesis by (simp add: utf8_Cons)
  next
    case (plain c y)
    show ?thesis
    proof (cases "is_ascii c")
      case True
      with plain less(1) [of y] show ?thesis by (simp add: utf8_Cons)
    next
      case False
      obtain r rest where d: "decode_rune c y = (r, rest)" by (metis surj_pair)
      obtain p where p: "y = p @ rest" "list_all (\<lambda>b. \<not> is_ascii b) p"
        using decode_rune_split [OF False d] by blast
      with plain(3) have "scanned rest" using scanned_behind by blast
      with less(1) [of rest] p plain(1) have "utf8_valid (unquote rest)" by simp
      with False d plain(1,2) show ?thesis by (simp add: utf8_encode_rune)
    qed
  qed
qed

subsection \<open>Values\<close>

fun scanned_json :: "json \<Rightarrow> bool" where
  "scanned_json (JString x) \<longleftrightarrow> scanned x"
| "scanned_json (JArray vs) \<longleftrightarrow> (\<forall>v\<in>set vs. scanned_json v)"
| "scanned_json (JObject ms) \<longleftrightarrow> (\<forall>(k, v)\<in>set ms. scanned k \<and> scanned_json v)"
| "scanned_json v \<longleftrightarrow> True"

lemma parse_scanned:
  "parse_value n d s = Some (v, r) \<Longrightarrow> scanned_json v"
  "parse_members n d s = Some (ms, r) \<Longrightarrow> \<forall>(k, v)\<in>set ms. scanned k \<and> scanned_json v"
  "parse_elements n d s = Some (vs, r) \<Longrightarrow> \<forall>v\<in>set vs. scanned_json v"
proof (induction n arbitrary: d s v r ms vs)
  case (Suc n)
  {
    case 1
    then show ?case
    proof (cases rule: parse_value_cases)
      case (object s1 ms)
      with Suc(2) show ?thesis by simp
    next
      case (array s1 vs)
      with Suc(3) show ?thesis by simp
    qed (auto simp: scanned_def)
  next
    case 2
    then show ?case
    proof (cases rule: parse_members_cases)
      case (1 s1 key s2 s3 v s4)
      from 1(2) have "scanned key" by (auto simp: scanned_def)
      with Suc(1) [OF 1(4)] 1(5) Suc(2) show ?thesis by fastforce
    qed
  next
    case 3
    then show ?case
    proof (cases rule: parse_elements_cases)
      case (1 v s1)
      with Suc(1) [OF 1(1)] Suc(3) show ?thesis by fastforce
    qed
  }
qed simp_all

fun utf8_any :: "any \<Rightarrow> bool" where
  "utf8_any (AString s) \<longleftrightarrow> utf8_valid s"
| "utf8_any (AMap es) \<longleftrightarrow> (\<forall>(k, v)\<in>set es. utf8_valid k \<and> utf8_any v)"
| "utf8_any (ASlice vs) \<longleftrightarrow> (\<forall>v\<in>set vs. utf8_any v)"
| "utf8_any v \<longleftrightarrow> True"


lemma store_entries_utf8:
  assumes "utf8_any (AMap m)" "\<forall>(k, v)\<in>set es. utf8_valid k \<and> utf8_any v"
  shows "utf8_any (AMap (fold store_entry es m))"
  using assms
proof (induction es arbitrary: m)
  case (Cons p es)
  obtain k v where p: "p = (k, v)" by (cases p)
  have "set (AList.update k v m) \<subseteq> insert (k, v) (set m)" by (induction m) auto
  with Cons.prems p have "utf8_any (AMap (store_entry p m))" by (auto simp: store_entry_def)
  from Cons.IH [OF this] Cons.prems show ?case by simp
qed simp

lemma members_utf8:
  assumes "those (map (\<lambda>(k, v). map_option (Pair (unquote k)) (to_any v)) ms) = Some es"
    "\<forall>(k, v)\<in>set ms. scanned k" "\<And>k v a. (k, v) \<in> set ms \<Longrightarrow> to_any v = Some a \<Longrightarrow> utf8_any a"
  shows "\<forall>(k, v)\<in>set es. utf8_valid k \<and> utf8_any v"
proof clarify
  fix k v assume "(k, v) \<in> set es"
  from those_member [OF assms(1) this] obtain k0 v0 where "(k0, v0) \<in> set ms" "k = unquote k0" "to_any v0 = Some v"
    by (auto simp: split_def)
  with assms(2,3) scanned_valid show "utf8_valid k \<and> utf8_any v" by blast
qed

lemma to_any_utf8: "to_any v = Some a \<Longrightarrow> scanned_json v \<Longrightarrow> utf8_any a"
proof (induction v arbitrary: a rule: to_any.induct)
  case (5 vs)
  then obtain ys where ys: "those (map to_any vs) = Some ys" "a = ASlice ys" by auto
  then have "\<forall>y\<in>set ys. \<exists>v\<in>set vs. to_any v = Some y" by (blast dest: those_member)
  with 5 ys show ?case by fastforce
next
  case (6 ms)
  then obtain es where es: "those (map (\<lambda>(k, v). map_option (Pair (unquote k)) (to_any v)) ms) = Some es"
    "a = AMap (fold store_entry es [])" by auto
  have "\<forall>(k, v)\<in>set es. utf8_valid k \<and> utf8_any v"
    using 6 by (intro members_utf8 [OF es(1)]) auto
  with es(2) store_entries_utf8 [of "[]" es] show ?case by simp
qed (auto simp: scanned_valid)

subsection \<open>Payloads\<close>

definition payload_utf8 :: "event \<Rightarrow> bool" where
  "payload_utf8 e \<longleftrightarrow> (\<forall>m\<in>set_option (ev_Payload e). utf8_any (AMap m))"

lemma decode_field_utf8:
  assumes "(k, f) \<in> set event_fields" "payload_utf8 (dc_event d)" "scanned_json v" "decode_field f v d = Some d'"
  shows "payload_utf8 (dc_event d')"
proof (cases f)
  case (StringField store)
  with assms string_fields_keep [of k store] show ?thesis
    by (cases v) (auto simp: decode_field_def on_event_def payload_utf8_def)
next
  case PayloadField
  show ?thesis
  proof (cases v)
    case (JObject ms)
    let ?old = "case ev_Payload (dc_event d) of None \<Rightarrow> [] | Some m \<Rightarrow> m"
    obtain es where es: "those (map (\<lambda>(k, v). map_option (Pair (unquote k)) (to_any v)) ms) = Some es"
      "d' = on_event (\<lambda>e. e\<lparr>ev_Payload := Some (fold store_entry es ?old)\<rparr>) d"
      using assms(4) PayloadField JObject by (auto simp: decode_field_def decode_entries_def)
    have "utf8_any (AMap ?old)" using assms(2) by (cases "ev_Payload (dc_event d)") (simp_all add: payload_utf8_def)
    moreover have "\<forall>(k, v)\<in>set es. utf8_valid k \<and> utf8_any v"
      using assms(3) JObject to_any_utf8 by (intro members_utf8 [OF es(1)]) auto
    ultimately have "utf8_any (AMap (fold store_entry es ?old))" by (rule store_entries_utf8)
    with es(2) show ?thesis by (simp add: payload_utf8_def on_event_def del: utf8_any.simps)
  qed (use assms PayloadField in \<open>auto simp: decode_field_def on_event_def payload_utf8_def\<close>)
qed (use assms in \<open>cases v; auto simp: decode_field_def on_event_def payload_utf8_def\<close>)+

lemma decode_members_utf8:
  "payload_utf8 (dc_event d) \<Longrightarrow> \<forall>(k, v)\<in>set ms. scanned_json v \<Longrightarrow> decode_members ms d = Some d' \<Longrightarrow>
     payload_utf8 (dc_event d')"
proof (induction ms d rule: decode_members.induct)
  case (2 key v ms d)
  then obtain f d1 where f: "find_field event_fields (unquote key) = Some f" "decode_field f v d = Some d1"
    "decode_members ms d1 = Some d'" by (auto split: option.splits)
  then obtain k where "(k, f) \<in> set event_fields" using find_field_member by metis
  with decode_field_utf8 [OF this] 2 f show ?case by auto
qed simp

lemma decode_event_utf8:
  assumes "decode_event v = Some e" "scanned_json v"
  shows "payload_utf8 e"
proof -
  have "payload_utf8 (dc_event start_decoding)" "payload_utf8 zero_event"
    by (simp_all add: payload_utf8_def zero_event_def start_decoding_def)
  with assms decode_members_utf8 [of start_decoding] show ?thesis
    by (cases v) (fastforce simp: decode_event_def)+
qed

text \<open>Every event is decoded from a value of the body.\<close>

lemma update_member: "(k, v) \<in> set (fold (\<lambda>(k, v). AList.update (unquote k) v) ms m) \<Longrightarrow> v \<in> snd ` set ms \<or> v \<in> snd ` set m"
proof (induction ms arbitrary: m)
  case (Cons p ms)
  obtain k' v' where p: "p = (k', v')" by (cases p)
  have "set (AList.update (unquote k') v' m) \<subseteq> insert (unquote k', v') (set m)" by (induction m) auto
  with Cons.IH [of "AList.update (unquote k') v' m"] Cons.prems p show ?case by force
qed force

lemma decoded_payload_utf8:
  assumes "DecodeBatch body = Inr es" "e \<in> set es"
  shows "payload_utf8 e"
proof -
  have body: "scanned_json v" if "parse_json body = Some (v, r)" for v r
    using that parse_scanned(1) by (auto simp: parse_json_def)
  obtain v where "decode_event v = Some e" "scanned_json v"
  proof (cases "decodeBatchRequest body")
    case (Inr batch)
    show thesis
    proof (cases batch)
      case None
      with assms Inr body that show thesis
        by (auto simp: DecodeBatch_def decode_single_Inr split: sum.splits)
    next
      case (Some es1)
      with assms Inr have "es = es1" by (auto simp: DecodeBatch_def split: if_splits)
      with Inr Some assms(2) obtain ms vs where ms: "parse_text body = Some (JObject ms)"
        "map_of (fold (\<lambda>(k, v). AList.update (unquote k) v) ms []) ''events'' = Some (JArray vs)"
        "those (map decode_event vs) = Some es"
        by (auto simp: decodeBatchRequest_def Let_def split: option.splits json.splits if_splits)
      then obtain v where v: "v \<in> set vs" "decode_event v = Some e" using those_member [OF ms(3) assms(2)] by blast
      have "scanned_json (JObject ms)" using ms(1) body by (auto simp: parse_text_def split: option.splits if_splits)
      moreover have "JArray vs \<in> snd ` set ms" using update_member [OF map_of_SomeD [OF ms(2)]] by simp
      ultimately have "scanned_json (JArray vs)" by fastforce
      with v that show thesis by simp
    qed
  qed (use assms in \<open>simp add: DecodeBatch_def\<close>)
  then show ?thesis by (rule decode_event_utf8)
qed

end
