(* ===== verification/Readback.thy ===== *)
theory Readback
  imports Utf8
begin

section \<open>Reading the documents back\<close>

text \<open>
  The decoder of \<open>Json\<close> on what the encoder of \<open>Encode\<close> writes: string literals, numbers, values
  and whole documents.
\<close>

subsection \<open>String literals\<close>

lemma hex_value_digit: "n < 16 \<Longrightarrow> hex_value (hex_digit n) = Some n"
proof -
  have "list_all (\<lambda>n. hex_value (hex_digit n) = Some n) [0..<16]" by code_simp
  then show "n < 16 \<Longrightarrow> hex_value (hex_digit n) = Some n" by (simp add: list_all_iff)
qed

text \<open>The digits of an escape, behind its backslash and its \<open>u\<close>.\<close>

definition hex_digits :: "nat \<Rightarrow> string" where
  "hex_digits r = [hex_digit (r div 4096 mod 16), hex_digit (r div 256 mod 16), hex_digit (r div 16 mod 16), hex_digit (r mod 16)]"

lemma unicode_escape_eq: "unicode_escape r = CHR 0x5C # CHR ''u'' # hex_digits r"
  by (simp add: unicode_escape_def hex_digits_def)

lemma length_hex_digits [simp]: "length (hex_digits r) = 4"
  by (simp add: hex_digits_def)

lemma hex4_digits:
  assumes "r < 65536"
  shows "hex4 (hex_digits r @ u) = Some (r, u)"
proof -
  define a b c where "a = r div 16" "b = a div 16" "c = b div 16"
  have "c < 16" using assms unfolding a_b_c_def by (simp add: div_mult2_eq [symmetric])
  moreover have "r div 4096 mod 16 = c mod 16" "r div 256 mod 16 = b mod 16" "r div 16 mod 16 = a mod 16"
    unfolding a_b_c_def by (simp_all add: div_mult2_eq [symmetric])
  moreover have "c * 16 + b mod 16 = b" "b * 16 + a mod 16 = a" "a * 16 + r mod 16 = r"
    unfolding a_b_c_def by (rule div_mult_mod_eq)+
  ultimately show ?thesis by (simp add: hex_digits_def hex_value_digit)
qed

lemma scans_unicode_escape: "r < 65536 \<Longrightarrow> scans (unicode_escape r)"
  unfolding scans_def
proof
  fix u assume "r < 65536"
  from hex4_digits [OF this] show "scan_string (unicode_escape r @ u) =
      map_option (apfst ((@) (unicode_escape r))) (scan_string u)"
    by (cases "scan_string u") (auto simp: unicode_escape_eq scan_string.simps(2))
qed

lemma scans_escape_ascii:
  assumes "is_ascii c"
  shows "scans (escape_ascii c)"
proof -
  have "byte c < 65536" using assms by (simp add: is_ascii_def)
  then show ?thesis using scans_unicode_escape scans_plain [of c] scans_escape
    by (simp add: escape_ascii_def)
qed

lemma scans_quote_body: "scans (quote_body s)"
proof (induction s rule: quote_body.induct)
  case (2 c s)
  show ?case
  proof (cases "is_ascii c")
    case True
    with 2(1) show ?thesis by (simp add: scans_append scans_escape_ascii)
  next
    case False
    obtain r rest where d: "decode_rune c s = (r, rest)" by (metis surj_pair)
    have "scans (escape_rune c s r rest)"
      using False d
    proof (cases rule: escape_rune_cases)
      case escaped
      then show ?thesis using scans_unicode_escape by auto
    next
      case (raw p)
      then show ?thesis using False scans_not_ascii [of "c # p"] by simp
    qed
    with 2(2) [OF False] False d show ?thesis by (simp add: scans_append)
  qed
qed (simp add: scans_Nil)

text \<open>A literal means the string that was written, with U+FFFD for bytes that are no encoding.\<close>

lemma unquote_unicode_escape:
  assumes "r < 65536" "r < 55296 \<or> 57343 < r"
  shows "unquote (unicode_escape r @ u) = encode_rune r @ unquote u"
  using assms hex4_digits [of r u] by (simp add: unicode_escape_eq surrogate_pair_def)

lemma unquote_escape:
  "d \<noteq> CHR ''u'' \<Longrightarrow> unquote (CHR 0x5C # d # u) = escape_char d # unquote u"
  by simp

lemma unquote_escape_ascii:
  assumes "is_ascii c"
  shows "unquote (escape_ascii c @ u) = c # unquote u"
proof -
  have "byte c < 65536" "byte c < 55296 \<or> 57343 < byte c" using assms by (auto simp: is_ascii_def)
  from unquote_unicode_escape [OF this, of u] encode_rune_ascii [OF assms]
  have u: "unquote (unicode_escape (byte c) @ u) = c # unquote u" by simp
  have plain: "c \<noteq> CHR 0x5C \<Longrightarrow> unquote (c # u) = c # unquote u" using assms by simp
  show ?thesis
    unfolding escape_ascii_def
    by (simp add: u plain unquote_escape escape_char_def del: unquote.simps(2))
qed

lemma unquote_quote_body: "unquote (quote_body s) = map_runes id s"
proof (induction s rule: quote_body.induct)
  case (2 c s)
  show ?case
  proof (cases "is_ascii c")
    case True
    with 2(1) show ?thesis
      by (simp add: unquote_escape_ascii map_runes_Cons decode_rune_ascii encode_rune_ascii del: unquote.simps)
  next
    case False
    obtain r rest where d: "decode_rune c s = (r, rest)" by (metis surj_pair)
    have "unquote (escape_rune c s r rest @ u) = encode_rune r @ unquote u" for u
      using False d
    proof (cases rule: escape_rune_cases)
      case escaped
      then show ?thesis using unquote_unicode_escape [of r u] by auto
    next
      case (raw p)
      then show ?thesis using False not_ascii_plain [of c] by simp
    qed
    with 2(2) [OF False] False d show ?thesis by (simp add: map_runes_Cons)
  qed
qed (simp add: map_runes_Nil)

text \<open>
  Truncation counts bytes: it cuts a rune in two, and the encoder then writes U+FFFD for each byte that
  is left, which takes more bytes than the limit allows.
\<close>

lemma truncation_splits_rune:
  fixes euro :: string
  defines "euro \<equiv> map chr [226, 130, 172]"
  shows "utf8_valid euro" "\<not> utf8_valid (truncateString euro 2)"
    "unquote (quote_body (truncateString euro 2)) = encode_rune 65533 @ encode_rune 65533"
proof -
  have "encode_rune 8364 = euro" by (simp add: encode_rune_def euro_def)
  then show "utf8_valid euro" using utf8_encode_rune [of "[]" 8364] by (simp add: utf8_ascii)
  have "truncateString euro 2 = map chr [226, 130]" by (simp add: truncateString_def euro_def)
  then have runes: "map_runes id (truncateString euro 2) = encode_rune 65533 @ encode_rune 65533"
    by (simp add: map_runes_Cons map_runes_Nil decode_rune_def byte_chr)
  have "length (encode_rune 65533 @ encode_rune 65533) = 6" "length (truncateString euro 2) = 2"
    by (simp_all add: encode_rune_def truncateString_def euro_def)
  then show "\<not> utf8_valid (truncateString euro 2)" unfolding utf8_valid_def runes by force
  show "unquote (quote_body (truncateString euro 2)) = encode_rune 65533 @ encode_rune 65533"
    unfolding unquote_quote_body by (rule runes)
qed

subsection \<open>Numbers\<close>

text \<open>A text that is a number from its first to its last byte.\<close>

definition number_text :: "string \<Rightarrow> bool" where
  "number_text x \<longleftrightarrow> scan_number x = Some (x, [])"

lemma number_text_scan: "number_text x \<Longrightarrow> number_ends t \<Longrightarrow> scan_number (x @ t) = Some (x, t)"
  using scan_number_append [of x x "[]" t] by (simp add: number_text_def)

lemma nat_digits_front: "0 < n \<Longrightarrow> nat_digits n \<noteq> [] \<and> hd (nat_digits n) \<noteq> CHR ''0''"
proof (induction n rule: nat_digits.induct)
  case (1 n)
  have "chr (48 + n) \<noteq> CHR ''0''" if "n < 10"
    using that 1(2) digit_byte [of n] by (auto simp: byte_def)
  with 1 show ?case by (subst (1 2) nat_digits.simps) (auto simp: div_greater_zero_iff)
qed

lemma scan_nat_digits: "scan_integer (nat_digits n) = Some (nat_digits n, [])"
proof (cases "n = 0")
  case True
  have "chr 48 = CHR ''0''" by code_simp
  with True show ?thesis by (simp add: nat_digits.simps scan_integer_def)
next
  case False
  then obtain c ds where ds: "nat_digits n = c # ds" "c \<noteq> CHR ''0''"
    using nat_digits_front [of n] by (cases "nat_digits n") auto
  have "list_all is_num (c # ds)" using nat_digits_num [of n] ds by simp
  then have "takeWhile is_num (c # ds) = c # ds" "dropWhile is_num (c # ds) = []"
    by (simp_all add: takeWhile_eq_all_conv list_all_iff)
  with ds \<open>list_all is_num (c # ds)\<close> show ?thesis by (simp add: scan_integer_def scan_digits_def)
qed

lemma int_text_number: "number_text (int_text n)"
proof -
  have front: "scan_sign {CHR ''-''} (nat_digits k) = ([], nat_digits k)" for k
  proof (cases "nat_digits k")
    case (Cons c ds)
    then have "c \<noteq> CHR ''-''" using nat_digits_num [of k] by (auto simp: is_num_def byte_def)
    with Cons show ?thesis by (simp add: scan_sign_def)
  qed (simp add: scan_sign_def)
  have "scan_sign {CHR ''-''} (CHR ''-'' # s) = (''-'', s)" for s by (simp add: scan_sign_def)
  with front show ?thesis
    by (simp add: number_text_def int_text_def scan_number_def scan_nat_digits scan_fraction_def scan_exponent_def)
qed

subsection \<open>Values\<close>

text \<open>What \<open>fmt\<close> stands for writes every number as a JSON number.\<close>

definition float_format :: "(real \<Rightarrow> string) \<Rightarrow> bool" where
  "float_format fmt \<longleftrightarrow> (\<forall>r. number_text (fmt r))"

fun json_of :: "(real \<Rightarrow> string) \<Rightarrow> any \<Rightarrow> json" where
  "json_of fmt ANil = JNull"
| "json_of fmt (ABool b) = JBool b"
| "json_of fmt (AFloat64 x) = (case x of Fin r \<Rightarrow> JNumber (fmt r) | _ \<Rightarrow> JNull)"
| "json_of fmt (AString s) = JString (quote_body s)"
| "json_of fmt (AInt n) = JNumber (int_text n)"
| "json_of fmt (AInt32 n) = JNumber (int_text n)"
| "json_of fmt (AInt64 n) = JNumber (int_text n)"
| "json_of fmt (ASlice vs) = JArray (map (json_of fmt) vs)"
| "json_of fmt (AMap es) = JObject (map (apfst quote_body) (sort_key fst (map (\<lambda>(k, v). (k, json_of fmt v)) es)))"

lemma sort_entries: "sort_key fst (map (\<lambda>(k, v). (k, f v)) es) = map (\<lambda>(k, v). (k, f v)) (sort_key fst es)"
proof -
  have insort: "insort_key fst (k, f v) (map (\<lambda>(k, v). (k, f v)) es) = map (\<lambda>(k, v). (k, f v)) (insort_key fst (k, v) es)"
    for k :: 'a and v es by (induction es) auto
  show ?thesis by (induction es) (auto simp: insort)
qed

lemma skip_space_char: "\<not> json_space c \<Longrightarrow> skip_space (c # s) = c # s"
  by (simp add: skip_space_def)

lemma number_ends_char: "\<not> is_num c \<Longrightarrow> c \<notin> {CHR ''.'', CHR ''e'', CHR ''E''} \<Longrightarrow> number_ends (c # t)"
  by (simp add: number_ends_def)

lemmas punctuation = skip_space_char number_ends_char json_space_def is_num_def byte_def

lemma parse_number:
  assumes "number_text x" "number_ends t"
  shows "parse_value (Suc n) d (x @ t) = Some (JNumber x, t)"
proof -
  obtain c s where x: "x = c # s" using assms(1) by (cases x) (auto simp: number_text_def scan_number_def scan_sign_def scan_integer_def)
  have "scan_number (c # s) \<noteq> None" using assms(1) x by (simp add: number_text_def)
  then have c: "c = CHR ''-'' \<or> is_num c"
    by (auto simp: scan_number_def scan_sign_def scan_integer_def is_num_def byte_def split: if_splits)
  then have "\<not> json_space c" "c \<notin> {CHR ''{'', CHR ''['', CHR 0x22, CHR ''t'', CHR ''f'', CHR ''n''}"
    by (auto simp: json_space_def is_num_def byte_def)
  with number_text_scan [OF assms] x show ?thesis by (simp add: parse_value.simps(2) skip_space_char)
qed

lemma parse_word:
  "0 < n \<Longrightarrow> parse_value n d (''null'' @ t) = Some (JNull, t)"
  "0 < n \<Longrightarrow> parse_value n d (''true'' @ t) = Some (JBool True, t)"
  "0 < n \<Longrightarrow> parse_value n d (''false'' @ t) = Some (JBool False, t)"
  by (cases n; simp add: parse_value.simps(2) punctuation literal_def)+

lemma parse_int: "0 < n \<Longrightarrow> number_ends t \<Longrightarrow> parse_value n d (int_text k @ t) = Some (JNumber (int_text k), t)"
  using int_text_number by (cases n) (simp_all add: parse_number)

lemma parse_items:
  assumes "vs \<noteq> []"
    "\<And>v n t. v \<in> set vs \<Longrightarrow> number_ends t \<Longrightarrow> 2 * length (f v @ t) < n \<Longrightarrow> parse_value n d (f v @ t) = Some (g v, t)"
    "2 * length (join_with CHR '','' (map f vs) @ CHR '']'' # t) + 1 < n"
  shows "parse_elements n d (join_with CHR '','' (map f vs) @ CHR '']'' # t) = Some (map g vs, t)"
  using assms
proof (induction vs arbitrary: n)
  case (Cons v vs)
  obtain n1 where n: "n = Suc n1" using Cons.prems(3) by (cases n) auto
  note v = Cons.prems(2) [of v _ n1]
  show ?case
  proof (cases vs)
    case Nil
    with v [of "CHR '']'' # t"] Cons.prems(3) n show ?thesis
      by (simp add: parse_elements.simps(2) punctuation)
  next
    case (Cons w ws)
    let ?rest = "join_with CHR '','' (map f vs) @ CHR '']'' # t"
    have "parse_elements n1 d ?rest = Some (map g vs, t)"
      using Cons.IH Cons Cons.prems by (auto simp: n)
    with v [of "CHR '','' # ?rest"] Cons.prems(3) Cons n show ?thesis
      by (simp add: parse_elements.simps(2) punctuation)
  qed
qed simp

lemma parse_entries:
  assumes "es \<noteq> []"
    "\<And>k v n t. (k, v) \<in> set es \<Longrightarrow> number_ends t \<Longrightarrow> 2 * length (f v @ t) < n \<Longrightarrow> parse_value n d (f v @ t) = Some (g v, t)"
    "2 * length (join_with CHR '','' (map (\<lambda>(k, v). member_text (k, f v)) es) @ CHR ''}'' # t) < n"
  shows "parse_members n d (join_with CHR '','' (map (\<lambda>(k, v). member_text (k, f v)) es) @ CHR ''}'' # t) =
    Some (map (\<lambda>(k, v). (quote_body k, g v)) es, t)"
  using assms
proof (induction es arbitrary: n)
  case (Cons e es)
  obtain n1 where n: "n = Suc n1" using Cons.prems(3) by (cases n) auto
  obtain k v where e: "e = (k, v)" by (cases e)
  note v = Cons.prems(2) [of k v _ n1]
  note key = scans_quoted [OF scans_quote_body [of k]]
  show ?case
  proof (cases es)
    case Nil
    with v [of "CHR ''}'' # t"] Cons.prems(3) n e show ?thesis
      by (simp add: parse_members.simps(2) punctuation member_text_def quote_def key literal_def)
  next
    case (Cons w ws)
    let ?rest = "join_with CHR '','' (map (\<lambda>(k, v). member_text (k, f v)) es) @ CHR ''}'' # t"
    have len: "2 * length ?rest < n1" using Cons.prems(3) Cons by (simp add: n e)
    have "parse_members n1 d ?rest = Some (map (\<lambda>(k, v). (quote_body k, g v)) es, t)"
      using Cons.IH [of n1] Cons.prems(2) Cons len by auto
    with v [of "CHR '','' # ?rest"] Cons.prems(3) Cons n e show ?thesis
      by (simp add: parse_members.simps(2) punctuation member_text_def quote_def key literal_def)
  qed
qed simp

lemma parse_elements_start: "parse_elements n d s = Some (vs, r) \<Longrightarrow> take 1 (skip_space s) \<noteq> '']''"
  by (cases n) (auto elim!: parse_elements_cases dest: parse_value_start)

text \<open>The encoder's text of a value is read as the value it stands for.\<close>

lemma parse_encoded:
  assumes "float_format fmt" "encodable v" "d + nesting (json_of fmt v) \<le> max_depth" "number_ends t"
    "2 * length (encode_any fmt v @ t) < n"
  shows "parse_value n d (encode_any fmt v @ t) = Some (json_of fmt v, t)"
  using assms
proof (induction v arbitrary: d t n)
  case (AFloat64 x)
  then show ?case by (cases n; cases x) (simp_all add: float_format_def parse_number)
next
  case (AMap es)
  let ?es = "sort_key fst es" and ?f = "encode_any fmt" and ?g = "json_of fmt"
  obtain m where n: "n = Suc m" using AMap.prems(5) by (cases n) auto
  have written: "encode_any fmt (AMap es) = CHR ''{'' # join_with CHR '','' (map (\<lambda>(k, v). member_text (k, ?f v)) ?es) @ ''}''"
    unfolding encode_any.simps sort_entries by (simp add: split_def comp_def)
  have denotes: "json_of fmt (AMap es) = JObject (map (\<lambda>(k, v). (quote_body k, ?g v)) ?es)"
    unfolding json_of.simps sort_entries by (simp add: split_def comp_def)
  have d: "d < max_depth" "\<And>k v. (k, v) \<in> set es \<Longrightarrow> Suc d + nesting (?g v) \<le> max_depth"
    using AMap.prems(3) unfolding denotes by (auto simp: nesting_le)
  show ?case
  proof (cases "es = []")
    case True
    with d n show ?thesis by (simp add: written denotes parse_value.simps(2) punctuation join_with_def)
  next
    case False
    have "parse_members m (Suc d) (join_with CHR '','' (map (\<lambda>(k, v). member_text (k, ?f v)) ?es) @ CHR ''}'' # t) =
        Some (map (\<lambda>(k, v). (quote_body k, ?g v)) ?es, t)"
    proof (rule parse_entries)
      show "?es \<noteq> []" using False by (metis set_empty2 set_sort)
      show "2 * length (join_with CHR '','' (map (\<lambda>(k, v). member_text (k, ?f v)) ?es) @ CHR ''}'' # t) < m"
        using AMap.prems(5) n unfolding written by simp
      fix k v n' t' assume v: "(k, v) \<in> set ?es" "number_ends t'" "2 * length (?f v @ t') < n'"
      then have "(k, v) \<in> set es" by simp
      with AMap.IH [of "(k, v)" v] AMap.prems(1,2) d(2) v show "parse_value n' (Suc d) (?f v @ t') = Some (?g v, t')"
        by (auto simp: list_all_iff)
    qed
    moreover obtain k v es' where "?es = (k, v) # es'" using False by (cases ?es) (auto, metis set_empty2 set_sort)
    then have "take 1 (skip_space (join_with CHR '','' (map (\<lambda>(k, v). member_text (k, ?f v)) ?es) @ CHR ''}'' # t)) \<noteq> ''}''"
      by (simp add: join_with_def member_text_def quote_def punctuation)
    ultimately show ?thesis unfolding written denotes n using d(1) by (simp add: parse_value.simps(2) punctuation)
  qed
next
  case (ASlice vs)
  let ?f = "encode_any fmt" and ?g = "json_of fmt"
  obtain m where n: "n = Suc m" using ASlice.prems(5) by (cases n) auto
  have d: "d < max_depth" "\<And>v. v \<in> set vs \<Longrightarrow> Suc d + nesting (?g v) \<le> max_depth"
    using ASlice.prems(3) by (auto simp: nesting_le)
  show ?case
  proof (cases "vs = []")
    case True
    with d n show ?thesis by (simp add: parse_value.simps(2) punctuation join_with_def)
  next
    case False
    have items: "parse_elements m (Suc d) (join_with CHR '','' (map ?f vs) @ CHR '']'' # t) = Some (map ?g vs, t)"
    proof (rule parse_items [OF False])
      show "2 * length (join_with CHR '','' (map ?f vs) @ CHR '']'' # t) + 1 < m"
        using ASlice.prems(5) n by simp
      fix v n' t' assume "v \<in> set vs" "number_ends t'" "2 * length (?f v @ t') < n'"
      with ASlice.IH [of v] ASlice.prems(1,2) d(2) show "parse_value n' (Suc d) (?f v @ t') = Some (?g v, t')"
        by (auto simp: list_all_iff)
    qed
    with parse_elements_start [OF items] n d(1) show ?thesis by (simp add: parse_value.simps(2) punctuation)
  qed
next
  case (AString s)
  then show ?case
    by (cases n) (simp_all add: quote_def parse_value.simps(2) punctuation scans_quoted [OF scans_quote_body])
qed (auto simp: parse_word [simplified] parse_int)

text \<open>The value it stands for is the one written, with its maps in another order.\<close>

text \<open>The numbers of a value that \<open>fmt\<close> writes in a way that reads back.\<close>

fun exact_numbers :: "(real \<Rightarrow> string) \<Rightarrow> any \<Rightarrow> bool" where
  "exact_numbers fmt (AFloat64 x) \<longleftrightarrow> (case x of Fin r \<Rightarrow> parse_float (fmt r) = Some (Fin r) | _ \<Rightarrow> False)"
| "exact_numbers fmt (AMap es) \<longleftrightarrow> (\<forall>(k, v)\<in>set es. exact_numbers fmt v)"
| "exact_numbers fmt (ASlice vs) \<longleftrightarrow> (\<forall>v\<in>set vs. exact_numbers fmt v)"
| "exact_numbers fmt v \<longleftrightarrow> True"

lemma update_new: "k \<notin> fst ` set m \<Longrightarrow> AList.update k v m = m @ [(k, v)]"
  by (induction m) auto

lemma store_distinct: "distinct (map fst (m @ es)) \<Longrightarrow> fold store_entry es m = m @ es"
proof (induction es arbitrary: m)
  case (Cons e es)
  then show ?case using Cons.IH [of "m @ [e]"] by (auto simp: store_entry_def update_new)
qed simp

lemma json_of_same_value:
  assumes "json_any v" "utf8_any v" "exact_numbers fmt v"
  shows "\<exists>w. to_any (json_of fmt v) = Some w \<and> same_value v w"
  using assms
proof (induction v)
  case (ASlice vs)
  then have "\<forall>v\<in>set vs. \<exists>w. to_any (json_of fmt v) = Some w \<and> same_value v w" by auto
  then obtain f where f: "\<forall>v\<in>set vs. to_any (json_of fmt v) = Some (f v) \<and> same_value v (f v)" by metis
  then have "those (map to_any (map (json_of fmt) vs)) = Some (map f vs)"
    by (auto simp: those_Some)
  moreover have "list_all2 same_value vs (map f vs)" using f by (auto simp: list_all2_conv_all_nth)
  ultimately show ?case by (auto intro: same_value.slice)
next
  case (AMap es)
  have "\<forall>p\<in>set es. \<exists>w. to_any (json_of fmt (snd p)) = Some w \<and> same_value (snd p) w"
    using AMap by (fastforce simp: snds.simps)
  then obtain f where f: "\<forall>p\<in>set es. to_any (json_of fmt (snd p)) = Some (f p) \<and> same_value (snd p) (f p)" by metis
  let ?es = "sort_key fst es" and ?ws = "\<lambda>es. map (\<lambda>p. (fst p, f p)) es"
  have keys: "\<forall>p\<in>set es. unquote (quote_body (fst p)) = fst p"
    using AMap.prems(2) by (auto simp: unquote_quote_body utf8_valid_def)
  have "to_any (json_of fmt (AMap es)) = map_option (\<lambda>es. AMap (fold store_entry es [])) (Some (?ws ?es))"
  proof -
    have "those (map (\<lambda>(k, v). map_option (Pair (unquote k)) (to_any v))
        (map (apfst quote_body) (map (\<lambda>(k, v). (k, json_of fmt v)) ?es))) = Some (?ws ?es)"
      using f keys by (fastforce simp: those_Some)
    then show ?thesis by (simp only: json_of.simps to_any.simps sort_entries)
  qed
  moreover have "distinct (map fst (?ws ?es))"
  proof -
    have "mset (map fst ?es) = mset (map fst es)" by simp
    then have "distinct (map fst ?es)" using AMap.prems(1) by (metis json_any.simps(2) mset_eq_imp_distinct_iff)
    then show ?thesis by (simp add: comp_def)
  qed
  ultimately have "to_any (json_of fmt (AMap es)) = Some (AMap (?ws ?es))" using store_distinct [of "[]"] by simp
  moreover have "list_all2 (rel_prod (=) same_value) es (?ws es)"
    using f by (auto simp: list_all2_conv_all_nth rel_prod_sel)
  then have "same_value (AMap es) (AMap (?ws ?es))" by (rule same_value.map) simp
  ultimately show ?case by blast
qed (auto simp: unquote_quote_body utf8_valid_def intro: same_value.leaf split: f64.splits)

lemma nesting_json_of: "nesting (json_of fmt v) \<le> depth_of v"
proof (induction v)
  case (AFloat64 x)
  then show ?case by (cases x) simp_all
next
  case (ASlice vs)
  have "0 + nesting (json_of fmt (ASlice vs)) \<le> depth_of (ASlice vs)"
    unfolding json_of.simps nesting_le using ASlice by (auto simp: le_max_iff_disj intro!: Max_ge_iff [THEN iffD2])
  then show ?case by simp
next
  case (AMap es)
  have "0 + nesting (json_of fmt (AMap es)) \<le> depth_of (AMap es)"
    unfolding json_of.simps nesting_le using AMap
    by (fastforce simp: sort_entries snds.simps intro!: Max_ge_iff [THEN iffD2])
  then show ?case by simp
qed simp_all

lemma parse_text_encoded:
  assumes "float_format fmt" "encodable v" "depth_of v \<le> max_depth"
  shows "parse_text (encode_any fmt v) = Some (json_of fmt v)"
proof -
  have "0 + nesting (json_of fmt v) \<le> max_depth" using nesting_json_of [of fmt v] assms(3) by simp
  from parse_encoded [OF assms(1,2) this, of "[]" "2 * length (encode_any fmt v) + 1"] show ?thesis
    by (simp add: parse_text_def parse_json_def number_ends_def skip_space_def)
qed

subsection \<open>Documents\<close>

lemma document_keys_distinct: "distinct document_keys"
  by (simp add: document_keys_def base_keys_def string_fields_def extra_keys_def promoted_keys_def)

lemma document_keys_plain: "\<forall>k\<in>set document_keys. unquote (quote_body k) = k"
proof -
  have "list_all (list_all is_ascii) document_keys" by code_simp
  then show ?thesis using utf8_ascii by (simp add: unquote_quote_body utf8_valid_def list_all_iff)
qed

lemma dom_build_document: "dom (build_document H e) \<subseteq> set document_keys"
proof
  fix k assume k: "k \<in> dom (build_document H e)"
  show "k \<in> set document_keys"
  proof (rule ccontr)
    assume not: "k \<notin> set document_keys"
    then have "k \<notin> set promoted_keys" "k \<notin> set extra_keys" "k \<notin> set base_keys"
      "k \<notin> set (map fst (string_fields zero_event))"
      unfolding document_keys_def by auto
    moreover from this have "k \<notin> fst ` set (string_fields e)" "base_document e k = None"
      using string_fields_keys(1) [of e] dom_base_document [of e] by (auto simp flip: set_map)
    ultimately have "build_document H e k = None"
      by (simp add: build_document_other fold_addIfNotEmpty_other)
    with k show False by blast
  qed
qed

lemma document_entries_keys:
  "map fst (document_entries doc) = filter (\<lambda>k. doc k \<noteq> None) document_keys"
proof -
  have "map fst (concat (map (\<lambda>k. case doc k of None \<Rightarrow> [] | Some d \<Rightarrow> [(k, docval_any d)]) ks)) = filter (\<lambda>k. doc k \<noteq> None) ks" for ks
    by (induction ks) (auto split: option.splits)
  then show ?thesis by (simp add: document_entries_def)
qed

lemma document_entries_member:
  "(k, v) \<in> set (document_entries doc) \<longleftrightarrow> k \<in> set document_keys \<and> (\<exists>d. doc k = Some d \<and> v = docval_any d)"
proof -
  have "(k, v) \<in> set (concat (map (\<lambda>k. case doc k of None \<Rightarrow> [] | Some d \<Rightarrow> [(k, docval_any d)]) ks)) \<longleftrightarrow>
      k \<in> set ks \<and> (\<exists>d. doc k = Some d \<and> v = docval_any d)" for ks
  proof (induction ks)
    case (Cons k' ks)
    then show ?case by (cases "doc k'") auto
  qed simp
  then show ?thesis by (simp add: document_entries_def)
qed

lemma map_of_document_entries:
  assumes "dom doc \<subseteq> set document_keys"
  shows "map_of (document_entries doc) k = map_option docval_any (doc k)"
proof -
  have dist: "distinct (map fst (document_entries doc))"
    by (simp add: document_entries_keys document_keys_distinct)
  show ?thesis
  proof (cases "doc k")
    case None
    then have "k \<notin> fst ` set (document_entries doc)" by (auto simp: document_entries_member)
    with None show ?thesis by (simp add: map_of_eq_None_iff)
  next
    case (Some d)
    with assms have "(k, docval_any d) \<in> set (document_entries doc)" by (auto simp: document_entries_member)
    with dist Some show ?thesis by (simp add: map_of_is_SomeI)
  qed
qed

text \<open>The values of a document that are neither strings, lists of strings, numbers nor booleans.\<close>

definition event_value :: "event \<Rightarrow> docval \<Rightarrow> bool" where
  "event_value e d \<longleftrightarrow> (case d of
       DPayload p \<Rightarrow> p = ev_Payload e
     | DPoint lat lon \<Rightarrow> geoPointDocument e = Some (lat, lon)
     | _ \<Rightarrow> True)"

definition event_values :: "event \<Rightarrow> document \<Rightarrow> bool" where
  "event_values e doc \<longleftrightarrow> (\<forall>d\<in>ran doc. event_value e d)"

lemma event_values_upd: "event_values e doc \<Longrightarrow> event_value e d \<Longrightarrow> event_values e (doc(k \<mapsto> d))"
  by (auto simp: event_values_def ran_def)

lemma event_value_simple [simp]:
  "event_value e (DString s)" "event_value e (DBool b)" "event_value e (DInt n)" "event_value e (DStrings xs)"
  "event_value e (DPayload (ev_Payload e))" "event_value e (DPoint lat lon) \<longleftrightarrow> geoPointDocument e = Some (lat, lon)"
  by (simp_all add: event_value_def)

lemma event_values_promote:
  assumes "event_values e doc"
  shows "event_values e (promoteStringField m key doc)" "event_values e (promoteBooleanField m key doc)"
    "event_values e (promoteIntegerField H m key doc)" "event_values e (addIfNotEmpty key val doc)"
  using assms
  by (auto simp: promoteStringField_def promoteBooleanField_def promoteIntegerField_def addIfNotEmpty_def
      intro!: event_values_upd split: option.splits any.splits)

lemma event_values_fold:
  "event_values e doc \<Longrightarrow> event_values e (fold (\<lambda>(k, v). addIfNotEmpty k v) fs doc)"
  by (induction fs arbitrary: doc) (auto simp: event_values_promote)

lemma event_values_base: "event_values e (base_document e)"
  unfolding base_document_def by (intro event_values_upd) (simp_all add: event_values_def)

lemma build_document_values: "event_values e (build_document H e)"
  unfolding build_document_def promotePayloadFields_def Let_def
  using event_values_fold [OF event_values_base]
  by (auto intro!: event_values_promote event_values_upd split: option.split)

lemma document_entry_cases:
  assumes "(k, v) \<in> set (document_entries (build_document H e))"
  obtains (scalar) "encodable v" "depth_of v \<le> 2"
    | (payload) m where "v = AMap m" "ev_Payload e = Some m"
proof -
  obtain d where d: "build_document H e k = Some d" "v = docval_any d"
    using assms by (auto simp: document_entries_member)
  then have "event_value e d" using build_document_values [of e H] by (auto simp: event_values_def ran_def)
  then have "encodable v \<and> depth_of v \<le> 2 \<or> (\<exists>m. v = AMap m \<and> ev_Payload e = Some m)"
    by (cases d) (auto simp: d(2) docval_any_def event_value_def geoPointDocument_def coordinate_ok_def list_all_iff
        split: option.splits if_splits f64.splits)
  with scalar payload show thesis by blast
qed

lemma document_entries_encodable:
  assumes "payload_encodable e"
  shows "encodable (AMap (document_entries (build_document H e)))"
proof -
  have "encodable v" if "(k, v) \<in> set (document_entries (build_document H e))" for k v
    using that
  proof (cases rule: document_entry_cases)
    case (payload m)
    with assms show ?thesis by (simp add: payload_encodable_def)
  qed
  then show ?thesis by (auto simp: list_all_iff)
qed

text \<open>The payload's nesting leaves room for the document around it.\<close>

definition payload_shallow :: "event \<Rightarrow> bool" where
  "payload_shallow e \<longleftrightarrow> (\<forall>m\<in>set_option (ev_Payload e). depth_of (AMap m) < max_depth)"

lemma document_entries_depth:
  assumes "payload_shallow e"
  shows "depth_of (AMap (document_entries (build_document H e))) \<le> max_depth"
proof -
  have "int (depth_of v) + 1 \<le> int max_depth" if "(k, v) \<in> set (document_entries (build_document H e))" for k v
    using that
  proof (cases rule: document_entry_cases)
    case scalar
    then show ?thesis by (simp add: max_depth_def)
  next
    case (payload m)
    with assms have "depth_of v < max_depth" by (simp add: payload_shallow_def del: depth_of.simps)
    then show ?thesis by simp
  qed
  then have "int (depth_of (AMap (document_entries (build_document H e)))) \<le> int max_depth"
    unfolding depth_of_le by (auto simp: max_depth_def)
  then show ?thesis by (simp only: of_nat_le_iff)
qed

lemma document_text_parsed:
  assumes "float_format fmt" "payload_encodable e" "payload_shallow e"
  shows "parse_text (line_text fmt (DocLine (build_document H e))) =
    Some (json_of fmt (AMap (document_entries (build_document H e))))"
  using parse_text_encoded [OF assms(1) document_entries_encodable [OF assms(2)] document_entries_depth [OF assms(3)]]
  by (simp only: line_text_def bulk_line.case)

text \<open>The members of the object that is read, by their names.\<close>

definition member_of :: "(string \<times> json) list \<Rightarrow> string \<Rightarrow> json option" where
  "member_of ms = map_of (map (apfst unquote) ms)"

lemma requote_names:
  assumes "\<forall>p\<in>set ss. unquote (quote_body (fst p)) = fst p"
  shows "map (apfst unquote) (map (apfst quote_body) ss) = ss"
    "map (unquote \<circ> fst) (map (apfst quote_body) ss) = map fst ss"
  using assms by (induction ss) auto

lemma document_members:
  fixes fmt H e
  defines "es \<equiv> document_entries (build_document H e)"
  defines "ms \<equiv> map (apfst quote_body) (sort_key fst (map (\<lambda>(k, v). (k, json_of fmt v)) es))"
  shows "json_of fmt (AMap es) = JObject ms" "distinct (map (unquote \<circ> fst) ms)"
    "member_of ms k = map_option (\<lambda>d. json_of fmt (docval_any d)) (build_document H e k)"
proof -
  let ?ss = "sort_key fst (map (\<lambda>(k, v). (k, json_of fmt v)) es)"
  show "json_of fmt (AMap es) = JObject ms" by (simp add: ms_def)
  have keys: "map fst es = filter (\<lambda>k. build_document H e k \<noteq> None) document_keys"
    unfolding es_def by (rule document_entries_keys)
  have "fst ` set ?ss = set (map fst es)" by (force simp: image_image split_def)
  also have "\<dots> \<subseteq> set document_keys" unfolding keys by simp
  finally have "fst ` set ?ss \<subseteq> set document_keys" .
  then have "\<forall>p\<in>set ?ss. unquote (quote_body (fst p)) = fst p"
    using document_keys_plain by (meson image_subset_iff)
  then have un: "map (apfst unquote) ms = ?ss" "map (unquote \<circ> fst) ms = map fst ?ss"
    unfolding ms_def by (simp_all only: requote_names)
  have "mset (map fst ?ss) = mset (map fst (map (\<lambda>(k, v). (k, json_of fmt v)) es))"
    by (simp only: mset_map mset_sort)
  also have "\<dots> = mset (map fst es)" by (simp add: split_def comp_def)
  finally have "mset (map fst ?ss) = mset (map fst es)" .
  then have dist: "distinct (map fst ?ss)"
    using document_keys_distinct keys by (metis distinct_filter mset_eq_imp_distinct_iff)
  then show "distinct (map (unquote \<circ> fst) ms)" by (simp only: un)
  have "distinct (map fst (map (\<lambda>(k, v). (k, json_of fmt v)) es))"
    using document_keys_distinct keys by (simp add: split_def comp_def)
  then have "map_of ?ss = map_of (map (\<lambda>(k, v). (k, json_of fmt v)) es)"
    using dist by (intro map_of_inject_set [THEN iffD2]) simp_all
  then show "member_of ms k = map_option (\<lambda>d. json_of fmt (docval_any d)) (build_document H e k)"
    unfolding member_of_def un
    by (simp add: map_of_map es_def map_of_document_entries [OF dom_build_document] option.map_comp comp_def)
qed

subsection \<open>Framing\<close>

lemma digits_plain: "scan_digits s = (ds, r) \<Longrightarrow> CHR 0x0A \<notin> set ds"
  by (auto simp: scan_digits_def is_num_def byte_def dest: set_takeWhileD)

lemma number_text_plain:
  assumes "number_text x"
  shows "CHR 0x0A \<notin> set x"
proof -
  obtain sg s1 where sign: "scan_sign {CHR ''-''} x = (sg, s1)" by (metis surj_pair)
  with assms obtain i s2 f s3 e where parts: "scan_integer s1 = Some (i, s2)"
    "scan_fraction s2 = Some (f, s3)" "scan_exponent s3 = Some (e, [])" "x = sg @ i @ f @ e"
    by (auto simp: number_text_def scan_number_def bind_eq_Some_conv)
  have "CHR 0x0A \<notin> set sg" using sign by (auto simp: scan_sign_def split: list.splits if_splits)
  moreover have "CHR 0x0A \<notin> set i"
    using parts(1) by (auto simp: scan_integer_def dest: digits_plain split: list.splits if_splits)
  moreover have "CHR 0x0A \<notin> set f"
    using parts(2) by (auto simp: scan_fraction_def dest: digits_plain split: list.splits if_splits prod.splits)
  moreover have "CHR 0x0A \<notin> set e"
    using parts(3) by (auto simp: scan_exponent_def scan_sign_def dest: digits_plain split: list.splits if_splits prod.splits)
  ultimately show ?thesis using parts(4) by simp
qed

text \<open>An action names the stream that the collector is configured with and the event's identifier.\<close>

lemma action_text_parsed:
  assumes "float_format fmt"
  shows "parse_text (line_text fmt (ActionLine ds i)) =
    Some (JObject [(''create'', JObject [(''_id'', JString (quote_body i)), (''_index'', JString (quote_body ds))])])"
proof -
  let ?v = "AMap [(''create'', AMap [(''_index'', AString ds), (''_id'', AString i)])]"
  have keys: "quote_body ''create'' = ''create''" "quote_body ''_id'' = ''_id''" "quote_body ''_index'' = ''_index''"
    by (simp_all add: is_ascii_def escape_ascii_def byte_def)
  have order: "''_id'' < ''_index''" "\<not> ''_index'' \<le> ''_id''" by code_simp+
  have "json_of fmt ?v = JObject [(''create'', JObject [(''_id'', JString (quote_body i)), (''_index'', JString (quote_body ds))])]"
    using keys order by simp
  moreover have "encodable ?v" "depth_of ?v \<le> max_depth" by (simp_all add: max_depth_def)
  ultimately show ?thesis using parse_text_encoded [OF assms, of ?v] by (simp add: line_text_def del: json_of.simps encode_any.simps)
qed

lemma json_any_encodable: "json_any v \<Longrightarrow> encodable v"
  by (induction v rule: json_any.induct) (auto simp: list_all_iff)

lemma document_payload: "build_document H e ''payload'' = Some (DPayload (ev_Payload e))"
proof -
  have "''payload'' \<notin> set promoted_keys" "''payload'' \<notin> set extra_keys" "''payload'' \<notin> fst ` set (string_fields e)"
    by (simp_all add: promoted_keys_def extra_keys_def string_fields_def)
  then show ?thesis by (simp add: build_document_other fold_addIfNotEmpty_other base_document_def)
qed

lemma payload_framed:
  assumes "float_format fmt"
  shows "split_on CHR 0x0A (payload_text fmt (concat (map (event_lines H ds) es))) =
    concat (map (\<lambda>e. [line_text fmt (ActionLine ds (ev_DocumentID e)), line_text fmt (DocLine (build_document H e))]) es) @ [[]]"
proof -
  have "\<And>r. CHR 0x0A \<notin> set (fmt r)" using assms number_text_plain by (simp add: float_format_def)
  then show ?thesis by (simp add: payload_lines map_concat event_lines_def comp_def)
qed

text \<open>A format that is right on two numbers, and a request with one of them.\<close>

definition witness_format :: "real \<Rightarrow> string" where
  "witness_format r = (if r = 2 then ''2'' else ''0'')"

lemma witness_format_ok: "float_format witness_format" "parse_float ''2'' = Some (Fin 2)"
proof -
  have "number_text ''2''" "number_text ''0''"
    by (simp_all add: number_text_def scan_number_def scan_sign_def scan_integer_def scan_digits_def scan_fraction_def
        scan_exponent_def is_num_def byte_def)
  then show "float_format witness_format" by (simp add: float_format_def witness_format_def)
  show "parse_float ''2'' = Some (Fin 2)"
    by (simp add: parse_float_def scan_sign_def scan_digits_def is_num_def byte_def digits_value_def round_float_def
        float_exponent_def bit_length.simps scaled_def div_even_def float_value_def Let_def)
qed

definition witness_body :: string where
  \<open>witness_body = ''{"payload":{"n":2}}''\<close>

definition witness_sent :: event where
  "witness_sent = zero_event\<lparr>ev_Payload := Some [(''n'', AFloat64 (Fin 2))]\<rparr>"

lemma witness_body_decoded: "DecodeBatch witness_body = Inr [witness_sent]"
proof -
  have "parse_json witness_body = Some (JObject [(''payload'', JObject [(''n'', JNumber ''2'')])], [])"
    by (simp add: witness_body_def scan_eval scan_number_def scan_sign_def scan_integer_def scan_digits_def
        scan_fraction_def scan_exponent_def is_num_def)
  then show ?thesis
    by (simp add: DecodeBatch_def decodeBatchRequest_def decode_single_def parse_text_def ensureEOF_def skip_space_def
        decode_eval decode_entries_def store_entry_def witness_format_ok(2) witness_sent_def zero_event_def)
qed

lemma witness_sent_ok:
  "payload_encodable witness_sent" "payload_shallow witness_sent"
  "exact_numbers witness_format (AMap [(''n'', AFloat64 (Fin 2))])"
  by (simp_all add: witness_sent_def payload_encodable_def payload_shallow_def max_depth_def witness_format_def
      witness_format_ok(2))

subsection \<open>Properties\<close>

text \<open>
  C9: What the collector sends to Elasticsearch is a well-formed bulk request, whatever the events
  contain: split at its line breaks the payload has, for each event of the batch in order, exactly
  one action and one document, and nothing else. Every action is read as the creation of one
  document, under the event's identifier, in the configured data stream: no event can add an
  action or redirect one.
\<close>

theorem bulk_payload_framed:
  assumes "BuildBulkPayload H rnd ds k batch = (k1, batch1, Inr ls)" "float_format fmt"
  shows "length batch1 = length batch \<and>
    split_on CHR 0x0A (payload_text fmt ls) =
      concat (map (\<lambda>e. [line_text fmt (ActionLine ds (ev_DocumentID e)), line_text fmt (DocLine (build_document H e))]) batch1) @ [[]] \<and>
    (\<forall>e. parse_text (line_text fmt (ActionLine ds (ev_DocumentID e))) =
      Some (JObject [(''create'', JObject [(''_id'', JString (quote_body (ev_DocumentID e))), (''_index'', JString (quote_body ds))])]))"
proof -
  have "map strip batch1 = map strip batch" "ls = concat (map (event_lines H ds) batch1)"
    using build_loop_keeps [OF assms(1) [unfolded BuildBulkPayload_def]] by auto
  with payload_framed [OF assms(2)] action_text_parsed [OF assms(2)] show ?thesis by (metis length_map)
qed

theorem bulk_payload_framed_witness:
  "\<exists>k1 batch1 ls. BuildBulkPayload (ce_host witness_client) (\<lambda>_. Some (\<lambda>_. 255)) ''d'' 0 [zero_event] = (k1, batch1, Inr ls) \<and>
     length (split_on CHR 0x0A (payload_text witness_format ls)) = 3"
proof -
  have "\<exists>k1 batch1 ls. BuildBulkPayload (ce_host witness_client) (\<lambda>_. Some (\<lambda>_. 255)) ''d'' 0 [zero_event] = (k1, batch1, Inr ls)"
    by (simp add: BuildBulkPayload_def EnsureDocumentID_def zero_event_def payload_encodable_def)
  then obtain k1 batch1 ls where run:
    "BuildBulkPayload (ce_host witness_client) (\<lambda>_. Some (\<lambda>_. 255)) ''d'' 0 [zero_event] = (k1, batch1, Inr ls)" by blast
  have "length (split_on CHR 0x0A (payload_text witness_format ls)) = 3"
    using bulk_payload_framed [OF run witness_format_ok(1)] by (cases batch1) auto
  with run show ?thesis by blast
qed

text \<open>
  C19: A document is read back as the object it stands for: its members are those of the document
  that the collector built, each under its own name, once, and with its own value. It may hold any
  bytes, and any numbers that the encoder accepts.
\<close>

theorem document_reads_back:
  assumes "float_format fmt" "payload_encodable e" "payload_shallow e"
  shows "\<exists>ms. parse_text (line_text fmt (DocLine (build_document H e))) = Some (JObject ms) \<and>
    distinct (map (unquote \<circ> fst) ms) \<and>
    (\<forall>k. member_of ms k = map_option (\<lambda>d. json_of fmt (docval_any d)) (build_document H e k))"
  using document_text_parsed [OF assms] document_members [of fmt H e] by metis

theorem document_reads_back_witness:
  "\<forall>H. \<exists>ms. parse_text (line_text witness_format (DocLine (build_document H witness_sent))) = Some (JObject ms) \<and>
     member_of ms ''payload'' = Some (JObject [(''n'', JNumber ''2'')])"
proof
  fix H
  have "quote_body ''n'' = ''n''" by (simp add: is_ascii_def escape_ascii_def byte_def)
  with document_reads_back [OF witness_format_ok(1) witness_sent_ok(1,2), of H] document_payload [of H witness_sent]
  show "\<exists>ms. parse_text (line_text witness_format (DocLine (build_document H witness_sent))) = Some (JObject ms) \<and>
     member_of ms ''payload'' = Some (JObject [(''n'', JNumber ''2'')])"
    by (auto simp: docval_any_def witness_sent_def witness_format_def)
qed

text \<open>
  C10: The payload that a client sends is the payload that Elasticsearch is sent: reading the document
  of an event back and decoding the member \<open>payload\<close> as the collector decodes requests gives the
  payload decoded from the request, up to the order of its maps, when
  the format of numbers is one that reads back. This is so whatever the bytes of the request are.
\<close>

theorem payload_reads_back:
  assumes "DecodeBatch body = Inr es" "e \<in> set es" "ev_Payload e = Some m" "ev_Payload e1 = Some m"
    "float_format fmt" "exact_numbers fmt (AMap m)" "depth_of (AMap m) < max_depth"
  shows "\<exists>ms j m1. parse_text (line_text fmt (DocLine (build_document H e1))) = Some (JObject ms) \<and>
    member_of ms ''payload'' = Some j \<and> to_any j = Some m1 \<and> same_value (AMap m) m1"
proof -
  have m: "json_any (AMap m)"
    using DecodeBatch_events [OF assms(1)] assms(2,3) decode_event_ok unfolding client_made_def by fastforce
  have utf8: "utf8_any (AMap m)"
    using decoded_payload_utf8 [OF assms(1,2)] assms(3) unfolding payload_utf8_def by simp
  from m have "payload_encodable e1" "payload_shallow e1"
    using assms(4,7) json_any_encodable by (simp_all add: payload_encodable_def payload_shallow_def del: depth_of.simps encodable.simps)
  note parsed = document_text_parsed [OF assms(5) this]
  have "build_document H e1 ''payload'' = Some (DPayload (Some m))"
    using document_payload [of H e1] assms(4) by simp
  moreover obtain m1 where "to_any (json_of fmt (AMap m)) = Some m1" "same_value (AMap m) m1"
    using json_of_same_value [OF m utf8 assms(6)] by blast
  ultimately show ?thesis
    using parsed document_members [of fmt H e1] by (auto simp: docval_any_def simp del: json_of.simps)
qed

theorem payload_reads_back_witness:
  "\<forall>H. \<exists>ms j m1. parse_text (line_text witness_format (DocLine (build_document H witness_sent))) = Some (JObject ms) \<and>
    member_of ms ''payload'' = Some j \<and> to_any j = Some m1 \<and> same_value (AMap [(''n'', AFloat64 (Fin 2))]) m1"
proof
  fix H
  show "\<exists>ms j m1. parse_text (line_text witness_format (DocLine (build_document H witness_sent))) = Some (JObject ms) \<and>
    member_of ms ''payload'' = Some j \<and> to_any j = Some m1 \<and> same_value (AMap [(''n'', AFloat64 (Fin 2))]) m1"
    by (rule payload_reads_back [OF witness_body_decoded, of witness_sent])
      (simp_all add: witness_format_ok(1) witness_sent_ok(3) witness_sent_def max_depth_def del: exact_numbers.simps)
qed

end
