(* ===== verification/Geo_Generator.thy ===== *)
theory Geo_Generator
  imports Geo Rfc3339
begin

section \<open>The generator of the test database\<close>

text \<open>
  \<open>tools/generate-test-geoip-db/main.go\<close>: a GeoIP database of two networks, for tests. The library
  that builds the database, \<open>mmdbwriter\<close>, is the record \<open>mmdb_library\<close>: its constructor, the insertion
  of a record for a network, and what a reader of the written database finds for an address. IPv4
  addresses are 32-bit words; of \<open>net.ParseCIDR\<close> the part that reads IPv4 is modelled, the form of
  both networks.
\<close>

type_synonym ipv4 = "32 word"

record network =
  nw_IP :: ipv4
  nw_Mask :: ipv4

definition contains_address :: "network \<Rightarrow> ipv4 \<Rightarrow> bool" where
  "contains_address nw a \<longleftrightarrow> and a (nw_Mask nw) = nw_IP nw"

subsection \<open>Parsing a network\<close>

text \<open>A field of an address: no leading zero, at most 255.\<close>

definition parse_octet :: "string \<Rightarrow> ipv4 option" where
  "parse_octet s =
     (if s = [] \<or> \<not> list_all is_num s \<or> (hd s = CHR ''0'' \<and> tl s \<noteq> []) \<or> 255 < digits_value s then None
      else Some (of_nat (digits_value s)))"

definition parseIPv4 :: "string \<Rightarrow> ipv4 option" where
  "parseIPv4 s = (case split_on CHR ''.'' s of
       [a, b, c, d] \<Rightarrow> do {
         w \<leftarrow> parse_octet a; x \<leftarrow> parse_octet b; y \<leftarrow> parse_octet c; z \<leftarrow> parse_octet d;
         Some (or (push_bit 24 w) (or (push_bit 16 x) (or (push_bit 8 y) z))) }
     | _ \<Rightarrow> None)"

definition CIDRMask :: "nat \<Rightarrow> ipv4" where
  "CIDRMask n = push_bit (32 - n) (- 1)"

definition ParseCIDR :: "string \<Rightarrow> network option" where
  "ParseCIDR s = (case index_of CHR ''/'' s of
       None \<Rightarrow> None
     | Some i \<Rightarrow> (case parseIPv4 (take i s) of
           None \<Rightarrow> None
         | Some ip \<Rightarrow>
             let digits = drop (Suc i) s; m = CIDRMask (digits_value digits) in
             if digits = [] \<or> \<not> list_all is_num digits \<or> 32 < digits_value digits then None
             else Some \<lparr>nw_IP = and ip m, nw_Mask = m\<rparr>))"

subsection \<open>The program\<close>

record generator_entry =
  ge_cidr :: string
  ge_country :: string
  ge_code :: string
  ge_city :: string

definition generator_entries :: "generator_entry list" where
  "generator_entries =
     [\<lparr>ge_cidr = ''127.0.0.0/8'', ge_country = ''Loopbackland'', ge_code = ''LB'', ge_city = ''Loopback City''\<rparr>,
      \<lparr>ge_cidr = ''1.2.3.0/24'', ge_country = ''Exampleland'', ge_code = ''EX'', ge_city = ''Example City''\<rparr>]"

definition generator_record :: "generator_entry \<Rightarrow> city_record" where
  "generator_record e = \<lparr>cr_ISOCode = ge_code e, cr_CountryNames = [(''en'', ge_country e)],
     cr_CityNames = [(''en'', ge_city e)], cr_Latitude = None, cr_Longitude = None\<rparr>"

record writer_options =
  wo_DatabaseType :: string
  wo_Languages :: "string list"
  wo_IncludeReservedNetworks :: bool

definition generator_options :: writer_options where
  "generator_options = \<lparr>wo_DatabaseType = ''Formation-Analytics-Test-GeoIP'', wo_Languages = [''en''],
     wo_IncludeReservedNetworks = True\<rparr>"

record 'w mmdb_library =
  ml_new :: "writer_options \<Rightarrow> 'w option"
  ml_insert :: "'w \<Rightarrow> network \<Rightarrow> city_record \<Rightarrow> 'w option"
  ml_find :: "'w \<Rightarrow> ipv4 \<Rightarrow> city_record option"

datatype generator_error = UsageError | WriterError | CIDRError | InsertError | CreateError | WriteError

fun insert_entries :: "'w mmdb_library \<Rightarrow> generator_entry list \<Rightarrow> 'w \<Rightarrow> generator_error + 'w" where
  "insert_entries L [] w = Inr w"
| "insert_entries L (e # es) w = (case ParseCIDR (ge_cidr e) of
       None \<Rightarrow> Inl CIDRError
     | Some nw \<Rightarrow> (case ml_insert L w nw (generator_record e) of
           None \<Rightarrow> Inl InsertError
         | Some w1 \<Rightarrow> insert_entries L es w1))"

text \<open>
  The arguments of the process, the name of the program first; whether the file can be created and
  written. The result is the path and the database in it.
\<close>

definition generate_database :: "'w mmdb_library \<Rightarrow> string list \<Rightarrow> bool \<Rightarrow> bool \<Rightarrow> generator_error + string \<times> 'w" where
  "generate_database L args createOk writeOk =
     (if length args \<noteq> 2 then Inl UsageError
      else (case ml_new L generator_options of
          None \<Rightarrow> Inl WriterError
        | Some w \<Rightarrow> (case insert_entries L generator_entries w of
              Inl err \<Rightarrow> Inl err
            | Inr w1 \<Rightarrow> if \<not> createOk then Inl CreateError
                       else if \<not> writeOk then Inl WriteError else Inr (args ! 1, w1))))"

subsection \<open>What the database answers\<close>

text \<open>
  Documented behaviour of the library: a record that is inserted for a network replaces what there
  was for its addresses, and only there.
\<close>

definition inserts_replace :: "'w mmdb_library \<Rightarrow> bool" where
  "inserts_replace L \<longleftrightarrow> (\<forall>w nw r w'. ml_insert L w nw r = Some w' \<longrightarrow>
     ml_find L w' = (\<lambda>a. if contains_address nw a then Some r else ml_find L w a))"

lemma generator_networks:
  "ParseCIDR ''127.0.0.0/8'' = Some \<lparr>nw_IP = 0x7F000000, nw_Mask = 0xFF000000\<rparr>"
  "ParseCIDR ''1.2.3.0/24'' = Some \<lparr>nw_IP = 0x01020300, nw_Mask = 0xFFFFFF00\<rparr>"
  by code_simp+

text \<open>
  The reader of the database and \<open>netip.ParseAddr\<close>, as far as IPv4 texts go: such a text is an
  address, and its record is the one the database has for it. Nothing is said of other texts.
\<close>

definition reads_ipv4 :: "'w mmdb_library \<Rightarrow> 'w geo_library \<Rightarrow> bool" where
  "reads_ipv4 L R \<longleftrightarrow> (\<forall>db ip a. parseIPv4 ip = Some a \<longrightarrow>
     gl_parseAddr R ip \<and> gl_lookup R db ip = ml_find L db a)"

lemma masked_high: "and a (push_bit k (- 1)) = push_bit k (drop_bit k (a :: ipv4))"
  by (rule bit_word_eqI) (auto simp: bit_simps dest: bit_imp_le_length)

lemma in_network:
  fixes a b :: ipv4
  assumes "drop_bit k (push_bit k b) = b"
  shows "contains_address \<lparr>nw_IP = push_bit k b, nw_Mask = push_bit k (- 1)\<rparr> a \<longleftrightarrow> drop_bit k a = b"
proof -
  have "drop_bit k (push_bit k (drop_bit k a)) = drop_bit k a"
    by (rule bit_word_eqI) (auto simp: bit_simps dest: bit_imp_le_length)
  then show ?thesis using assms unfolding contains_address_def network.simps masked_high by metis
qed

lemma generator_contains:
  "contains_address \<lparr>nw_IP = 0x7F000000, nw_Mask = 0xFF000000\<rparr> a \<longleftrightarrow> drop_bit 24 a = 127"
  "contains_address \<lparr>nw_IP = 0x01020300, nw_Mask = 0xFFFFFF00\<rparr> a \<longleftrightarrow> drop_bit 8 a = 0x010203"
proof -
  have masks: "push_bit 24 (- 1) = (0xFF000000 :: ipv4)" "push_bit 8 (- 1) = (0xFFFFFF00 :: ipv4)" by code_simp+
  show "contains_address \<lparr>nw_IP = 0x7F000000, nw_Mask = 0xFF000000\<rparr> a \<longleftrightarrow> drop_bit 24 a = 127"
    "contains_address \<lparr>nw_IP = 0x01020300, nw_Mask = 0xFFFFFF00\<rparr> a \<longleftrightarrow> drop_bit 8 a = 0x010203"
    using in_network [of 24 127 a] in_network [of 8 "0x010203" a] unfolding masks by simp_all
qed

definition found :: "string \<Rightarrow> string \<Rightarrow> string \<Rightarrow> geo_result" where
  "found code country city = \<lparr>gr_CountryISOCode = code, gr_CountryName = country, gr_CityName = city, gr_Point = None\<rparr>"

text \<open>
  C40: The resolver on the generated database, for IPv4 addresses in dotted form: it locates 127.0.0.0 to
  127.255.255.255 in Loopbackland and 1.2.3.0 to 1.2.3.255 in Exampleland, without a point, and no
  other IPv4 address.
\<close>

theorem generated_database_locates:
  assumes "inserts_replace L" "ml_new L generator_options = Some w" "\<forall>a. ml_find L w a = None"
    "generate_database L args createOk writeOk = Inr (path, db)"
    "reads_ipv4 L R" "rv_reader r = db" "parseIPv4 ip = Some a"
  shows "path = args ! 1 \<and> Lookup R r ip =
    (if drop_bit 8 a = 0x010203 then Some (found ''EX'' ''Exampleland'' ''Example City'')
     else if drop_bit 24 a = 127 then Some (found ''LB'' ''Loopbackland'' ''Loopback City'')
     else None)"
proof -
  obtain w1 where w1: "path = args ! 1"
    "ml_insert L w \<lparr>nw_IP = 0x7F000000, nw_Mask = 0xFF000000\<rparr> (generator_record (generator_entries ! 0)) = Some w1"
    "ml_insert L w1 \<lparr>nw_IP = 0x01020300, nw_Mask = 0xFFFFFF00\<rparr> (generator_record (generator_entries ! 1)) = Some db"
    using assms(2,4) by (auto simp: generate_database_def generator_entries_def generator_networks split: if_splits option.splits sum.splits)
  then have "ml_find L db a = (if drop_bit 8 a = 0x010203 then Some (generator_record (generator_entries ! 1))
      else if drop_bit 24 a = 127 then Some (generator_record (generator_entries ! 0)) else None)"
    using assms(1,3) unfolding inserts_replace_def by (simp add: generator_contains)
  with w1(1) assms(5-7) show ?thesis
    by (simp add: Lookup_def reads_ipv4_def generator_record_def generator_entries_def name_of_def validPoint_def found_def)
qed

text \<open>A database as a list of networks, the last one first.\<close>

definition list_library :: "(network \<times> city_record) list mmdb_library" where
  "list_library = \<lparr>ml_new = (\<lambda>options. Some []), ml_insert = (\<lambda>w nw r. Some ((nw, r) # w)),
     ml_find = (\<lambda>w a. map_option snd (List.find (\<lambda>(nw, r). contains_address nw a) w))\<rparr>"

definition list_reader :: "(network \<times> city_record) list geo_library" where
  "list_reader = \<lparr>gl_parseAddr = (\<lambda>_. True),
     gl_lookup = (\<lambda>db ip. Option.bind (parseIPv4 ip) (ml_find list_library db))\<rparr>"

theorem generated_database_locates_witness:
  "\<exists>path db. generate_database list_library [''generate'', ''test.mmdb''] True True = Inr (path, db) \<and> path = ''test.mmdb'' \<and>
     Lookup list_reader \<lparr>rv_reader = db, rv_fileInfo = undefined, rv_closed = []\<rparr> ''127.0.0.1'' =
       Some (found ''LB'' ''Loopbackland'' ''Loopback City'')"
proof -
  have "inserts_replace list_library" "ml_new list_library generator_options = Some []" "\<forall>a. ml_find list_library [] a = None"
    by (auto simp: inserts_replace_def list_library_def fun_eq_iff)
  moreover obtain path db where run: "generate_database list_library [''generate'', ''test.mmdb''] True True = Inr (path, db)"
    by (auto simp: generate_database_def generator_entries_def generator_networks list_library_def)
  moreover have "reads_ipv4 list_library list_reader" by (simp add: reads_ipv4_def list_reader_def)
  moreover have "parseIPv4 ''127.0.0.1'' = Some 0x7F000001" by code_simp
  ultimately show ?thesis
    using generated_database_locates [of list_library "[]" "[''generate'', ''test.mmdb'']" True True path db list_reader
      "\<lparr>rv_reader = db, rv_fileInfo = undefined, rv_closed = []\<rparr>" "''127.0.0.1''" "0x7F000001"]
    by auto
qed

end
