(* ===== verification/Spec2Isabelle.thy ===== *)
theory Spec2Isabelle
  imports Process Readback Geo_Generator
begin

text \<open>
  The Formation web analytics collector, the Go program under \<open>src/\<close>: an HTTP service takes
  analytics events as JSON, checks and enriches them, keeps them in a bounded queue and sends them
  in batches to Elasticsearch.

  The program's parts. \<open>cmd/collector/main.go\<close> loads the configuration (\<open>internal/config\<close>), makes
  the metrics registry (\<open>internal/metrics\<close>), the queue (\<open>internal/queue\<close>), the Elasticsearch client
  (\<open>internal/elastic\<close>), the GeoIP resolver (\<open>internal/geo\<close>), the batcher (\<open>internal/batcher\<close>) and
  the HTTP server (\<open>internal/httpapi\<close>). A request goes through the rate limiter, the checks of
  \<open>handleCollect\<close>, the decoder and the enrichment of \<open>internal/events\<close>, and ends with the events in
  the queue or with an error reply that leaves the queue as it was. The batcher's goroutine takes
  batches from the queue on a timer and on notifications, sends them with retries, and puts back
  what a cancelled flush has not settled. On a signal the servers stop, then the batcher, and what
  is still queued is drained.

  Theories and code, in the order of the imports:
    \<^item> \<open>Prelude\<close>: Go's integers and slices, with a panic as \<open>None\<close>, and list lemmas; \<open>Go_Host\<close>: the
      record of what the surroundings give (Unicode tables, time zones, the host parser of \<open>net/url\<close>, the
      user-agent parser); \<open>Go_Strings\<close>: \<open>strings\<close>, \<open>unicode/utf8\<close> and \<open>net.SplitHostPort\<close> on byte
      strings; \<open>Rfc3339\<close>: the calendar, \<open>Format\<close> and \<open>Parse\<close> of package \<open>time\<close>; \<open>Media_Type\<close>:
      \<open>mime.ParseMediaType\<close>.
    \<^item> \<open>Event_Types\<close>: \<open>events.Event\<close>, \<open>geo.Point\<close> and the dynamic values of a payload.
    \<^item> \<open>Queue_Interface\<close>, \<open>Queue\<close>: the locale \<open>event_queue\<close> of the five methods of \<open>queue.go\<close> with a
      list as the abstract state, and the ring buffer that implements it.
    \<^item> \<open>Metrics\<close>: counters as 64-bit words, histograms, the rendered text. \<open>Rate_Limiter\<close>:
      \<open>ratelimiter.go\<close>.
    \<^item> \<open>Config\<close>: \<open>Load\<close> with every parser of an environment variable.
    \<^item> \<open>Url\<close>: what the code uses of \<open>net/url\<close>, user information, query and fragment included. \<open>Url_Fields\<close>, \<open>Payload\<close>, \<open>Events\<close>: the checks and
      limits of \<open>events.go\<close>. \<open>Json\<close>, \<open>Decode\<close>: the scanner of \<open>encoding/json\<close> and \<open>DecodeBatch\<close> on it.
      \<open>Request_Metadata\<close>: \<open>request_metadata.go\<close>, \<open>useragent.go\<close> and \<open>RequestMetadata.Enrich\<close>.
    \<^item> \<open>Bulk_Sender\<close>: the locales \<open>bulk_sender\<close> and \<open>stable_sender\<close>, what the batcher relies on;
      \<open>Elastic\<close>: \<open>client.go\<close>, which provides it; \<open>Batcher\<close>: \<open>batcher.go\<close>, its client, with
      \<open>run_step\<close> for the \<open>select\<close> of \<open>Run\<close>.
    \<^item> \<open>Geo\<close>: \<open>geo.go\<close> with the locale \<open>geo_resolver\<close>; \<open>Http_Api\<close>: \<open>server.go\<close>; \<open>Collector\<close>: the
      GeoIP reloader, the log level and the shutdown goroutine of \<open>main.go\<close>; \<open>System\<close>: the start of
      the process and the components as steps of one state; \<open>Process\<close>: the life of the process, with
      the goroutines of \<open>main\<close> as an interleaving step relation up to the exit.
    \<^item> \<open>Geo_Generator\<close>: \<open>tools/generate-test-geoip-db\<close>, the two networks of the test database.
    \<^item> \<open>Encode\<close>: the text that \<open>encoding/json\<close> makes of a bulk payload; \<open>Utf8\<close>: that decoded strings are
      UTF-8; \<open>Readback\<close>: the decoder of \<open>Json\<close> on that text.

  State is passed explicitly: each Go object is a record, each method a function from it to its
  results and the changed record. A method that can panic returns an option. Errors are datatypes
  of their own, with \<open>Inl\<close> for the error branch. Locks make a method of the queue, the registry,
  the limiter and the resolver one step. A Go map whose order matters is a list of entries with one
  entry per key.

  What the groups of lemmas show. Queue: the ring buffer refines a list with a capacity, whatever the
  calls (\<open>queue_refines_list\<close>), and clears the slots it frees. Elastic: a response is classified
  exactly, \<open>Send\<close> accounts for the batch it is given and retries are idempotent, as identifiers stay.
  Batcher: what a flush counts, what it puts back, and which events it loses uncounted (only those of
  a request that fails as a whole and is not retried), loops end, and \<open>Run\<close> keeps its invariant, for
  any interleaving of requests and any moment of the cancellation. Events: what is valid, stated
  without the order of the checks; that truncation and sanitizing reach their aim, with the cases
  where they do not; that enrichment takes the request's values. Decode: what a body can and cannot say. Readback: a bulk payload has two lines
  per event, whatever the events hold, and a document that is read back has the members it was built
  with, the client's payload among them. Http\_Api: only a batch
  that is valid as a whole is admitted, all of it or, under the policy to drop the newest, as much of
  its front as fits, and every other reply leaves the queue as it was. Rfc3339: what \<open>Format\<close> prints is parsed exactly if the year has four digits,
  so that a normalised timestamp settles and the times of a document can be read. System: a
  collector whose configuration loads never panics, only ever queues and sends events that are valid
  and allowed, and its counters balance against the queue up to a batch for each failed flush.
  Process: the shutdown reaches the exit, the exit code tells a failed HTTP server, and an exit
  without a logged error leaves no event queued or, but for failed flushes, uncounted.

  Bounds and fuel. The loops over a queue of the batcher take fuel because requests may refill the
  queue while it is flushed: one unit more than the events queued and still to be offered is enough
  (\<open>drain_empties_queue\<close>, \<open>full_batches_are_flushed\<close>). The JSON parser takes fuel because its calls
  nest through strings: one unit more than twice the bytes of the text is enough, and more makes no
  difference (\<open>parse_fuel\<close>). All other recursion is structural or has a measure.

  Not modelled. The HTTP servers, signals, contexts and timers of the standard library: their effects
  are arguments and steps; a shutdown may time out at any moment. Compression and transport of a
  bulk request. The decimal text of a floating point number is a parameter, of which the theorems
  ask that it is a JSON number and, for the payload, that it reads back as the number it was made
  of. The structured log, except for the errors that \<open>main\<close> logs (\<open>shutdown\<close>, \<open>live_step\<close>).
  \<open>api/spec.go\<close> embeds one file. The sign of a floating point zero and the distinction of nil and
  empty slices of strings are not kept; no code of the collector depends on either.
\<close>

end
